(* ===== verification/Bms_Prelude.thy ===== *)
theory Bms_Prelude
  imports Main "HOL-Library.Word" "HOL-Library.Monad_Syntax"
begin

text \<open>
  Shared vocabulary of the development: the machine-integer types of the C++ code, checked
  reads of a \<open>std::vector<uint8_t>\<close>, the split of a 16-bit word into bytes, and the
  collections of rewrite rules the component theories extend.
\<close>

unbundle bit_operations_syntax

named_theorems port_simps \<open>how the serial-port operations act on the fields of a link\<close>
named_theorems decode_simps \<open>evaluation of register decoders on buffers of known length\<close>
named_theorems round_simps \<open>what one round of a daemon loop does\<close>

type_synonym u8 = "8 word"
type_synonym u16 = "16 word"
type_synonym u32 = "32 word"
type_synonym bytes = "u8 list"

section \<open>Checked byte access\<close>

text \<open>
  \<open>buf.data()[i]\<close> past the end is undefined behaviour in C++. Every read of a receive buffer
  goes through \<open>byte_at\<close>, whose \<^term>\<open>None\<close> stands for that case; the component theories
  prove that it never arises.
\<close>

definition byte_at :: "bytes \<Rightarrow> nat \<Rightarrow> u8 option" where
  "byte_at bs i = (if i < length bs then Some (bs ! i) else None)"

lemma byte_at_Some [decode_simps]: "i < length bs \<Longrightarrow> byte_at bs i = Some (bs ! i)"
  by (simp add: byte_at_def)

lemma byte_at_eq_None [simp]: "byte_at bs i = None \<longleftrightarrow> length bs \<le> i"
  by (simp add: byte_at_def not_less)

section \<open>Bytes and 16-bit words\<close>

definition hi_byte :: "u16 \<Rightarrow> u8" where
  "hi_byte w = ucast (drop_bit 8 w)"

definition lo_byte :: "u16 \<Rightarrow> u8" where
  "lo_byte w = ucast w"

definition join16 :: "u8 \<Rightarrow> u8 \<Rightarrow> u16" where
  "join16 hi lo = push_bit 8 (ucast hi) OR ucast lo"

lemma bit_join16: "bit (join16 hi lo) n \<longleftrightarrow> n < 16 \<and> (if n < 8 then bit lo n else bit hi (n - 8))"
  by (auto simp: join16_def bit_simps dest: bit_imp_le_length)

lemma hi_byte_join16 [simp]: "hi_byte (join16 hi lo) = hi"
  by (rule bit_word_eqI) (auto simp: hi_byte_def bit_simps bit_join16)

lemma lo_byte_join16 [simp]: "lo_byte (join16 hi lo) = lo"
  by (rule bit_word_eqI) (auto simp: lo_byte_def bit_simps bit_join16)

lemma join16_bytes [simp]: "join16 (hi_byte w) (lo_byte w) = w"
  by (rule bit_word_eqI) (auto simp: bit_join16 hi_byte_def lo_byte_def bit_simps)

lemma join16_inject [simp]: "join16 a b = join16 c d \<longleftrightarrow> a = c \<and> b = d"
  by (metis hi_byte_join16 lo_byte_join16)

lemma ucast_and_ff [simp]: "(ucast (w AND 0xFF) :: u8) = lo_byte w" for w :: u16
proof -
  have "(0xFF :: u16) = mask 8" by (simp add: mask_eq_exp_minus_1)
  then have "w AND 0xFF = take_bit 8 w" by (simp only: take_bit_eq_mask)
  then show ?thesis
    by (simp only:) (rule bit_word_eqI, auto simp: lo_byte_def bit_simps)
qed

definition join32 :: "u16 \<Rightarrow> u16 \<Rightarrow> u32" where
  "join32 hi lo = ucast lo OR push_bit 16 (ucast hi)"

lemma bit_join32: "bit (join32 hi lo) n \<longleftrightarrow> n < 32 \<and> (if n < 16 then bit lo n else bit hi (n - 16))"
  by (auto simp: join32_def bit_simps dest: bit_imp_le_length)

lemma join32_halves [simp]: "ucast (join32 hi lo) = lo" "ucast (drop_bit 16 (join32 hi lo)) = hi"
  by (rule bit_word_eqI, auto simp: bit_simps bit_join32)+

lemma unat_u8_less [simp]: "unat (b :: u8) < 256"
proof -
  have "unat b < 2 ^ LENGTH(8)" by (rule unsigned_less)
  then show ?thesis by simp
qed

lemma uint_u16_less [simp]: "uint (w :: u16) < 65536"
proof -
  have "uint w < 2 ^ LENGTH(16)" by (rule unsigned_less)
  then show ?thesis by simp
qed

lemma uint_u32_less [simp]: "uint (w :: u32) < 4294967296"
proof -
  have "uint w < 2 ^ LENGTH(32)" by (rule unsigned_less)
  then show ?thesis by simp
qed

lemma sint_u32_bounds: "- 2147483648 \<le> sint (w :: u32)" "sint w < 2147483648"
proof -
  have "- (2 ^ (LENGTH(32) - 1)) \<le> sint w" "sint w < 2 ^ (LENGTH(32) - 1)"
    by (rule sint_ge) (rule sint_lt)
  then show "- 2147483648 \<le> sint w" "sint w < 2147483648" by simp_all
qed

section \<open>Lists\<close>

lemma take_append_le: "n \<le> length xs \<Longrightarrow> take n (xs @ ys) = take n xs"
  by simp

lemma list_update_append_right:
  "length xs \<le> i \<Longrightarrow> (xs @ ys)[i := v] = xs @ ys[i - length xs := v]"
  by (simp add: list_update_append)

lemma snoc_eq_append_iff:
  "xs @ [x] = ys @ zs @ [z] \<longleftrightarrow> xs = ys @ zs \<and> x = z"
  by (metis append.assoc append1_eq_conv)

lemma nth_concat_pairs:
  "i < length rs \<Longrightarrow> concat (map (\<lambda>r. [f r, g r]) rs) ! (2 * i) = f (rs ! i)"
  "i < length rs \<Longrightarrow> concat (map (\<lambda>r. [f r, g r]) rs) ! Suc (2 * i) = g (rs ! i)"
  by (induction rs arbitrary: i) (auto simp: nth_Cons split: nat.splits)

lemma length_concat_pairs: "length (concat (map (\<lambda>r. [f r, g r]) rs)) = 2 * length rs"
  by (induction rs) auto

section \<open>Registers as bytes\<close>

text \<open>A list of 16-bit registers in little-endian and big-endian byte order.\<close>

definition le_registers :: "u16 list \<Rightarrow> bytes" where
  "le_registers rs = concat (map (\<lambda>r. [lo_byte r, hi_byte r]) rs)"

definition be_registers :: "u16 list \<Rightarrow> bytes" where
  "be_registers rs = concat (map (\<lambda>r. [hi_byte r, lo_byte r]) rs)"

lemma length_registers [simp]:
  "length (le_registers rs) = 2 * length rs" "length (be_registers rs) = 2 * length rs"
  by (simp_all add: le_registers_def be_registers_def length_concat_pairs)

lemma registers_nth:
  "i < length rs \<Longrightarrow> le_registers rs ! (2 * i) = lo_byte (rs ! i)"
  "i < length rs \<Longrightarrow> le_registers rs ! Suc (2 * i) = hi_byte (rs ! i)"
  "i < length rs \<Longrightarrow> be_registers rs ! (2 * i) = hi_byte (rs ! i)"
  "i < length rs \<Longrightarrow> be_registers rs ! Suc (2 * i) = lo_byte (rs ! i)"
  by (simp_all add: le_registers_def be_registers_def nth_concat_pairs)

end
