(* ===== verification/Binary64.thy ===== *)
theory Binary64
  imports Complex_Main Bms_Prelude "HOL-Library.Log_Nat"
begin

text \<open>
  The C++ \<open>double\<close> and \<open>float\<close> arithmetic the drivers use. A finite floating-point value is
  the rational it denotes, and every arithmetic operation rounds its exact result to the
  nearest value with \<open>p\<close> significand bits, ties to even (IEEE 754: \<open>p = 53\<close> for \<open>double\<close>,
  \<open>p = 24\<close> for \<open>float\<close>). All magnitudes the code produces lie between \<open>1/1000\<close> and
  \<open>2^32\<close>, so subnormals, overflow, infinities and NaN do not occur.
\<close>

type_synonym double = rat

section \<open>Rounding to nearest, ties to even\<close>

definition round_even :: "rat \<Rightarrow> int" where
  "round_even y =
     (let f = \<lfloor>y\<rfloor>; d = y - of_int f
      in if d < 1/2 then f else if 1/2 < d then f + 1 else if even f then f else f + 1)"

text \<open>\<open>binade x\<close> is \<open>e\<close> with \<open>2^e \<le> |x| < 2^(e+1)\<close>, computed from the bit lengths of the
  numerator and denominator.\<close>

definition binade :: "rat \<Rightarrow> int" where
  "binade x =
     (let (n, d) = quotient_of \<bar>x\<bar>; e = bitlen n - bitlen d
      in if 2 powi e \<le> \<bar>x\<bar> then e else e - 1)"

definition rnd :: "nat \<Rightarrow> rat \<Rightarrow> rat" where
  "rnd p x =
     (if x = 0 then 0
      else let u = 2 powi (binade x - int p + 1) in of_int (round_even (x / u)) * u)"

text \<open>The operations: \<open>double\<close> literals, division, multiplication, subtraction, and the
  conversion of a small unsigned integer to \<open>float\<close>. \<open>ddiv\<close> serves the divisions by a literal, which
  are all but one; a division by a computed number is \<open>ddiv_checked\<close>, which has no value for a zero
  divisor, where C++ gives an infinity or NaN.\<close>

definition dlit :: "rat \<Rightarrow> double" where "dlit x = rnd 53 x"
definition ddiv :: "double \<Rightarrow> double \<Rightarrow> double" where "ddiv a b = rnd 53 (a / b)"
definition ddiv_checked :: "double \<Rightarrow> double \<Rightarrow> double option" where
  "ddiv_checked a b = (if b = 0 then None else Some (ddiv a b))"
definition dmul :: "double \<Rightarrow> double \<Rightarrow> double" where "dmul a b = rnd 53 (a * b)"
definition dsub :: "double \<Rightarrow> double \<Rightarrow> double" where "dsub a b = rnd 53 (a - b)"
definition fsub :: "rat \<Rightarrow> rat \<Rightarrow> rat" where "fsub a b = rnd 24 (a - b)"

section \<open>Accuracy of the rounding\<close>

lemma round_even_error: "\<bar>of_int (round_even y) - y\<bar> \<le> 1/2"
proof -
  have "of_int \<lfloor>y\<rfloor> \<le> y" "y < of_int \<lfloor>y\<rfloor> + 1" by linarith+
  then show ?thesis by (simp add: round_even_def Let_def abs_if) linarith
qed

lemma round_even_of_int [simp]: "round_even (of_int n) = n"
  by (simp add: round_even_def Let_def)

lemma round_even_0 [simp]: "round_even 0 = 0"
  by (simp add: round_even_def Let_def)

lemma round_even_unique: "\<bar>of_int n - y\<bar> < 1/2 \<Longrightarrow> round_even y = n"
proof -
  assume "\<bar>of_int n - y\<bar> < 1/2"
  moreover have "\<bar>of_int (round_even y) - y\<bar> \<le> 1/2" by (rule round_even_error)
  ultimately have "\<bar>of_int (round_even y) - of_int n :: rat\<bar> < 1" by linarith
  then have "\<bar>of_int (round_even y - n) :: rat\<bar> < 1" by simp
  then have "\<bar>round_even y - n\<bar> < 1" by (metis of_int_abs of_int_less_1_iff)
  then show ?thesis by simp
qed

lemma binade_bounds:
  assumes "x \<noteq> 0"
  shows "2 powi binade x \<le> \<bar>x\<bar>" and "\<bar>x\<bar> < 2 powi (binade x + 1)"
proof -
  obtain n d where q: "quotient_of \<bar>x\<bar> = (n, d)" by fastforce
  then have d: "d > 0" and x: "\<bar>x\<bar> = of_int n / of_int d"
    by (auto simp: quotient_of_denom_pos quotient_of_div)
  with assms have n: "n > 0"
    by (metis divide_eq_0_iff not_less of_int_0 of_int_le_0_iff of_int_0_less_iff
        divide_nonpos_pos zero_less_abs_iff linorder_not_le)
  have bound: "2 powi (bitlen k - 1) \<le> (of_int k :: rat)" "of_int k < (2::rat) powi bitlen k"
    if "k > 0" for k
  proof -
    have pos: "bitlen k > 0"
      using bitlen_nonneg [of k] bitlen_eq_zero_iff [of k] that by linarith
    have "2 ^ nat (bitlen k - 1) \<le> k" "k < 2 ^ nat (bitlen k)"
      using bitlen_bounds [OF that] by auto
    then have "(of_int (2 ^ nat (bitlen k - 1)) :: rat) \<le> of_int k"
      and "(of_int k :: rat) < of_int (2 ^ nat (bitlen k))"
      by (simp_all only: of_int_le_iff of_int_less_iff)
    with pos show "2 powi (bitlen k - 1) \<le> (of_int k :: rat)" "of_int k < (2::rat) powi bitlen k"
      by (simp_all add: power_int_def)
  qed
  define e where "e = bitlen n - bitlen d"
  have split: "(2::rat) powi (a - b) = 2 powi a / 2 powi b" for a b
    by (simp add: power_int_diff)
  have lo: "2 powi (e - 1) \<le> \<bar>x\<bar>"
  proof -
    have "(2::rat) powi (e - 1) = 2 powi (bitlen n - 1) / 2 powi bitlen d"
      by (simp add: e_def flip: split) (simp add: algebra_simps)
    also have "\<dots> \<le> of_int n / of_int d"
      using bound [OF n] bound [OF d] n d by (intro frac_le) auto
    finally show ?thesis by (simp add: x)
  qed
  have hi: "\<bar>x\<bar> < 2 powi (e + 1)"
  proof -
    have "(of_int n / of_int d :: rat) < 2 powi bitlen n / 2 powi (bitlen d - 1)"
      using bound [OF n] bound [OF d] n d by (intro frac_less) auto
    also have "\<dots> = 2 powi (e + 1)"
      by (simp add: e_def flip: split) (simp add: algebra_simps)
    finally show ?thesis by (simp add: x)
  qed
  show "2 powi binade x \<le> \<bar>x\<bar>" and "\<bar>x\<bar> < 2 powi (binade x + 1)"
    using lo hi by (auto simp: binade_def q Let_def e_def)
qed

lemma rnd_0 [simp]: "rnd p 0 = 0"
  by (simp add: rnd_def)

lemma rnd_error: "\<bar>rnd p x - x\<bar> \<le> \<bar>x\<bar> / 2 ^ p"
proof (cases "x = 0")
  case False
  define u where "u = (2::rat) powi (binade x - int p + 1)"
  have u: "u > 0" by (simp add: u_def)
  have "rnd p x - x = (of_int (round_even (x / u)) - x / u) * u"
    using False u by (simp add: rnd_def Let_def u_def) (simp add: field_simps)
  then have "\<bar>rnd p x - x\<bar> = \<bar>of_int (round_even (x / u)) - x / u\<bar> * u"
    using u by (simp add: abs_mult)
  also have "\<dots> \<le> 1/2 * u"
    using u round_even_error by (intro mult_right_mono) auto
  also have "\<dots> = 2 powi binade x / 2 ^ p"
    by (simp add: u_def power_int_add power_int_diff)
  also have "\<dots> \<le> \<bar>x\<bar> / 2 ^ p"
    using binade_bounds [OF False] by (intro divide_right_mono) auto
  finally show ?thesis .
qed simp

lemma rnd_bounds:
  assumes "0 \<le> x"
  shows "x - x / 2 ^ p \<le> rnd p x" and "rnd p x \<le> x + x / 2 ^ p"
  using rnd_error [of p x] assms by (simp_all add: abs_le_iff)

lemma rnd_nonneg: "0 \<le> x \<Longrightarrow> 0 \<le> rnd p x"
proof -
  assume x: "0 \<le> x"
  then have "x / 2 ^ p \<le> x / 1" by (intro divide_left_mono) auto
  with rnd_bounds(1) [OF x, of p] show ?thesis by simp
qed

lemma rnd_pos:
  assumes "0 < p" "0 < x" shows "0 < rnd p x"
proof -
  have "x / 2 ^ p < x"
    using assms by (simp add: field_simps)
  with rnd_bounds(1) [of x p] assms show ?thesis by linarith
qed

text \<open>Integers that fit the significand are exact.\<close>

lemma rnd_of_int:
  assumes "\<bar>n\<bar> < 2 ^ p" shows "rnd p (of_int n) = of_int n"
proof (cases "n = 0")
  case False
  let ?e = "binade (of_int n)"
  have nz: "(of_int n :: rat) \<noteq> 0" using False by simp
  have "(2::rat) powi ?e < 2 powi int p"
  proof -
    have "(2::rat) powi ?e \<le> \<bar>of_int n\<bar>" by (rule binade_bounds [OF nz])
    also have "\<dots> < of_int (2 ^ p)" using assms by (metis of_int_abs of_int_less_iff)
    finally show ?thesis by simp
  qed
  then have "?e < int p"
    using power_int_increasing [of "int p" ?e "2::rat"] by (meson leD not_less one_le_numeral zero_neq_numeral)
  then have k: "?e - int p + 1 = - int (nat (int p - 1 - ?e))" by simp
  define m where "m = nat (int p - 1 - ?e)"
  have u: "(2::rat) powi (?e - int p + 1) = 1 / 2 ^ m"
    unfolding k m_def [symmetric] by (simp add: power_int_minus inverse_eq_divide)
  have "of_int n / (1 / 2 ^ m) = (of_int (n * 2 ^ m) :: rat)" by simp
  then have "round_even (of_int n / (1 / 2 ^ m)) = n * 2 ^ m"
    by (simp only: round_even_of_int)
  with nz show ?thesis by (simp add: rnd_def u Let_def)
qed simp

lemma fsub_of_int: "\<bar>a - b\<bar> < 2 ^ 24 \<Longrightarrow> fsub (of_int a) (of_int b) = of_int (a - b)"
  unfolding fsub_def of_int_diff [symmetric] by (rule rnd_of_int)

section \<open>Scaled integers: the shape of every physical quantity in the drivers\<close>

text \<open>
  \<open>raw / 1000.0\<close>, \<open>raw / 100.0\<close>: the rounded quotient determines the raw integer, is zero
  exactly when the raw integer is, and compares with an integer threshold as the exact
  quotient does.
\<close>

lemma ddiv_scaled_error:
  assumes "0 < s"
  shows "\<bar>ddiv (of_int n) (of_int s) * of_int s - of_int n\<bar> \<le> \<bar>of_int n\<bar> / 2 ^ 53"
proof -
  let ?q = "ddiv (of_int n) (of_int s)"
  have s: "(0::rat) < of_int s" using assms by simp
  then have "?q * of_int s - of_int n = (?q - of_int n / of_int s) * of_int s"
    by (simp add: left_diff_distrib)
  then have "\<bar>?q * of_int s - of_int n\<bar> = \<bar>?q - of_int n / of_int s\<bar> * of_int s"
    using s by (simp add: abs_mult)
  also have "\<dots> \<le> \<bar>of_int n / of_int s\<bar> / 2 ^ 53 * of_int s"
    unfolding ddiv_def using s by (intro mult_right_mono rnd_error) simp
  also have "\<dots> = \<bar>of_int n\<bar> / 2 ^ 53"
    using s by (simp add: abs_divide)
  finally show ?thesis .
qed

lemma ddiv_scaled_bounds:
  assumes "0 < s" "0 \<le> n"
  shows "of_int n - of_int n / 2 ^ 53 \<le> ddiv (of_int n) (of_int s) * of_int s"
    and "ddiv (of_int n) (of_int s) * of_int s \<le> of_int n + of_int n / 2 ^ 53"
proof -
  have n: "\<bar>of_int n\<bar> = (of_int n :: rat)" using assms(2) by simp
  show "of_int n - of_int n / 2 ^ 53 \<le> ddiv (of_int n) (of_int s) * of_int s"
    and "ddiv (of_int n) (of_int s) * of_int s \<le> of_int n + of_int n / 2 ^ 53"
    using ddiv_scaled_error [OF assms(1), of n] unfolding n abs_diff_le_iff by blast+
qed

lemma ddiv_recover:
  assumes "0 < s" "\<bar>n\<bar> \<le> 2 ^ 32"
  shows "round_even (ddiv (of_int n) (of_int s) * of_int s) = n"
proof (rule round_even_unique)
  let ?y = "ddiv (of_int n) (of_int s) * of_int s"
  have "(\<bar>of_int n\<bar> :: rat) \<le> of_int (2 ^ 32)"
    using assms(2) by (metis of_int_abs of_int_le_iff)
  then have "(\<bar>of_int n\<bar> :: rat) / 2 ^ 53 < 1/2" by simp
  with ddiv_scaled_error [OF assms(1), of n] show "\<bar>of_int n - ?y\<bar> < 1/2"
    by (simp add: abs_minus_commute)
qed

lemma ddiv_inject:
  assumes "0 < s" "\<bar>m\<bar> \<le> 2 ^ 32" "\<bar>n\<bar> \<le> 2 ^ 32"
  shows "ddiv (of_int m) (of_int s) = ddiv (of_int n) (of_int s) \<longleftrightarrow> m = n"
  using ddiv_recover [OF assms(1,2)] ddiv_recover [OF assms(1,3)] by metis

lemma ddiv_pos: "0 < a \<Longrightarrow> 0 < b \<Longrightarrow> 0 < ddiv a b"
  by (simp add: ddiv_def rnd_pos)

lemma ddiv_0 [simp]: "ddiv 0 b = 0"
  by (simp add: ddiv_def)

lemma ddiv_pos_iff: "0 \<le> n \<Longrightarrow> 0 < s \<Longrightarrow> 0 < ddiv (of_int n) (of_int s) \<longleftrightarrow> 0 < n"
  by (cases "n = 0") (auto intro: ddiv_pos)

lemma ddiv_exact:
  assumes "0 < s" "\<bar>k\<bar> < 2 ^ 53" shows "ddiv (of_int (k * s)) (of_int s) = of_int k"
proof -
  have "of_int (k * s) / of_int s = (of_int k :: rat)" using assms by simp
  then show ?thesis using assms(2) by (simp only: ddiv_def rnd_of_int)
qed

lemma ddiv_le_iff:
  assumes "0 < s" "0 \<le> n" "0 \<le> k" "k * s < 2 ^ 52" "k < 2 ^ 53"
  shows "ddiv (of_int n) (of_int s) \<le> of_int k \<longleftrightarrow> n \<le> k * s"
proof (rule iffI)
  have s: "(0::rat) < of_int s" using assms(1) by simp
  note err = ddiv_scaled_bounds [OF assms(1,2)]
  show "n \<le> k * s" if le: "ddiv (of_int n) (of_int s) \<le> of_int k"
  proof (rule ccontr)
    assume "\<not> n \<le> k * s"
    then have n: "k * s + 1 \<le> n" by simp
    have "ddiv (of_int n) (of_int s) * of_int s \<le> of_int (k * s)"
      using le s by (simp add: mult_right_mono)
    with err(1) have "of_int n - of_int n / 2 ^ 53 \<le> (of_int (k * s) :: rat)" by linarith
    then have "(of_int n - of_int n / 2 ^ 53) * 2 ^ 53 \<le> (of_int (k * s) :: rat) * 2 ^ 53"
      by (rule mult_right_mono) simp
    then have "(of_int (n * (2 ^ 53 - 1)) :: rat) \<le> of_int (k * s * 2 ^ 53)"
      by (simp add: left_diff_distrib)
    then have "n * (2 ^ 53 - 1) \<le> k * s * 2 ^ 53"
      by (simp only: of_int_le_iff)
    moreover have "(k * s + 1) * (2 ^ 53 - 1) \<le> n * (2 ^ 53 - 1)"
      using n by (intro mult_right_mono) auto
    ultimately show False using assms(4) by (simp add: algebra_simps)
  qed
  show "ddiv (of_int n) (of_int s) \<le> of_int k" if le: "n \<le> k * s"
  proof (cases "n = k * s")
    case True
    then show ?thesis using ddiv_exact [of s k] assms by simp
  next
    case False
    with le have n: "n + 1 \<le> k * s" by simp
    have "ddiv (of_int n) (of_int s) * of_int s \<le> of_int n + of_int n / 2 ^ 53"
      by (rule err(2))
    also have "\<dots> \<le> of_int n + 1"
    proof -
      have "n < 2 ^ 53" using n assms(4) by simp
      then have "(of_int n :: rat) < of_int (2 ^ 53)" by (simp only: of_int_less_iff)
      then show ?thesis by simp
    qed
    also have "\<dots> \<le> of_int (k * s)"
      using n by (metis of_int_1 of_int_add of_int_le_iff)
    finally show ?thesis using s by (simp add: mult_le_cancel_right)
  qed
qed

text \<open>\<open>raw * 0.1\<close>, \<open>raw * 0.01\<close>, \<open>raw * 0.001\<close>: two roundings, and the raw integer is still
  determined.\<close>

lemma dmul_recover:
  assumes "0 < s" "\<bar>n\<bar> \<le> 2 ^ 32"
  shows "round_even (dmul (of_int n) (dlit (1 / of_int s)) * of_int s) = n"
proof (rule round_even_unique)
  let ?n = "of_int n :: rat" and ?s = "of_int s :: rat"
  let ?l = "dlit (1 / ?s)"
  have s: "0 < ?s" using assms(1) by simp
  have n: "\<bar>?n\<bar> \<le> 2 ^ 32"
    using assms(2) by (metis of_int_abs of_int_le_iff of_int_numeral of_int_power)
  have l: "\<bar>?l * ?s - 1\<bar> \<le> 1 / 2 ^ 53"
  proof -
    have "?l * ?s - 1 = (?l - 1 / ?s) * ?s" using s by (simp add: left_diff_distrib)
    then have "\<bar>?l * ?s - 1\<bar> = \<bar>?l - 1 / ?s\<bar> * ?s" using s by (simp add: abs_mult)
    also have "\<dots> \<le> \<bar>1 / ?s\<bar> / 2 ^ 53 * ?s"
      unfolding dlit_def using s by (intro mult_right_mono rnd_error) simp
    finally show ?thesis using s by simp
  qed
  then have "\<bar>?l * ?s - 1\<bar> \<le> 1" by (rule order_trans) simp
  then have l2: "\<bar>?l * ?s\<bar> \<le> 2" by arith
  have "dmul ?n ?l * ?s - ?n * (?l * ?s) = (dmul ?n ?l - ?n * ?l) * ?s"
    by (simp add: left_diff_distrib)
  then have "\<bar>dmul ?n ?l * ?s - ?n * (?l * ?s)\<bar> = \<bar>dmul ?n ?l - ?n * ?l\<bar> * ?s"
    using s by (simp add: abs_mult)
  also have "\<dots> \<le> \<bar>?n * ?l\<bar> / 2 ^ 53 * ?s"
    unfolding dmul_def using s by (intro mult_right_mono rnd_error) simp
  also have "\<dots> = \<bar>?n\<bar> * \<bar>?l * ?s\<bar> / 2 ^ 53" using s by (simp add: abs_mult)
  also have "\<dots> \<le> 2 ^ 32 * 2 / 2 ^ 53" using n l2 by (intro divide_right_mono mult_mono) auto
  finally have 1: "\<bar>dmul ?n ?l * ?s - ?n * (?l * ?s)\<bar> \<le> 1 / 4" by simp
  have "\<bar>?n * (?l * ?s) - ?n\<bar> = \<bar>?n\<bar> * \<bar>?l * ?s - 1\<bar>"
    by (simp add: right_diff_distrib flip: abs_mult)
  also have "\<dots> \<le> 2 ^ 32 * (1 / 2 ^ 53)" using n l by (intro mult_mono) auto
  finally have 2: "\<bar>?n * (?l * ?s) - ?n\<bar> < 1 / 4" by simp
  from 1 2 show "\<bar>?n - dmul ?n ?l * ?s\<bar> < 1 / 2" by arith
qed

end
