(* ===== verification/Battery_Status.thy ===== *)
theory Battery_Status
  imports Binary64
begin

text \<open>
  The record every part of the system exchanges: \<open>bms::BatteryStatus\<close> of
  \<open>include/bms_driver.hpp\<close>, with the fields in the order of the packed struct, and the values
  a client sees through the abstract class \<open>BmsDriver\<close>.
\<close>

record battery_status =
  voltage :: double
  current :: double
  temperature :: double
  percentage :: double
  charge :: double
  capacity :: double
  design_capacity :: double
  protect_status :: u32
  work_state :: u16
  max_cell_voltage :: double
  min_cell_voltage :: double
  serial_number :: bytes
  sw_version :: u16
  hw_version :: u16
  soh :: u16
  cycles :: u32
  io_state :: u32
  power_on :: u8

text \<open>\<open>memset(&s, 0, sizeof(s))\<close> and \<open>BatteryStatus s{}\<close>.\<close>

definition zero_status :: battery_status where
  "zero_status =
     \<lparr>voltage = 0, current = 0, temperature = 0, percentage = 0, charge = 0, capacity = 0,
      design_capacity = 0, protect_status = 0, work_state = 0, max_cell_voltage = 0,
      min_cell_voltage = 0, serial_number = replicate 33 0, sw_version = 0, hw_version = 0,
      soh = 0, cycles = 0, io_state = 0, power_on = 0\<rparr>"

text \<open>\<open>sizeof(BatteryStatus)\<close> under \<open>#pragma pack(1)\<close> is the sum of the field sizes: seven
  doubles, the protection word, the work state, two doubles, the serial number, three 16-bit
  fields, two 32-bit fields and the power flag.\<close>

definition sizeof_status :: nat where
  "sizeof_status = 7 * 8 + 4 + 2 + 2 * 8 + 33 + 3 * 2 + 2 * 4 + 1"

lemma sizeof_status_126 [simp]: "sizeof_status = 126"
  by (simp add: sizeof_status_def)

end
