(* ===== verification/Record_Layout.thy ===== *)
theory Record_Layout
  imports Battery_Status
begin

text \<open>
  The bytes of the packed \<open>BatteryStatus\<close> as the daemon writes and the clients read them: the
  daemon hands the memory of the record to \<open>write\<close>, the clients copy it back. Integers are
  little-endian, doubles are IEEE 754 binary64, as on the machines the program is built for.
\<close>

section \<open>Little-endian numbers\<close>

fun le_bytes :: "nat \<Rightarrow> nat \<Rightarrow> bytes" where
  "le_bytes 0 x = []"
| "le_bytes (Suc n) x = word_of_nat x # le_bytes n (x div 256)"

fun le_nat :: "bytes \<Rightarrow> nat" where
  "le_nat [] = 0"
| "le_nat (b # bs) = unat b + 256 * le_nat bs"

lemma length_le_bytes [simp]: "length (le_bytes n x) = n"
  by (induction n arbitrary: x) simp_all

lemma le_nat_le_bytes: "le_nat (le_bytes n x) = x mod 256 ^ n"
proof (induction n arbitrary: x)
  case (Suc n)
  have "unat (word_of_nat x :: u8) = x mod 256"
    by (simp add: unsigned_of_nat take_bit_eq_mod)
  with Suc show ?case by (simp add: mod_mult2_eq)
qed simp

lemma le_nat_le_bytes_id: "x < 256 ^ n \<Longrightarrow> le_nat (le_bytes n x) = x"
  by (simp add: le_nat_le_bytes)

section \<open>Binary64\<close>

definition double_bits :: "double \<Rightarrow> nat" where
  "double_bits x =
     (if x = 0 then 0
      else let e = binade x; m = nat \<lfloor>\<bar>x\<bar> * 2 powi (52 - e)\<rfloor>
           in (if x < 0 then 2 ^ 63 else 0) + nat (e + 1023) * 2 ^ 52 + (m - 2 ^ 52))"

text \<open>\<^term>\<open>None\<close> stands for the bit patterns of subnormals, infinities and NaN, which no
  arithmetic of the drivers produces.\<close>

definition double_of_bits :: "nat \<Rightarrow> double option" where
  "double_of_bits b =
     (let s = b div 2 ^ 63 mod 2; ex = b div 2 ^ 52 mod 2 ^ 11; f = b mod 2 ^ 52
      in if ex = 0 \<and> f = 0 then Some 0
         else if ex = 0 \<or> ex = 2047 then None
         else Some ((if s = 1 then -1 else 1) * of_nat (2 ^ 52 + f) * 2 powi (int ex - 1075)))"

text \<open>The values with an exact normal representation.\<close>

definition double_ok :: "double \<Rightarrow> bool" where
  "double_ok x \<longleftrightarrow> x = 0 \<or> (\<exists>m e. 2 ^ 52 \<le> m \<and> m < 2 ^ 53 \<and> -1022 \<le> e \<and> e \<le> 1023 \<and>
     \<bar>x\<bar> = of_nat m * 2 powi (e - 52))"

lemma powi_less_cancel: "(2::rat) powi a < 2 powi b \<longleftrightarrow> a < b"
  by (metis linorder_not_less one_le_numeral power_int_increasing power_int_strict_increasing
      one_less_numeral_iff semiring_norm(76) order_less_imp_not_less)

lemma binade_unique:
  assumes "2 powi e \<le> \<bar>x\<bar>" "\<bar>x\<bar> < 2 powi (e + 1)"
  shows "binade x = e"
proof -
  have "x \<noteq> 0" using assms(1) by (metis abs_zero not_less zero_less_numeral zero_less_power_int)
  note b = binade_bounds [OF this]
  from b(1) assms(2) have "binade x < e + 1" using powi_less_cancel le_less_trans by blast
  moreover from assms(1) b(2) have "e < binade x + 1" using powi_less_cancel le_less_trans by blast
  ultimately show ?thesis by simp
qed

lemma mantissa_binade:
  assumes "2 ^ 52 \<le> m" "m < 2 ^ 53" "\<bar>x\<bar> = of_nat m * 2 powi (e - 52)"
  shows "binade x = e" and "\<lfloor>\<bar>x\<bar> * 2 powi (52 - e)\<rfloor> = int m"
proof -
  have split: "(2::rat) powi (e - 52) = 2 powi e / 2 ^ 52"
    by (simp add: power_int_diff)
  have "(2 ^ 52 :: rat) \<le> of_nat m" "of_nat m < (2 ^ 53 :: rat)"
    using assms(1,2) by (metis of_nat_le_iff of_nat_numeral of_nat_power,
      metis of_nat_less_iff of_nat_numeral of_nat_power)
  then show "binade x = e"
    by (intro binade_unique) (simp_all add: assms(3) split power_int_add field_simps)
  have "(2::rat) powi (e - 52) * 2 powi (52 - e) = 1"
    by (simp flip: power_int_add)
  then have "\<bar>x\<bar> * 2 powi (52 - e) = of_nat m" by (simp add: assms(3) mult.assoc)
  then show "\<lfloor>\<bar>x\<bar> * 2 powi (52 - e)\<rfloor> = int m" by simp
qed

lemma bits_fields:
  fixes s ex f :: nat
  assumes "s < 2" "ex < 2 ^ 11" "f < 2 ^ 52"
  shows "(s * 2 ^ 63 + ex * 2 ^ 52 + f) div 2 ^ 63 mod 2 = s"
    "(s * 2 ^ 63 + ex * 2 ^ 52 + f) div 2 ^ 52 mod 2 ^ 11 = ex"
    "(s * 2 ^ 63 + ex * 2 ^ 52 + f) mod 2 ^ 52 = f"
    "s * 2 ^ 63 + ex * 2 ^ 52 + f < 2 ^ 64"
proof -
  have "s * 2 ^ 63 + ex * 2 ^ 52 + f = f + 2 ^ 52 * (ex + 2 ^ 11 * s)" by simp
  note e = this
  have d: "(s * 2 ^ 63 + ex * 2 ^ 52 + f) div 2 ^ 52 = ex + 2 ^ 11 * s"
    unfolding e using assms(3) by (subst div_mult_self2) simp_all
  show "(s * 2 ^ 63 + ex * 2 ^ 52 + f) mod 2 ^ 52 = f"
    unfolding e using assms(3) by (simp only: mod_mult_self2 mod_less)
  show "(s * 2 ^ 63 + ex * 2 ^ 52 + f) div 2 ^ 52 mod 2 ^ 11 = ex"
    unfolding d using assms(2) by simp
  have "(s * 2 ^ 63 + ex * 2 ^ 52 + f) div 2 ^ 63 = (s * 2 ^ 63 + ex * 2 ^ 52 + f) div 2 ^ 52 div 2 ^ 11"
    by (simp flip: div_mult2_eq)
  also have "\<dots> = s" unfolding d using assms(2) by simp
  finally show "(s * 2 ^ 63 + ex * 2 ^ 52 + f) div 2 ^ 63 mod 2 = s" using assms(1) by simp
  show "s * 2 ^ 63 + ex * 2 ^ 52 + f < 2 ^ 64" using assms by simp
qed

lemma double_round_trip:
  assumes "double_ok x"
  shows "double_bits x < 2 ^ 64" and "double_of_bits (double_bits x) = Some x"
proof -
  have "double_bits x < 2 ^ 64 \<and> double_of_bits (double_bits x) = Some x"
  proof (cases "x = 0")
    case False
    with assms obtain m e where me: "2 ^ 52 \<le> m" "m < 2 ^ 53" "-1022 \<le> e" "e \<le> 1023"
      "\<bar>x\<bar> = of_nat m * 2 powi (e - 52)" by (auto simp: double_ok_def)
    let ?s = "if x < 0 then 1 else 0 :: nat" and ?ex = "nat (e + 1023)" and ?f = "m - 2 ^ 52"
    have bits: "double_bits x = ?s * 2 ^ 63 + ?ex * 2 ^ 52 + ?f"
      using False mantissa_binade [OF me(1,2,5)] by (simp add: double_bits_def Let_def)
    have ranges: "?s < 2" "?ex < 2 ^ 11" "?f < 2 ^ 52" using me by auto
    note fields = bits_fields [OF ranges, folded bits]
    have ex: "?ex \<noteq> 0" "?ex \<noteq> 2047" "int ?ex - 1075 = e - 52" using me(3,4) by auto
    have "2 ^ 52 + ?f = m" using me(1) by simp
    then have "double_of_bits (double_bits x) =
        Some ((if ?s = 1 then -1 else 1) * of_nat m * 2 powi (e - 52))"
      unfolding double_of_bits_def Let_def fields(1-3) using ex by simp
    also have "(if ?s = 1 then -1 else 1) * of_nat m * 2 powi (e - 52) = x"
      using me(5) by (auto simp: abs_if split: if_splits)
    finally show ?thesis using fields(4) by simp
  qed (simp add: double_bits_def double_of_bits_def)
  then show "double_bits x < 2 ^ 64" and "double_of_bits (double_bits x) = Some x" by simp_all
qed

lemma rnd_double_ok:
  assumes "2 powi -1022 \<le> \<bar>y\<bar>" "\<bar>y\<bar> < 2 powi 1023"
  shows "double_ok (rnd 53 y)"
proof -
  define e where "e = binade y"
  define u where "u = (2::rat) powi (e - 52)"
  define k where "k = round_even (y / u)"
  have y: "y \<noteq> 0" using assms(1) by (metis abs_zero not_less zero_less_numeral zero_less_power_int)
  note b = binade_bounds [OF y, folded e_def]
  have u: "0 < u" by (simp add: u_def)
  have e: "-1022 \<le> e" "e \<le> 1022"
    using powi_less_cancel [of "-1022" "e + 1"] powi_less_cancel [of e 1023] b assms by linarith+
  have scale: "(2::rat) powi e = 2 ^ 52 * u" "(2::rat) powi (e + 1) = 2 ^ 53 * u"
    by (simp_all add: u_def power_int_diff power_int_add)
  have q: "2 ^ 52 \<le> \<bar>y / u\<bar>" "\<bar>y / u\<bar> < 2 ^ 53"
    using b u unfolding scale by (simp_all add: abs_divide field_simps)
  have "\<bar>of_int k - y / u\<bar> \<le> 1/2" unfolding k_def by (rule round_even_error)
  with q have "2 ^ 52 - 1/2 \<le> (\<bar>of_int k\<bar> :: rat)" "(\<bar>of_int k\<bar> :: rat) < 2 ^ 53 + 1/2"
    by linarith+
  then have "(of_int (2 ^ 52 - 1) :: rat) < of_int \<bar>k\<bar>" "(of_int \<bar>k\<bar> :: rat) < of_int (2 ^ 53 + 1)"
    by simp_all
  then have k: "2 ^ 52 \<le> \<bar>k\<bar>" "\<bar>k\<bar> \<le> 2 ^ 53" unfolding of_int_less_iff by simp_all
  have r: "\<bar>rnd 53 y\<bar> = of_int \<bar>k\<bar> * u"
  proof -
    have "e - int 53 + 1 = e - 52" by simp
    then have "rnd 53 y = of_int k * u"
      using y by (simp add: rnd_def Let_def k_def u_def e_def)
    then show ?thesis using u by (simp add: abs_mult)
  qed
  show ?thesis
  proof (cases "\<bar>k\<bar> = 2 ^ 53")
    case True
    have "\<bar>rnd 53 y\<bar> = of_nat (2 ^ 52) * 2 powi (e + 1 - 52)"
      unfolding r True by (simp add: u_def power_int_diff power_int_add)
    moreover have "(2::nat) ^ 52 \<le> 2 ^ 52" "(2::nat) ^ 52 < 2 ^ 53" "-1022 \<le> e + 1" "e + 1 \<le> 1023"
      using e by simp_all
    ultimately show ?thesis unfolding double_ok_def by blast
  next
    case False
    have "\<bar>rnd 53 y\<bar> = of_nat (nat \<bar>k\<bar>) * 2 powi (e - 52)"
      unfolding r by (simp add: u_def)
    moreover have "2 ^ 52 \<le> nat \<bar>k\<bar>" "nat \<bar>k\<bar> < 2 ^ 53" using k False by auto
    ultimately show ?thesis using e unfolding double_ok_def by (intro disjI2 exI [of _ "nat \<bar>k\<bar>"] exI [of _ e]) simp
  qed
qed

lemma double_ok_rnd:
  assumes "y = 0 \<or> 1 / 2 ^ 100 \<le> \<bar>y\<bar> \<and> \<bar>y\<bar> \<le> 2 ^ 100"
  shows "double_ok (rnd 53 y)"
proof (cases "y = 0")
  case False
  have "(2::rat) powi -1022 \<le> 2 powi -100" by (rule power_int_increasing) simp_all
  moreover have "(2::rat) powi -100 = 1 / 2 ^ 100" by (simp add: power_int_minus inverse_eq_divide)
  moreover have "(2::rat) powi 100 < 2 powi 1023" by (rule power_int_strict_increasing) simp_all
  moreover have "(2::rat) powi 100 = 2 ^ 100" by simp
  ultimately show ?thesis using assms False by (intro rnd_double_ok) linarith+
qed (simp add: double_ok_def)

lemma double_ok_scaled:
  assumes "\<bar>n\<bar> < 2 ^ 53" "0 < s" "s \<le> 1000"
  shows "double_ok (ddiv (of_int n) (of_int s))"
proof -
  have s: "(1::rat) \<le> of_int s" "(of_int s :: rat) \<le> 1000"
    using assms(2,3) by (metis of_int_1 of_int_le_iff int_one_le_iff_zero_less,
      metis of_int_numeral of_int_le_iff)
  have n: "(\<bar>of_int n\<bar> :: rat) \<le> 2 ^ 53"
    using assms(1) by (metis less_imp_le of_int_abs of_int_le_iff of_int_numeral of_int_power)
  have "\<bar>of_int n / of_int s\<bar> \<le> (2 ^ 100 :: rat)"
  proof -
    have "\<bar>of_int n / of_int s\<bar> = \<bar>of_int n\<bar> / (of_int s :: rat)" using s by (simp add: abs_divide)
    also have "\<dots> \<le> 2 ^ 53 / 1" using n s by (intro frac_le) auto
    finally show ?thesis by simp
  qed
  moreover have "1 / 2 ^ 100 \<le> \<bar>of_int n / of_int s :: rat\<bar>" if "n \<noteq> 0"
  proof -
    have "(1::rat) \<le> \<bar>of_int n\<bar>" using that by (metis of_int_1 of_int_abs of_int_le_iff abs_ge_zero int_one_le_iff_zero_less zero_less_abs_iff)
    then have "1 / 1000 \<le> \<bar>of_int n\<bar> / (of_int s :: rat)" using s by (intro frac_le) auto
    then show ?thesis using s by (simp add: abs_divide)
  qed
  ultimately show ?thesis unfolding ddiv_def by (intro double_ok_rnd) (cases "n = 0"; simp)
qed

lemma double_ok_of_int: "\<bar>n\<bar> < 2 ^ 53 \<Longrightarrow> double_ok (of_int n)"
  using double_ok_scaled [of n 1] ddiv_exact [of 1 n] by simp

section \<open>The record\<close>

definition encode_status :: "battery_status \<Rightarrow> bytes" where
  "encode_status s =
     le_bytes 8 (double_bits (voltage s)) @ le_bytes 8 (double_bits (current s)) @
     le_bytes 8 (double_bits (temperature s)) @ le_bytes 8 (double_bits (percentage s)) @
     le_bytes 8 (double_bits (charge s)) @ le_bytes 8 (double_bits (capacity s)) @
     le_bytes 8 (double_bits (design_capacity s)) @ le_bytes 4 (unat (protect_status s)) @
     le_bytes 2 (unat (work_state s)) @ le_bytes 8 (double_bits (max_cell_voltage s)) @
     le_bytes 8 (double_bits (min_cell_voltage s)) @ serial_number s @
     le_bytes 2 (unat (sw_version s)) @ le_bytes 2 (unat (hw_version s)) @
     le_bytes 2 (unat (soh s)) @ le_bytes 4 (unat (cycles s)) @ le_bytes 4 (unat (io_state s)) @
     [power_on s]"

text \<open>A member of the record, by its offset and size.\<close>

definition member :: "nat \<Rightarrow> nat \<Rightarrow> bytes \<Rightarrow> nat" where
  "member offset n bs = le_nat (take n (drop offset bs))"

definition double_member :: "nat \<Rightarrow> bytes \<Rightarrow> double option" where
  "double_member offset bs = double_of_bits (member offset 8 bs)"

definition record_ok :: "battery_status \<Rightarrow> bool" where
  "record_ok s \<longleftrightarrow> length (serial_number s) = 33 \<and>
     list_all double_ok [voltage s, current s, temperature s, percentage s, charge s, capacity s,
       design_capacity s, max_cell_voltage s, min_cell_voltage s]"

lemma length_encode_status [simp]:
  "length (serial_number s) = 33 \<Longrightarrow> length (encode_status s) = 126"
  by (simp add: encode_status_def)

lemma encode_double_members:
  assumes "record_ok s"
  shows "double_member 0 (encode_status s) = Some (voltage s)"
    "double_member 8 (encode_status s) = Some (current s)"
    "double_member 16 (encode_status s) = Some (temperature s)"
    "double_member 24 (encode_status s) = Some (percentage s)"
    "double_member 32 (encode_status s) = Some (charge s)"
    "double_member 40 (encode_status s) = Some (capacity s)"
    "double_member 48 (encode_status s) = Some (design_capacity s)"
    "double_member 62 (encode_status s) = Some (max_cell_voltage s)"
    "double_member 70 (encode_status s) = Some (min_cell_voltage s)"
proof -
  have bits: "double_of_bits (le_nat (le_bytes 8 (double_bits x))) = Some x" if "double_ok x" for x
    using double_round_trip [OF that] by (simp add: le_nat_le_bytes)
  note simps = double_member_def member_def encode_status_def bits
  show "double_member 0 (encode_status s) = Some (voltage s)"
    "double_member 8 (encode_status s) = Some (current s)"
    "double_member 16 (encode_status s) = Some (temperature s)"
    "double_member 24 (encode_status s) = Some (percentage s)"
    "double_member 32 (encode_status s) = Some (charge s)"
    "double_member 40 (encode_status s) = Some (capacity s)"
    "double_member 48 (encode_status s) = Some (design_capacity s)"
    "double_member 62 (encode_status s) = Some (max_cell_voltage s)"
    "double_member 70 (encode_status s) = Some (min_cell_voltage s)"
    using assms by (simp_all add: record_ok_def simps del: le_bytes.simps)
qed

lemma le_nat_unat:
  fixes a :: u16 and c :: u32
  shows "(word_of_nat (le_nat (le_bytes 2 (unat a))) :: u16) = a"
    "(word_of_nat (le_nat (le_bytes 4 (unat c))) :: u32) = c"
proof -
  have "unat a < 2 ^ LENGTH(16)" "unat c < 2 ^ LENGTH(32)" by (rule unsigned_less)+
  then show "(word_of_nat (le_nat (le_bytes 2 (unat a))) :: u16) = a"
    "(word_of_nat (le_nat (le_bytes 4 (unat c))) :: u32) = c"
    by (simp_all add: le_nat_le_bytes del: le_bytes.simps)
qed

lemma encode_word_members:
  assumes "length (serial_number s) = 33"
  shows "word_of_nat (member 56 4 (encode_status s)) = protect_status s"
    "word_of_nat (member 60 2 (encode_status s)) = work_state s"
    "word_of_nat (member 115 2 (encode_status s)) = soh s"
    "word_of_nat (member 117 4 (encode_status s)) = cycles s"
    "word_of_nat (member 121 4 (encode_status s)) = io_state s"
    "word_of_nat (member 125 1 (encode_status s)) = power_on s"
  using assms
  by (simp_all add: member_def encode_status_def le_nat_unat del: le_bytes.simps)

lemma zero_record_ok: "record_ok zero_status"
  by (simp add: record_ok_def zero_status_def double_ok_def)

lemma le_bytes_0: "le_bytes n 0 = replicate n 0"
  by (induction n) simp_all

lemma encode_zero_status: "encode_status zero_status = replicate 126 0"
proof -
  have "[0 :: u8] = replicate 1 0" by simp
  then show ?thesis
    by (simp only: encode_status_def zero_status_def battery_status.select_convs double_bits_def
        if_True refl unsigned_0 le_bytes_0 replicate_add [symmetric]) simp
qed

section \<open>What a driver shows of a record\<close>

text \<open>The values of the virtual functions of \<open>BmsDriver\<close>.\<close>

record bms_view =
  get_voltage :: "double option"
  get_current :: "double option"
  get_temperature :: "double option"
  get_percentage :: "double option"
  get_charge :: "double option"
  get_capacity :: "double option"
  get_design_capacity :: "double option"
  get_protect_status :: u32
  get_work_state :: u16
  get_max_cell_voltage :: "double option"
  get_min_cell_voltage :: "double option"
  get_soh :: u16
  get_cycles :: u32
  get_io_state :: u32
  is_power_on :: bool
  is_connected :: bool
  get_data_age_ms :: double

text \<open>What a client that has the record \<open>s\<close> shows, given its last three values.\<close>

definition view_of_status :: "battery_status \<Rightarrow> bool \<Rightarrow> bool \<Rightarrow> double \<Rightarrow> bms_view" where
  "view_of_status s pw conn age =
     \<lparr>get_voltage = Some (voltage s), get_current = Some (current s),
      get_temperature = Some (temperature s), get_percentage = Some (percentage s),
      get_charge = Some (charge s), get_capacity = Some (capacity s),
      get_design_capacity = Some (design_capacity s), get_protect_status = protect_status s,
      get_work_state = work_state s, get_max_cell_voltage = Some (max_cell_voltage s),
      get_min_cell_voltage = Some (min_cell_voltage s), get_soh = soh s, get_cycles = cycles s,
      get_io_state = io_state s, is_power_on = pw, is_connected = conn, get_data_age_ms = age\<rparr>"

end
