(* ===== verification/Scud_Client.thy ===== *)
theory Scud_Client
  imports Record_Layout "HOL-Library.Sublist"
begin

text \<open>
  The client side of the SCUD battery, class \<open>ScudBmsDriver\<close> of
  \<open>src/drivers/scud485/scud_bms_driver.cpp\<close>: the reader thread that assembles records from the
  daemon's stream, the freshness of the data, and the getters. The thread, the daemon and the
  clock are a step relation; what a getter shows is proved of every reachable state.
\<close>

unbundle bit_operations_syntax

section \<open>The driver\<close>

record scud_client =
  sock_fd :: int
  connected :: bool
  cached :: bytes           \<comment> \<open>the memory of \<open>cached_\<close>\<close>
  last_rx_us :: int
  stale_logged :: bool
  wire :: bytes             \<comment> \<open>\<open>wire\<close> of \<open>reader_loop\<close>\<close>
  got :: nat

definition new_client :: scud_client where
  "new_client = \<lparr>sock_fd = -1, connected = False, cached = replicate sizeof_status 0,
     last_rx_us = -1, stale_logged = False, wire = replicate sizeof_status 0, got = 0\<rparr>"

text \<open>\<open>monotonic_us\<close>, for the seconds and nanoseconds of \<open>clock_gettime\<close>, unless it fails.\<close>

definition monotonic_us :: "(nat \<times> nat) option \<Rightarrow> int" where
  "monotonic_us ts =
     (case ts of None \<Rightarrow> -1 | Some (sec, nsec) \<Rightarrow> int sec * 1000000 + int (nsec div 1000))"

text \<open>A clock that never goes back gives microseconds that never go back.\<close>

lemma monotonic_us_mono:
  assumes "sec < sec' \<or> sec = sec' \<and> nsec \<le> nsec'" "nsec < 1000000000"
  shows "monotonic_us (Some (sec, nsec)) \<le> monotonic_us (Some (sec', nsec'))"
proof -
  have "nsec div 1000 < 1000000" using assms(2) by (simp add: div_less_iff_less_mult)
  moreover have "sec = sec' \<Longrightarrow> nsec div 1000 \<le> nsec' div 1000" using assms(1) by (auto intro: div_le_mono)
  moreover have "int sec * 1000000 + 1000000 \<le> int sec' * 1000000" if "sec < sec'" using that by simp
  ultimately show ?thesis using assms(1) by (auto simp: monotonic_us_def)
qed

abbreviation "kDataStaleMs \<equiv> (3000 :: double)"

text \<open>\<open>get_data_age_ms\<close> for a reading of \<open>monotonic_us\<close>.\<close>

definition data_age_ms :: "scud_client \<Rightarrow> int \<Rightarrow> double" where
  "data_age_ms c now =
     (if last_rx_us c < 0 \<or> now < 0 then -1
      else if now < last_rx_us c then 0
      else ddiv (rnd 53 (of_int (now - last_rx_us c))) 1000)"

definition is_data_current :: "scud_client \<Rightarrow> int \<Rightarrow> bool" where
  "is_data_current c now = (let age = data_age_ms c now in 0 \<le> age \<and> age \<le> kDataStaleMs)"

text \<open>\<open>try_connect\<close>, for the descriptor \<open>socket\<close> and \<open>connect\<close> yield, negative if one fails.\<close>

definition try_connect :: "int \<Rightarrow> scud_client \<Rightarrow> bool \<times> scud_client" where
  "try_connect s c =
     (if 0 \<le> sock_fd c then (True, c)
      else if s < 0 then (False, c\<lparr>sock_fd := -1\<rparr>)
      else (True, c\<lparr>sock_fd := s, connected := True\<rparr>))"

definition disconnect :: "scud_client \<Rightarrow> scud_client" where
  "disconnect c = c\<lparr>sock_fd := -1, connected := False, last_rx_us := -1\<rparr>"

text \<open>The destructor, once the reader thread is joined.\<close>

definition destroy_client :: "scud_client \<Rightarrow> scud_client" where
  "destroy_client c = disconnect c"

text \<open>What \<open>poll\<close> and \<open>read\<close> on the socket yield in one iteration.\<close>

datatype socket_event =
    PollIntr
  | PollFails
  | PollTimeout
  | PollHup               \<comment> \<open>\<open>POLLERR\<close> or \<open>POLLHUP\<close>\<close>
  | ReadIntr
  | ReadFails
  | ReadEnd
  | ReadData u8 bytes     \<comment> \<open>at least one byte\<close>

text \<open>One iteration of \<open>reader_loop\<close> with an open socket, \<open>now\<close> being \<open>monotonic_us()\<close>.\<close>

definition reader_step :: "socket_event \<Rightarrow> int \<Rightarrow> scud_client \<Rightarrow> scud_client" where
  "reader_step ev now c =
     (case ev of
        PollIntr \<Rightarrow> c
      | PollFails \<Rightarrow> (disconnect c)\<lparr>got := 0\<rparr>
      | PollTimeout \<Rightarrow>
          (if got c > 0 then (disconnect c)\<lparr>got := 0\<rparr>
           else let age = data_age_ms c now
                in if age \<ge> 0 \<and> age > kDataStaleMs \<and> \<not> stale_logged c
                   then c\<lparr>stale_logged := True\<rparr> else c)
      | PollHup \<Rightarrow> (disconnect c)\<lparr>got := 0\<rparr>
      | ReadIntr \<Rightarrow> c
      | ReadFails \<Rightarrow> (disconnect c)\<lparr>got := 0\<rparr>
      | ReadEnd \<Rightarrow> (disconnect c)\<lparr>got := 0\<rparr>
      | ReadData b bs \<Rightarrow>
          (let data = take (sizeof_status - got c) (b # bs);
               c = c\<lparr>wire := take (got c) (wire c) @ data @ drop (got c + length data) (wire c),
                     got := got c + length data\<rparr>
           in if got c < sizeof_status then c
              else c\<lparr>cached := wire c, last_rx_us := now, stale_logged := False, got := 0\<rparr>))"

text \<open>An iteration of the loop: connect first, if need be.\<close>

definition reader_iteration :: "int \<Rightarrow> socket_event \<Rightarrow> int \<Rightarrow> scud_client \<Rightarrow> scud_client" where
  "reader_iteration s ev now c =
     (let (ok, c) = try_connect s c in if ok then reader_step ev now c else c)"

text \<open>The getters.\<close>

definition scud_view :: "int \<Rightarrow> scud_client \<Rightarrow> bms_view" where
  "scud_view now c =
     \<lparr>get_voltage = double_member 0 (cached c), get_current = double_member 8 (cached c),
      get_temperature = double_member 16 (cached c), get_percentage = double_member 24 (cached c),
      get_charge = double_member 32 (cached c), get_capacity = double_member 40 (cached c),
      get_design_capacity = double_member 48 (cached c),
      get_protect_status = word_of_nat (member 56 4 (cached c)),
      get_work_state = word_of_nat (member 60 2 (cached c)),
      get_max_cell_voltage = double_member 62 (cached c),
      get_min_cell_voltage = double_member 70 (cached c),
      get_soh = word_of_nat (member 115 2 (cached c)),
      get_cycles = word_of_nat (member 117 4 (cached c)),
      get_io_state = word_of_nat (member 121 4 (cached c)),
      is_power_on = (is_data_current c now \<and> (word_of_nat (member 125 1 (cached c)) :: u8) \<noteq> 0),
      is_connected = (connected c \<and> is_data_current c now),
      get_data_age_ms = data_age_ms c now\<rparr>"

section \<open>The age of the data\<close>

lemma data_age_nonneg_iff: "0 \<le> data_age_ms c now \<longleftrightarrow> 0 \<le> last_rx_us c \<and> 0 \<le> now"
proof -
  have "0 \<le> ddiv (rnd 53 x) 1000" if "0 \<le> x" for x
    using that by (simp add: ddiv_def rnd_nonneg)
  then show ?thesis by (auto simp: data_age_ms_def not_less)
qed

lemma age_threshold:
  assumes "0 \<le> n"
  shows "ddiv (rnd 53 (of_int n)) 1000 \<le> 3000 \<longleftrightarrow> n \<le> 3000000"
proof (cases "n < 2 ^ 53")
  case True
  then have "rnd 53 (of_int n) = of_int n" using assms by (intro rnd_of_int) simp
  then show ?thesis using ddiv_le_iff [of 1000 n 3000] assms by simp
next
  case False
  let ?r = "rnd 53 (of_int n)"
  have "(2 ^ 53 :: rat) \<le> of_int n"
    using False by (metis not_less of_int_le_iff of_int_numeral of_int_power)
  moreover have "of_int n - of_int n / 2 ^ 53 \<le> ?r" using assms by (intro rnd_bounds) simp
  ultimately have "2 ^ 52 \<le> ?r" by simp
  then have "2 ^ 52 / 1000 \<le> ?r / 1000" "0 \<le> ?r / 1000" by simp_all
  moreover have "?r / 1000 - ?r / 1000 / 2 ^ 53 \<le> ddiv ?r 1000"
    unfolding ddiv_def using calculation(2) by (intro rnd_bounds) simp
  ultimately have "3000 < ddiv ?r 1000" by simp
  with False show ?thesis by simp
qed

lemma is_data_current_iff:
  "is_data_current c now \<longleftrightarrow> 0 \<le> last_rx_us c \<and> 0 \<le> now \<and> now - last_rx_us c \<le> 3000000"
proof (cases "0 \<le> last_rx_us c \<and> 0 \<le> now")
  case True
  show ?thesis
  proof (cases "now < last_rx_us c")
    case True
    with \<open>0 \<le> last_rx_us c \<and> 0 \<le> now\<close> show ?thesis
      by (simp add: is_data_current_def data_age_ms_def)
  next
    case False
    with True have "0 \<le> now - last_rx_us c" by simp
    from age_threshold [OF this] True False data_age_nonneg_iff [of c now] show ?thesis
      by (simp add: is_data_current_def data_age_ms_def)
  qed
next
  case False
  with data_age_nonneg_iff [of c now] show ?thesis by (auto simp: is_data_current_def)
qed

lemma destroyed_client_unconnected: "\<not> is_connected (scud_view now (destroy_client c))"
  by (simp add: scud_view_def destroy_client_def disconnect_def)

section \<open>The thread, the daemon and the clock\<close>

text \<open>\<open>queue\<close> holds the bytes of the session the driver has not read, \<open>session\<close> all bytes the
  daemon has written to it.\<close>

record scud_system =
  drv :: scud_client
  queue :: bytes
  session :: bytes
  clock_us :: int

definition start_system :: "int \<Rightarrow> scud_system" where
  "start_system t = \<lparr>drv = new_client, queue = [], session = [], clock_us = t\<rparr>"

text \<open>The state after a step of the driver: when it has closed the socket, the session is over.\<close>

definition driver_did :: "scud_client \<Rightarrow> scud_system \<Rightarrow> scud_system" where
  "driver_did c s =
     (if 0 \<le> sock_fd c then s\<lparr>drv := c\<rparr> else s\<lparr>drv := c, queue := [], session := []\<rparr>)"

inductive scud_steps :: "scud_system \<Rightarrow> scud_system \<Rightarrow> bool" where
  time_passes: "clock_us s \<le> t \<Longrightarrow> scud_steps s (s\<lparr>clock_us := t\<rparr>)"
| daemon_writes: "0 \<le> sock_fd (drv s) \<Longrightarrow>
    scud_steps s (s\<lparr>queue := queue s @ bs, session := session s @ bs\<rparr>)"
| connects: "sock_fd (drv s) < 0 \<Longrightarrow> try_connect fd (drv s) = (ok, c) \<Longrightarrow>
    scud_steps s (driver_did c s)"
| reads: "0 \<le> sock_fd (drv s) \<Longrightarrow> queue s = (b # bs) @ rest \<Longrightarrow>
    length (b # bs) \<le> sizeof_status - got (drv s) \<Longrightarrow> now \<in> {clock_us s, -1} \<Longrightarrow>
    scud_steps s (driver_did (reader_step (ReadData b bs) now (drv s)) (s\<lparr>queue := rest\<rparr>))"
| idles: "0 \<le> sock_fd (drv s) \<Longrightarrow> ev \<in> {PollIntr, ReadIntr} \<Longrightarrow>
    scud_steps s (driver_did (reader_step ev now (drv s)) s)"
| waits: "0 \<le> sock_fd (drv s) \<Longrightarrow> queue s = [] \<Longrightarrow> now \<in> {clock_us s, -1} \<Longrightarrow>
    scud_steps s (driver_did (reader_step PollTimeout now (drv s)) s)"
| loses: "0 \<le> sock_fd (drv s) \<Longrightarrow> ev \<in> {PollFails, PollHup, ReadFails, ReadEnd} \<Longrightarrow>
    scud_steps s (driver_did (reader_step ev now (drv s)) s)"

inductive reachable :: "scud_system \<Rightarrow> bool" where
  starts: "0 \<le> t \<Longrightarrow> reachable (start_system t)"
| continues: "reachable s \<Longrightarrow> scud_steps s s' \<Longrightarrow> reachable s'"

inductive_cases scud_stepsE: "scud_steps s s'"

section \<open>The invariant\<close>

text \<open>An open session is a whole number of records, the started record and the unread bytes; the
  cache holds the last of these records if the time stamp is set.\<close>

definition session_inv :: "scud_client \<Rightarrow> bytes \<Rightarrow> bytes \<Rightarrow> bool" where
  "session_inv c q str \<longleftrightarrow>
     (\<exists>done. str = done @ take (got c) (wire c) @ q \<and> length done mod sizeof_status = 0 \<and>
        (0 \<le> last_rx_us c \<longrightarrow> sizeof_status \<le> length done \<and>
          cached c = drop (length done - sizeof_status) done))"

definition client_inv :: "scud_system \<Rightarrow> bool" where
  "client_inv s \<longleftrightarrow>
     (let c = drv s in
       length (wire c) = sizeof_status \<and> got c < sizeof_status \<and> last_rx_us c \<le> clock_us s \<and>
       0 \<le> clock_us s \<and>
       (if 0 \<le> sock_fd c then connected c \<and> session_inv c (queue s) (session s)
        else \<not> connected c \<and> got c = 0 \<and> last_rx_us c = -1 \<and> queue s = [] \<and> session s = []))"

lemma client_inv_start: "0 \<le> t \<Longrightarrow> client_inv (start_system t)"
  by (simp add: client_inv_def start_system_def new_client_def)

lemma client_inv_lost:
  "client_inv s \<Longrightarrow> client_inv (driver_did ((disconnect (drv s))\<lparr>got := 0\<rparr>) s)"
  by (auto simp: client_inv_def driver_did_def disconnect_def Let_def split: if_splits)

lemma read_wire:
  assumes "length w = N" "g + length data \<le> N"
  shows "take (g + length data) (take g w @ data @ drop (g + length data) w) = take g w @ data"
    "length (take g w @ data @ drop (g + length data) w) = N"
  using assms by (cases data; auto simp: min_def)+

lemma client_inv_read:
  assumes inv: "client_inv s" and fd: "0 \<le> sock_fd (drv s)" and q: "queue s = (b # bs) @ rest"
    and fits: "length (b # bs) \<le> sizeof_status - got (drv s)" and now: "now \<in> {clock_us s, -1}"
  shows "client_inv (driver_did (reader_step (ReadData b bs) now (drv s)) (s\<lparr>queue := rest\<rparr>))"
proof -
  let ?c = "drv s" and ?d = "b # bs"
  let ?w = "take (got ?c) (wire ?c) @ ?d @ drop (got ?c + length ?d) (wire ?c)"
  from inv fd have c: "length (wire ?c) = sizeof_status" "got ?c < sizeof_status" "connected ?c"
    "last_rx_us ?c \<le> clock_us s" "0 \<le> clock_us s" "session_inv ?c (queue s) (session s)"
    by (auto simp: client_inv_def Let_def)
  then obtain "done" where str: "session s = done @ take (got ?c) (wire ?c) @ queue s"
    "length done mod sizeof_status = 0" "0 \<le> last_rx_us ?c \<longrightarrow> sizeof_status \<le> length done \<and>
      cached ?c = drop (length done - sizeof_status) done" by (auto simp: session_inv_def)
  have len: "got ?c + length ?d \<le> sizeof_status" using fits c(2) by linarith
  note w = read_wire [OF c(1) len]
  have data: "take (sizeof_status - got ?c) ?d = ?d" using fits by simp
  show ?thesis
  proof (cases "got ?c + length ?d < sizeof_status")
    case True
    have "session s = done @ take (got ?c + length ?d) ?w @ rest"
      unfolding w(1) using str(1) q by simp
    then have "session_inv (?c\<lparr>wire := ?w, got := got ?c + length ?d\<rparr>) rest (session s)"
      using str(2,3) unfolding session_inv_def by (intro exI [of _ "done"]) simp
    moreover have "reader_step (ReadData b bs) now ?c = ?c\<lparr>wire := ?w, got := got ?c + length ?d\<rparr>"
      unfolding reader_step_def using True data by (simp add: Let_def)
    ultimately show ?thesis
      using c fd True w(2) by (simp add: client_inv_def driver_did_def)
  next
    case False
    with len have full: "got ?c + length ?d = sizeof_status" by simp
    then have cw: "?w = take (got ?c) (wire ?c) @ ?d" using w by (metis take_all_iff order_refl)
    have "session_inv (?c\<lparr>wire := ?w, got := 0, cached := ?w, last_rx_us := now, stale_logged := False\<rparr>)
        rest (session s)"
      unfolding session_inv_def
    proof (intro exI conjI)
      show "session s = (done @ ?w) @ take (got (?c\<lparr>wire := ?w, got := 0, cached := ?w,
          last_rx_us := now, stale_logged := False\<rparr>)) (wire (?c\<lparr>wire := ?w, got := 0, cached := ?w,
          last_rx_us := now, stale_logged := False\<rparr>)) @ rest"
        unfolding cw using str(1) q by simp
      show "length (done @ ?w) mod sizeof_status = 0" using str(2) w(2) by simp
    qed (use w(2) in simp)
    moreover have "reader_step (ReadData b bs) now ?c =
        ?c\<lparr>wire := ?w, got := 0, cached := ?w, last_rx_us := now, stale_logged := False\<rparr>"
      unfolding reader_step_def using full data by (simp add: Let_def)
    ultimately show ?thesis
      using c fd now w(2) by (auto simp: client_inv_def driver_did_def)
  qed
qed

lemma client_inv_step: "scud_steps s s' \<Longrightarrow> client_inv s \<Longrightarrow> client_inv s'"
proof (induction rule: scud_steps.induct)
  case (daemon_writes s bs)
  then show ?case
    by (auto simp: client_inv_def Let_def session_inv_def)
next
  case (connects s fd ok c)
  then show ?case
    by (auto simp: client_inv_def Let_def try_connect_def driver_did_def session_inv_def
        intro!: exI [of _ "[]"] split: if_splits)
next
  case (reads s b bs rest now)
  then show ?case by (intro client_inv_read)
next
  case (idles s ev now)
  then show ?case by (auto simp: reader_step_def driver_did_def)
next
  case (waits s now)
  have "client_inv (driver_did (drv s) s)" "client_inv (driver_did ((drv s)\<lparr>stale_logged := True\<rparr>) s)"
    using waits by (auto simp: driver_did_def client_inv_def Let_def session_inv_def)
  with waits show ?case
    by (auto simp: reader_step_def Let_def intro: client_inv_lost)
next
  case (loses s ev now)
  then show ?case by (auto simp: reader_step_def intro: client_inv_lost)
qed (auto simp: client_inv_def Let_def)

lemma reachable_inv: "reachable s \<Longrightarrow> client_inv s"
  by (induction rule: reachable.induct) (auto intro: client_inv_start client_inv_step)

section \<open>What the getters vouch for\<close>

text \<open>\<open>is_connected\<close> and \<open>is_power_on\<close> use exactly the documented threshold in spite of the
  rounding of the age to a double: they can be true only while the last record is at most three
  million microseconds old, and data without a time stamp or without a clock is never current.\<close>

theorem scud_connected_iff_fresh:
  "(is_connected (scud_view now c) \<longleftrightarrow> connected c \<and> 0 \<le> last_rx_us c \<and> 0 \<le> now \<and>
      now \<le> last_rx_us c + 3000000) \<and>
   (is_power_on (scud_view now c) \<longleftrightarrow> (word_of_nat (member 125 1 (cached c)) :: u8) \<noteq> 0 \<and>
      0 \<le> last_rx_us c \<and> 0 \<le> now \<and> now \<le> last_rx_us c + 3000000)"
  by (auto simp: scud_view_def is_data_current_iff)

text \<open>The complete records of a stream.\<close>

definition complete_records :: "bytes \<Rightarrow> bytes list" where
  "complete_records bs =
     map (\<lambda>i. take sizeof_status (drop (i * sizeof_status) bs)) [0..<length bs div sizeof_status]"

lemma complete_record_nth:
  assumes "i * sizeof_status + sizeof_status \<le> length bs"
  shows "take sizeof_status (drop (i * sizeof_status) bs) \<in> set (complete_records bs)"
proof -
  have "(i + 1) * sizeof_status div sizeof_status \<le> length bs div sizeof_status"
    using assms by (intro div_le_mono) simp
  then have "i < length bs div sizeof_status" by simp
  then show ?thesis unfolding complete_records_def by simp
qed

lemma cached_record:
  assumes "session_inv c q str" "0 \<le> last_rx_us c"
  shows "cached c \<in> set (complete_records str)"
proof -
  from assms obtain "done" where d: "str = done @ take (got c) (wire c) @ q"
    "length done mod sizeof_status = 0" "sizeof_status \<le> length done"
    "cached c = drop (length done - sizeof_status) done" by (auto simp: session_inv_def)
  define i where "i = length done div sizeof_status - 1"
  have "length done = length done div sizeof_status * sizeof_status"
    using d(2) by (metis add.right_neutral div_mult_mod_eq)
  moreover have "1 \<le> length done div sizeof_status" using div_le_mono [OF d(3), of sizeof_status] by simp
  ultimately have i: "i * sizeof_status + sizeof_status = length done"
    unfolding i_def by (metis add_mult_distrib le_add_diff_inverse2 mult_1)
  then have "cached c = take sizeof_status (drop (i * sizeof_status) str)"
    unfolding d(4) by (simp add: d(1) flip: i)
  moreover have "i * sizeof_status + sizeof_status \<le> length str" unfolding i d(1) by simp
  ultimately show ?thesis using complete_record_nth by simp
qed

lemma connected_cached:
  assumes "reachable s" "is_connected (scud_view (clock_us s) (drv s))"
  shows "connected (drv s)" "is_data_current (drv s) (clock_us s)"
    "cached (drv s) \<in> set (complete_records (session s))"
proof -
  from assms(2) have c: "connected (drv s)" "is_data_current (drv s) (clock_us s)"
    "0 \<le> last_rx_us (drv s)"
    by (auto simp: scud_view_def is_data_current_iff)
  with reachable_inv [OF assms(1)] show "connected (drv s)" "is_data_current (drv s) (clock_us s)"
    "cached (drv s) \<in> set (complete_records (session s))"
    by (auto simp: client_inv_def Let_def cached_record split: if_splits)
qed

text \<open>C24. In every reachable state of the driver, the daemon and the clock: while \<open>is_connected\<close>
  holds, the socket is open, the getters show a complete record that the daemon wrote to this very
  session, aligned at a record boundary of its stream however the reads split it, and that record
  was completed at most three seconds ago. No age survives a reconnection.\<close>

theorem scud_connected_shows_session_record:
  assumes "reachable s" "is_connected (scud_view (clock_us s) (drv s))"
  shows "0 \<le> sock_fd (drv s) \<and> cached (drv s) \<in> set (complete_records (session s)) \<and>
    last_rx_us (drv s) \<le> clock_us s \<and> clock_us s - last_rx_us (drv s) \<le> 3000000"
proof -
  from assms(2) have c: "connected (drv s)" "0 \<le> last_rx_us (drv s)"
    "clock_us s - last_rx_us (drv s) \<le> 3000000"
    by (auto simp: scud_view_def is_data_current_iff)
  with reachable_inv [OF assms(1)] show ?thesis
    by (auto simp: client_inv_def Let_def cached_record split: if_splits)
qed

section \<open>Records of a well-behaved daemon\<close>

lemma drop_equal_blocks:
  assumes "\<forall>x \<in> set xs. length (f x) = n" "i \<le> length xs"
  shows "drop (i * n) (concat (map f xs)) = concat (map f (drop i xs))"
  using assms
proof (induction i arbitrary: xs)
  case (Suc i)
  then show ?case by (cases xs) (simp_all add: add.commute)
qed simp

lemma length_equal_blocks:
  "\<forall>x \<in> set xs. length (f x) = n \<Longrightarrow> length (concat (map f xs)) = length xs * n"
  by (induction xs) simp_all

lemma complete_records_of_stream:
  assumes blocks: "\<forall>x \<in> set sts. length (f x) = sizeof_status" and pre: "prefix str (concat (map f sts))"
  shows "set (complete_records str) \<subseteq> f ` set sts"
proof
  fix r assume "r \<in> set (complete_records str)"
  then obtain i where i: "i < length str div sizeof_status"
    and r: "r = take sizeof_status (drop (i * sizeof_status) str)"
    by (auto simp: complete_records_def)
  obtain post where post: "concat (map f sts) = str @ post" using pre by (auto simp: prefix_def)
  have fits: "(i + 1) * sizeof_status \<le> length str"
    using i by (metis Suc_eq_plus1 Suc_leI div_times_less_eq_dividend le_trans mult_le_mono1)
  have "length str \<le> length sts * sizeof_status"
    using length_equal_blocks [OF blocks] post by (metis le_add1 length_append)
  with fits have il: "i < length sts" by (simp del: sizeof_status_126) (metis add.commute le_trans mult.commute mult_le_cancel2 not_less_eq_eq sizeof_status_126 Suc_le_eq mult_Suc zero_less_numeral)
  have "r = take sizeof_status (drop (i * sizeof_status) (concat (map f sts)))"
    unfolding r post using fits by simp
  also have "\<dots> = take sizeof_status (concat (map f (drop i sts)))"
    using drop_equal_blocks [OF blocks] il by simp
  also have "drop i sts = sts ! i # drop (Suc i) sts" using il by (simp add: Cons_nth_drop_Suc)
  also have "take sizeof_status (concat (map f (sts ! i # drop (Suc i) sts))) = f (sts ! i)"
    using blocks il by simp
  finally show "r \<in> f ` set sts" using il by simp
qed

lemma scud_view_encoded:
  assumes "record_ok st" "cached c = encode_status st"
  shows "scud_view now c = view_of_status st (is_data_current c now \<and> power_on st \<noteq> 0)
    (connected c \<and> is_data_current c now) (data_age_ms c now)"
proof -
  have "length (serial_number st) = 33" using assms(1) by (simp add: record_ok_def)
  then show ?thesis
    by (simp add: scud_view_def view_of_status_def assms(2) encode_double_members [OF assms(1)]
        encode_word_members encode_word_members(6) [unfolded One_nat_def])
qed

lemma connected_view:
  assumes "reachable s" "is_connected (scud_view (clock_us s) (drv s))"
    and ok: "list_all record_ok sts" and pre: "prefix (session s) (concat (map encode_status sts))"
  obtains st where "st \<in> set sts" "scud_view (clock_us s) (drv s) =
    view_of_status st (power_on st \<noteq> 0) True (data_age_ms (drv s) (clock_us s))"
proof -
  note c = connected_cached [OF assms(1,2)]
  have "\<forall>x \<in> set sts. length (encode_status x) = sizeof_status"
    using ok by (auto simp: list_all_iff record_ok_def)
  with c(3) obtain st where st: "st \<in> set sts" "cached (drv s) = encode_status st"
    using complete_records_of_stream [OF _ pre] by blast
  then have "record_ok st" using ok by (simp add: list_all_iff)
  from scud_view_encoded [OF this st(2), of "clock_us s"] c st(1) show thesis
    by (intro that [of st]) auto
qed

text \<open>When the daemon writes whole records to the session, perhaps the last only in part, the
  getters of a connected driver all show one and the same of these records: every value is that
  record's, bit for bit, the doubles included.\<close>

theorem scud_view_is_one_record:
  assumes "reachable s" "list_all record_ok sts"
    and "prefix (session s) (concat (map encode_status sts))"
    and "is_connected (scud_view (clock_us s) (drv s))"
  shows "\<exists>st \<in> set sts. scud_view (clock_us s) (drv s) =
    view_of_status st (power_on st \<noteq> 0) True (data_age_ms (drv s) (clock_us s))"
  by (rule connected_view [OF assms(1,4,2,3)]) blast

section \<open>A record becomes visible\<close>

text \<open>A run of reads that succeed, each with the time the reader notes should it complete a record.\<close>

definition read_chunks :: "(int \<times> bytes) list \<Rightarrow> scud_client \<Rightarrow> scud_client" where
  "read_chunks chunks c = fold (\<lambda>(now, bs). reader_step (ReadData (hd bs) (tl bs)) now) chunks c"

lemma read_chunk_partial:
  assumes "length (wire c) = sizeof_status" "bs \<noteq> []" "got c + length bs < sizeof_status"
  shows "reader_step (ReadData (hd bs) (tl bs)) now c =
    c\<lparr>wire := take (got c) (wire c) @ bs @ drop (got c + length bs) (wire c), got := got c + length bs\<rparr>"
  using assms by (simp add: reader_step_def Let_def)

lemma read_chunk_last:
  assumes "length (wire c) = sizeof_status" "bs \<noteq> []" "got c + length bs = sizeof_status"
  shows "reader_step (ReadData (hd bs) (tl bs)) now c =
    c\<lparr>wire := take (got c) (wire c) @ bs, got := 0, cached := take (got c) (wire c) @ bs,
      last_rx_us := now, stale_logged := False\<rparr>"
proof -
  have "take (sizeof_status - got c) bs = bs" "got c + length bs = 126" "drop 126 (wire c) = []"
    using assms by simp_all
  then show ?thesis using assms(2) by (simp add: reader_step_def Let_def)
qed

lemma read_chunks_partial:
  assumes "length (wire c) = sizeof_status" "\<forall>x \<in> set chunks. snd x \<noteq> []"
    and "got c + length (concat (map snd chunks)) < sizeof_status"
  shows "\<exists>w. read_chunks chunks c = c\<lparr>wire := w, got := got c + length (concat (map snd chunks))\<rparr> \<and>
    length w = sizeof_status \<and>
    take (got c + length (concat (map snd chunks))) w = take (got c) (wire c) @ concat (map snd chunks)"
  using assms
proof (induction chunks arbitrary: c)
  case Nil
  then show ?case by (intro exI [of _ "wire c"]) (simp add: read_chunks_def)
next
  case (Cons x chunks)
  obtain now bs where x: "x = (now, bs)" by (cases x)
  let ?w = "take (got c) (wire c) @ bs @ drop (got c + length bs) (wire c)"
  let ?c = "c\<lparr>wire := ?w, got := got c + length bs\<rparr>"
  have bs: "bs \<noteq> []" "got c + length bs < sizeof_status" using Cons.prems x by simp_all
  note w = read_wire [OF Cons.prems(1) less_imp_le [OF bs(2)]]
  have "length (wire ?c) = sizeof_status" using w(2) by simp
  moreover have "\<forall>x \<in> set chunks. snd x \<noteq> []" "got ?c + length (concat (map snd chunks)) < sizeof_status"
    using Cons.prems x by simp_all
  ultimately obtain v where v: "read_chunks chunks ?c = ?c\<lparr>wire := v,
      got := got ?c + length (concat (map snd chunks))\<rparr>" "length v = sizeof_status"
    "take (got ?c + length (concat (map snd chunks))) v = take (got ?c) (wire ?c) @ concat (map snd chunks)"
    using Cons.IH by blast
  have "read_chunks (x # chunks) c = read_chunks chunks ?c"
    by (simp add: read_chunks_def x read_chunk_partial [OF Cons.prems(1) bs])
  with v w(1) show ?case by (intro exI [of _ v]) (simp add: x add.assoc)
qed

lemma read_chunks_record:
  assumes "length (wire c) = sizeof_status" "got c = 0" "\<forall>x \<in> set chunks. snd x \<noteq> []"
    and "concat (map snd chunks) = r" "length r = sizeof_status"
  shows "\<exists>w. read_chunks chunks c = c\<lparr>wire := w, got := 0, cached := r,
    last_rx_us := fst (last chunks), stale_logged := False\<rparr>"
proof -
  have "chunks \<noteq> []" using assms(4,5) by auto
  then obtain front now bs where ch: "chunks = front @ [(now, bs)]"
    by (metis append_butlast_last_id surj_pair)
  with assms have bs: "bs \<noteq> []" and len: "length (concat (map snd front)) + length bs = sizeof_status"
    by auto
  then have "got c + length (concat (map snd front)) < sizeof_status" using assms(2) by (cases bs) auto
  moreover have "\<forall>x \<in> set front. snd x \<noteq> []" using assms(3) ch by simp
  ultimately obtain w where w: "read_chunks front c = c\<lparr>wire := w, got := length (concat (map snd front))\<rparr>"
    "length w = sizeof_status" "take (length (concat (map snd front))) w = concat (map snd front)"
    using read_chunks_partial [OF assms(1), of front] assms(2) by auto
  let ?c = "c\<lparr>wire := w, got := length (concat (map snd front))\<rparr>"
  have "read_chunks chunks c = reader_step (ReadData (hd bs) (tl bs)) now ?c"
    using w(1) by (simp add: read_chunks_def ch)
  also have "\<dots> = ?c\<lparr>wire := r, got := 0, cached := r, last_rx_us := now, stale_logged := False\<rparr>"
    using read_chunk_last [of ?c bs now] w(2,3) bs len assms(4) ch by simp
  finally show ?thesis by (intro exI [of _ r]) (simp add: ch)
qed

lemma record_becomes_visible:
  assumes "reachable s" "0 \<le> sock_fd (drv s)" "got (drv s) = 0" "record_ok st"
    and "\<forall>x \<in> set chunks. snd x \<noteq> []" "concat (map snd chunks) = encode_status st"
    and "0 \<le> fst (last chunks)" "fst (last chunks) \<le> t" "t \<le> fst (last chunks) + 3000000"
  shows "scud_view t (read_chunks chunks (drv s)) = view_of_status st (power_on st \<noteq> 0) True
    (data_age_ms (read_chunks chunks (drv s)) t)"
proof -
  have c: "length (wire (drv s)) = sizeof_status" "connected (drv s)"
    using reachable_inv [OF assms(1)] assms(2) by (auto simp: client_inv_def Let_def)
  have "length (encode_status st) = sizeof_status" using assms(4) by (simp add: record_ok_def)
  from read_chunks_record [OF c(1) assms(3,5,6) this] obtain w where
    r: "read_chunks chunks (drv s) = (drv s)\<lparr>wire := w, got := 0, cached := encode_status st,
      last_rx_us := fst (last chunks), stale_logged := False\<rparr>" by blast
  then have "is_data_current (read_chunks chunks (drv s)) t"
    using assms(7-9) by (simp add: is_data_current_iff)
  moreover have "cached (read_chunks chunks (drv s)) = encode_status st"
    "connected (read_chunks chunks (drv s))" using r c(2) by simp_all
  ultimately show ?thesis using scud_view_encoded [OF assms(4)] by simp
qed

section \<open>A concrete run\<close>

text \<open>A driver connects at 7 microseconds and receives one record at once.\<close>

definition connected_client :: scud_client where
  "connected_client = new_client\<lparr>sock_fd := 5, connected := True\<rparr>"

definition served_client :: "bytes \<Rightarrow> scud_client" where
  "served_client bs = connected_client\<lparr>cached := bs, wire := bs, last_rx_us := 7\<rparr>"

definition served_system :: "bytes \<Rightarrow> scud_system" where
  "served_system bs = \<lparr>drv = served_client bs, queue = [], session = bs, clock_us = 7\<rparr>"

definition connected_system :: scud_system where
  "connected_system = \<lparr>drv = connected_client, queue = [], session = [], clock_us = 7\<rparr>"

lemma connected_reachable: "reachable connected_system"
proof -
  have "scud_steps (start_system 7) (driver_did connected_client (start_system 7))"
    by (rule connects [of _ 5 True])
      (simp_all add: start_system_def new_client_def try_connect_def connected_client_def)
  then show ?thesis
    using starts [of 7] continues [of "start_system 7" connected_system]
    by (simp add: start_system_def driver_did_def connected_client_def new_client_def connected_system_def)
qed

lemma served_reachable:
  assumes "length bs = 126"
  shows "reachable (served_system bs)"
proof -
  let ?s1 = "\<lparr>drv = connected_client, queue = [], session = [], clock_us = 7\<rparr>"
  let ?s2 = "?s1\<lparr>queue := bs, session := bs\<rparr>"
  obtain b rest where bs: "bs = b # rest" "length rest = 125" using assms by (cases bs) auto
  have "reachable ?s1" using connected_reachable by (simp add: connected_system_def)
  moreover have "scud_steps ?s1 ?s2"
    using daemon_writes [of ?s1 bs] by (simp add: connected_client_def new_client_def)
  ultimately have "reachable ?s2" by (rule continues)
  moreover have "scud_steps ?s2 (served_system bs)"
  proof -
    have "scud_steps ?s2 (driver_did (reader_step (ReadData b rest) 7 (drv ?s2)) (?s2\<lparr>queue := []\<rparr>))"
      by (rule reads) (simp_all add: connected_client_def new_client_def bs)
    then show ?thesis
      using bs by (simp add: reader_step_def connected_client_def new_client_def driver_did_def Let_def
          served_system_def served_client_def)
  qed
  ultimately show ?thesis by (rule continues)
qed

lemma served_connected:
  "is_connected (scud_view (clock_us (served_system bs)) (drv (served_system bs)))"
  by (simp add: scud_view_def is_data_current_iff served_system_def served_client_def
      connected_client_def)

theorem scud_connected_shows_session_record_witness:
  "let s = served_system (replicate 126 0)
   in 0 \<le> sock_fd (drv s) \<and> cached (drv s) \<in> set (complete_records (session s)) \<and>
      last_rx_us (drv s) \<le> clock_us s \<and> clock_us s - last_rx_us (drv s) \<le> 3000000"
  unfolding Let_def
  by (rule scud_connected_shows_session_record [OF served_reachable served_connected]) simp

theorem scud_view_is_one_record_witness:
  "let s = served_system (encode_status zero_status)
   in \<exists>st \<in> set [zero_status]. scud_view (clock_us s) (drv s) =
        view_of_status st (power_on st \<noteq> 0) True (data_age_ms (drv s) (clock_us s))"
  unfolding Let_def
  by (rule scud_view_is_one_record [OF served_reachable _ _ served_connected])
    (simp_all add: zero_record_ok served_system_def encode_zero_status)

end
