(* ===== verification/Can_Socket.thy ===== *)
theory Can_Socket
  imports Bms_Prelude
begin

text \<open>
  \<open>SocketCAN\<close> of \<open>src/protocol/can\<close>: the objects behind the shared pointers of \<open>instances_\<close>, the
  opening of the socket with its exceptions, the callbacks by identifier and the receiver loop that
  hands frames to them. A shared pointer is a reference into a store of sockets, so whoever holds it
  sees what others do to the socket. A callback is a function on the state of all owners.
\<close>

unbundle bit_operations_syntax

text \<open>\<open>struct can_frame\<close>; the payload array always has eight bytes, of which \<open>can_dlc\<close> are
  meant.\<close>

record can_frame =
  can_id :: u32
  can_dlc :: u8
  can_data :: bytes

abbreviation "CAN_EFF_FLAG \<equiv> (0x80000000 :: u32)"
abbreviation "CAN_EFF_MASK \<equiv> (0x1FFFFFFF :: u32)"
abbreviation "CAN_SFF_MASK \<equiv> (0x000007FF :: u32)"

type_synonym 's can_callback = "can_frame \<Rightarrow> 's \<Rightarrow> 's"

record 's can_socket =
  iface :: string
  sockfd :: int
  receiving :: bool
  callbacks :: "u32 \<Rightarrow> 's can_callback option"
  id_extractor :: "can_frame \<Rightarrow> u32"

section \<open>Opening\<close>

datatype can_open_event =
  CanSocketFails | CanIoctlFails nat | CanBindFails nat | CanFcntlFails nat | CanOpens nat

datatype can_error = CreateFailed | InterfaceNotFound string | BindError string | NonBlockingError

definition default_extractor :: "can_frame \<Rightarrow> u32" where
  "default_extractor f =
     (if can_id f AND CAN_EFF_FLAG \<noteq> 0 then can_id f AND CAN_EFF_MASK
      else can_id f AND CAN_SFF_MASK)"

definition can_open :: "string \<Rightarrow> can_open_event \<Rightarrow> can_error + 's can_socket" where
  "can_open name ev =
     (case ev of
        CanSocketFails \<Rightarrow> Inl CreateFailed
      | CanIoctlFails d \<Rightarrow> Inl (InterfaceNotFound name)
      | CanBindFails d \<Rightarrow> Inl (BindError name)
      | CanFcntlFails d \<Rightarrow> Inl NonBlockingError
      | CanOpens d \<Rightarrow>
          Inr \<lparr>iface = name, sockfd = int d, receiving = True, callbacks = Map.empty,
            id_extractor = default_extractor\<rparr>)"

definition can_close :: "'s can_socket \<Rightarrow> 's can_socket" where
  "can_close c = c\<lparr>receiving := False, sockfd := (if 0 \<le> sockfd c then -1 else sockfd c)\<rparr>"

section \<open>Callbacks\<close>

definition add_callback :: "u32 \<Rightarrow> 's can_callback \<Rightarrow> 's can_socket \<Rightarrow> 's can_socket" where
  "add_callback i cb c = c\<lparr>callbacks := (callbacks c)(i \<mapsto> cb)\<rparr>"

definition remove_callback :: "u32 \<Rightarrow> 's can_socket \<Rightarrow> 's can_socket" where
  "remove_callback i c = c\<lparr>callbacks := (callbacks c)(i := None)\<rparr>"

definition clear_callbacks :: "'s can_socket \<Rightarrow> 's can_socket" where
  "clear_callbacks c = c\<lparr>callbacks := Map.empty\<rparr>"

definition set_id_extractor :: "(can_frame \<Rightarrow> u32) \<Rightarrow> 's can_socket \<Rightarrow> 's can_socket" where
  "set_id_extractor f c = c\<lparr>id_extractor := f\<rparr>"

section \<open>The receiver\<close>

definition dispatch :: "'s can_socket \<Rightarrow> can_frame \<Rightarrow> 's \<Rightarrow> 's" where
  "dispatch c f s = (case callbacks c (id_extractor c f) of Some cb \<Rightarrow> cb f s | None \<Rightarrow> s)"

text \<open>The result of \<open>select\<close>: an interrupt, a failure that ends the thread, a timeout, or the frames
  the inner loop reads until \<open>read\<close> returns at most 0.\<close>

datatype can_poll = SelectIntr | SelectFails | SelectTimeout | SelectReady "can_frame list"

text \<open>One turn of the loop on the pair of whether the thread still runs and the state of the owner,
  while \<open>receiving_\<close> is set.\<close>

fun receiver_turn :: "'s can_socket \<Rightarrow> can_poll \<Rightarrow> bool \<times> 's \<Rightarrow> bool \<times> 's" where
  "receiver_turn c p (False, s) = (False, s)"
| "receiver_turn c SelectIntr (True, s) = (True, s)"
| "receiver_turn c SelectFails (True, s) = (False, s)"
| "receiver_turn c SelectTimeout (True, s) = (True, s)"
| "receiver_turn c (SelectReady fs) (True, s) = (True, fold (dispatch c) fs s)"

definition receiver_loop :: "'s can_socket \<Rightarrow> can_poll list \<Rightarrow> bool \<times> 's \<Rightarrow> bool \<times> 's" where
  "receiver_loop c ps = fold (receiver_turn c) ps"

text \<open>The frames a run receives.\<close>

fun received :: "can_poll list \<Rightarrow> can_frame list" where
  "received [] = []"
| "received (SelectFails # ps) = []"
| "received (SelectReady fs # ps) = fs @ received ps"
| "received (_ # ps) = received ps"

lemma receiver_loop_dead: "receiver_loop c ps (False, s) = (False, s)"
  by (induction ps) (simp_all add: receiver_loop_def)

lemma receiver_loop_received:
  "receiver_loop c ps (True, s) = (SelectFails \<notin> set ps, fold (dispatch c) (received ps) s)"
proof (induction ps arbitrary: s)
  case (Cons p ps)
  then show ?case
    by (cases p) (simp_all add: receiver_loop_def receiver_loop_dead [unfolded receiver_loop_def])
qed (simp add: receiver_loop_def)

lemma receiver_loop_append: "receiver_loop c (ps @ qs) = receiver_loop c qs \<circ> receiver_loop c ps"
  by (simp add: receiver_loop_def)

lemma callbacks_simps [simp]:
  "callbacks (add_callback i cb c) = (callbacks c)(i \<mapsto> cb)"
  "id_extractor (add_callback i cb c) = id_extractor c"
  "callbacks (remove_callback i c) = (callbacks c)(i := None)"
  "id_extractor (remove_callback i c) = id_extractor c"
  "callbacks (set_id_extractor f c) = callbacks c"
  "id_extractor (set_id_extractor f c) = f"
  by (simp_all add: add_callback_def remove_callback_def set_id_extractor_def)

section \<open>The shared sockets\<close>

text \<open>The store: the \<open>SocketCAN\<close> objects by their references, the next reference, for each object
  whether its receiver thread still runs, \<open>instances_\<close>, and the state of those who registered
  callbacks.\<close>

record 's can_world =
  w_sockets :: "nat \<Rightarrow> 's can_socket"
  w_next :: nat
  w_running :: "nat \<Rightarrow> bool"
  w_instances :: "string \<Rightarrow> nat option"
  w_owners :: 's

text \<open>\<open>get_instance\<close> returns the pointer of \<open>instances_\<close>. A failing constructor throws before the
  assignment, so it adds no entry.\<close>

definition get_instance ::
    "string \<Rightarrow> can_open_event \<Rightarrow> 's can_world \<Rightarrow> can_error + (nat \<times> 's can_world)" where
  "get_instance name ev w =
     (case w_instances w name of
        Some r \<Rightarrow> Inr (r, w)
      | None \<Rightarrow>
          (case can_open name ev of
             Inl e \<Rightarrow> Inl e
           | Inr c \<Rightarrow>
               let r = w_next w
               in Inr (r, w\<lparr>w_sockets := (w_sockets w)(r := c), w_next := Suc r,
                    w_running := (w_running w)(r := True),
                    w_instances := (w_instances w)(name \<mapsto> r)\<rparr>)))"

text \<open>A call through the pointer \<open>r\<close>, and what the receiver thread of the object does.\<close>

definition call_socket ::
    "nat \<Rightarrow> ('s can_socket \<Rightarrow> 's can_socket) \<Rightarrow> 's can_world \<Rightarrow> 's can_world" where
  "call_socket r g w = w\<lparr>w_sockets := (w_sockets w)(r := g (w_sockets w r))\<rparr>"

definition can_receive :: "nat \<Rightarrow> can_poll list \<Rightarrow> 's can_world \<Rightarrow> 's can_world" where
  "can_receive r ps w =
     (case receiver_loop (w_sockets w r) ps (w_running w r, w_owners w) of (runs, s) \<Rightarrow>
        w\<lparr>w_running := (w_running w)(r := runs), w_owners := s\<rparr>)"

text \<open>A sequence of calls with the receiver thread active in between: \<open>arr j\<close> is what it does before
  call \<open>j\<close>.\<close>

fun call_all ::
    "nat \<Rightarrow> ('s can_socket \<Rightarrow> 's can_socket) list \<Rightarrow> (nat \<Rightarrow> can_poll list) \<Rightarrow>
     's can_world \<Rightarrow> 's can_world" where
  "call_all r [] arr w = w"
| "call_all r (g # gs) arr w = call_all r gs (\<lambda>j. arr (Suc j)) (call_socket r g (can_receive r (arr 0) w))"

lemma can_receive_fields:
  "w_sockets (can_receive r ps w) = w_sockets w" "w_next (can_receive r ps w) = w_next w"
  "w_instances (can_receive r ps w) = w_instances w"
  "w_running (can_receive r ps w) = (w_running w)(r := w_running w r \<and> SelectFails \<notin> set ps)"
  "w_owners (can_receive r ps w) =
     (if w_running w r then fold (dispatch (w_sockets w r)) (received ps) (w_owners w) else w_owners w)"
  by (cases "w_running w r"; simp add: can_receive_def receiver_loop_received receiver_loop_dead)+

lemma call_socket_fields:
  "w_sockets (call_socket r g w) = (w_sockets w)(r := g (w_sockets w r))"
  "w_next (call_socket r g w) = w_next w" "w_instances (call_socket r g w) = w_instances w"
  "w_running (call_socket r g w) = w_running w" "w_owners (call_socket r g w) = w_owners w"
  by (simp_all add: call_socket_def)

lemma can_receive_append: "can_receive r (ps @ qs) w = can_receive r qs (can_receive r ps w)"
  by (simp add: can_receive_def receiver_loop_append split: prod.split)

text \<open>What the calls leave of the store does not depend on the frames, except for the owners and the
  threads that have ended.\<close>

lemma call_all_fields:
  "w_sockets (call_all r gs arr w) = (w_sockets w)(r := fold (\<lambda>g. g) gs (w_sockets w r))"
  "w_next (call_all r gs arr w) = w_next w" "w_instances (call_all r gs arr w) = w_instances w"
  "w_running (call_all r gs arr w) =
    (w_running w)(r := w_running w r \<and> (\<forall>j < length gs. SelectFails \<notin> set (arr j)))"
  by (induction gs arbitrary: w arr)
    (auto simp: call_socket_fields can_receive_fields fun_upd_idem_iff All_less_Suc2)

text \<open>The frames of a sequence of calls that are handed on: those that arrive before call \<open>j\<close>, while
  the thread runs, and that the callbacks registered then let through, given by \<open>P j\<close>.\<close>

fun delivered :: "(nat \<Rightarrow> can_frame \<Rightarrow> bool) \<Rightarrow> (nat \<Rightarrow> can_poll list) \<Rightarrow> nat \<Rightarrow> can_frame list" where
  "delivered P arr 0 = []"
| "delivered P arr (Suc n) = filter (P 0) (received (arr 0)) @
     (if SelectFails \<in> set (arr 0) then []
      else delivered (\<lambda>j. P (Suc j)) (\<lambda>j. arr (Suc j)) n)"

lemma delivered_silence:
  "(\<And>j. j < n \<Longrightarrow> received (arr j) = []) \<Longrightarrow> delivered P arr n = []"
  by (induction n arbitrary: P arr) simp_all

lemma fold_filtered:
  "(\<And>f s. run f s = (if Q f then h f s else s)) \<Longrightarrow> fold run fs s = fold h (filter Q fs) s"
  by (induction fs arbitrary: s) simp_all

lemma call_all_owners:
  assumes "\<And>j f s. j < length gs \<Longrightarrow>
      dispatch (fold (\<lambda>g. g) (take j gs) (w_sockets w r)) f s = (if P j f then h f s else s)"
  shows "w_owners (call_all r gs arr w) =
    (if w_running w r then fold h (delivered P arr (length gs)) (w_owners w) else w_owners w)"
  using assms
proof (induction gs arbitrary: w arr P)
  case (Cons g gs)
  let ?w = "call_socket r g (can_receive r (arr 0) w)"
  have first: "fold (dispatch (w_sockets w r)) fs s = fold h (filter (P 0) fs) s" for fs s
    using Cons.prems [of 0] by (intro fold_filtered) simp
  have "w_owners (call_all r gs (\<lambda>j. arr (Suc j)) ?w) =
    (if w_running ?w r then fold h (delivered (\<lambda>j. P (Suc j)) (\<lambda>j. arr (Suc j)) (length gs)) (w_owners ?w)
     else w_owners ?w)"
    using Cons.prems [of "Suc j" for j]
    by (intro Cons.IH) (simp add: call_socket_fields can_receive_fields)
  then show ?case by (simp add: call_socket_fields can_receive_fields first)
qed simp

text \<open>What every callback keeps, the calls keep.\<close>

lemma fold_keeps: "(\<And>f s. I s \<Longrightarrow> I (run f s)) \<Longrightarrow> I s \<Longrightarrow> I (fold run fs s)"
  by (induction fs arbitrary: s) simp_all

lemma call_all_keeps:
  assumes "\<And>j f s. I s \<Longrightarrow> I (dispatch (fold (\<lambda>g. g) (take j gs) (w_sockets w r)) f s)"
    and "I (w_owners w)"
  shows "I (w_owners (call_all r gs arr w))"
  using assms
proof (induction gs arbitrary: w arr)
  case (Cons g gs)
  let ?w = "call_socket r g (can_receive r (arr 0) w)"
  have keeps: "I (dispatch (w_sockets w r) f s)" if "I s" for f s
    using Cons.prems(1) [OF that, of 0] by simp
  have "I (fold (dispatch (w_sockets w r)) fs (w_owners w))" for fs
    using keeps Cons.prems(2) by (rule fold_keeps [of I "dispatch (w_sockets w r)" "w_owners w" fs])
  with Cons.prems(2) have "I (w_owners ?w)"
    by (simp add: call_socket_fields can_receive_fields)
  moreover have "I (dispatch (fold (\<lambda>g. g) (take j gs) (w_sockets ?w r)) f s)" if "I s" for j f s
    using Cons.prems(1) [OF that, of "Suc j"] by (simp add: call_socket_fields can_receive_fields)
  ultimately show ?case using Cons.IH by simp
qed simp

section \<open>What a driver relies on\<close>

text \<open>
  The contract between a driver and the socket it shares with others of its kind: while it is
  attached its handler sees its own frames and no others, after somebody detached nobody sees any.
\<close>

locale frame_dispatch =
  fixes attach :: "'s can_callback \<Rightarrow> 'bus \<Rightarrow> 'bus"
    and detach :: "'bus \<Rightarrow> 'bus"
    and run :: "'bus \<Rightarrow> can_frame \<Rightarrow> 's \<Rightarrow> 's"
    and ours :: "'bus \<Rightarrow> bool"
    and mine :: "can_frame \<Rightarrow> bool"
  assumes attach_ours: "ours b \<Longrightarrow> ours (attach h b)"
    and detach_ours: "ours b \<Longrightarrow> ours (detach b)"
    and attached: "ours b \<Longrightarrow> run (attach h b) f s = (if mine f then h f s else s)"
    and detached: "ours b \<Longrightarrow> run (detach b) f s = s"
begin

lemma run_attached:
  assumes "ours b" "\<And>f s. \<not> mine f \<Longrightarrow> h f s = s"
  shows "run (attach h b) = h"
  using assms by (intro ext) (simp add: attached)

lemma run_detached: "ours b \<Longrightarrow> fold (run (detach b)) fs s = s"
  by (induction fs arbitrary: s) (simp_all add: detached)

text \<open>Who attaches last takes over, and who detaches takes the frames from the other too.\<close>

lemma taken_over:
  assumes "ours b" "\<And>f s. \<not> mine f \<Longrightarrow> h f s = s"
  shows "run (attach h (attach h' b)) = h"
    and "fold (run (detach (attach h (attach h' b)))) fs s = s"
proof -
  show "run (attach h (attach h' b)) = h"
    by (rule run_attached [OF attach_ours [OF assms(1)] assms(2)])
  show "fold (run (detach (attach h (attach h' b)))) fs s = s"
    by (rule run_detached [OF attach_ours [OF attach_ours [OF assms(1)]]])
qed

end

end
