(* ===== verification/Gfcan_Driver.thy ===== *)
theory Gfcan_Driver
  imports Can_Socket Record_Layout "HOL-Library.Multiset"
begin

text \<open>
  The CAN battery, \<open>src/drivers/gfcan\<close>, and the CAN daemon \<open>run_can_daemon\<close> of
  \<open>src/bms_daemon.cpp\<close>: fourteen frame kinds, each parsed into its fields of the cached record.
\<close>

unbundle bit_operations_syntax

section \<open>The parsers\<close>

definition u8_of :: "can_frame \<Rightarrow> nat \<Rightarrow> u8" where
  "u8_of f off = can_data f ! off"

definition u16_le :: "can_frame \<Rightarrow> nat \<Rightarrow> u16" where
  "u16_le f off = ucast (can_data f ! off) OR push_bit 8 (ucast (can_data f ! (off + 1)))"

text \<open>BMS_0. \<open>fault_code << 16\<close> drops all but the low half of the 18-bit fault code.\<close>

definition parse_bms0 :: "can_frame \<Rightarrow> battery_status \<Rightarrow> battery_status" where
  "parse_bms0 f st =
     (let fault_code = ucast (u8_of f 2) OR push_bit 8 (ucast (u8_of f 3)) OR
            push_bit 16 (ucast (u8_of f 4 AND 0x3)) :: u32
      in st\<lparr>protect_status := ucast (u8_of f 0) OR push_bit 8 (ucast (u8_of f 1)) OR
           push_bit 16 fault_code OR push_bit 29 (ucast (drop_bit 2 (u8_of f 4) AND 0x7))\<rparr>)"

definition parse_bms1 :: "can_frame \<Rightarrow> battery_status \<Rightarrow> battery_status" where
  "parse_bms1 f st = st\<lparr>work_state := (work_state st AND 0xFF00) OR u16_le f 0\<rparr>"

definition parse_bms2 :: "can_frame \<Rightarrow> battery_status \<Rightarrow> battery_status" where
  "parse_bms2 f st = st\<lparr>
     percentage := of_int (uint (u8_of f 0)),
     soh := ucast (u8_of f 1),
     voltage := dmul (of_int (uint (u16_le f 2))) (dlit (1/10)),
     current := dmul (of_int (sint (u16_le f 4) - 10000)) (dlit (1/10))\<rparr>"

definition parse_bms3 :: "can_frame \<Rightarrow> battery_status \<Rightarrow> battery_status" where
  "parse_bms3 f st = st"

definition parse_bms4 :: "can_frame \<Rightarrow> battery_status \<Rightarrow> battery_status" where
  "parse_bms4 f st = st\<lparr>temperature := of_int (uint (u8_of f 3) - 40)\<rparr>"

definition parse_bms5 :: "can_frame \<Rightarrow> battery_status \<Rightarrow> battery_status" where
  "parse_bms5 f st = st\<lparr>
     max_cell_voltage := dmul (of_int (uint (u16_le f 0))) (dlit (1/1000)),
     min_cell_voltage := dmul (of_int (uint (u16_le f 4))) (dlit (1/1000))\<rparr>"

text \<open>BMS_6, BMS_7 and BMS_8 carry eight characters of the serial number each.\<close>

definition copy_chars :: "can_frame \<Rightarrow> nat \<Rightarrow> bytes \<Rightarrow> bytes" where
  "copy_chars f off sn =
     fold (\<lambda>i sn. if i + off < 32 then sn[i + off := can_data f ! i] else sn) [0..<8] sn"

definition parse_bms6 :: "can_frame \<Rightarrow> battery_status \<Rightarrow> battery_status" where
  "parse_bms6 f st = st\<lparr>serial_number := copy_chars f 0 (serial_number st)\<rparr>"

definition parse_bms7 :: "can_frame \<Rightarrow> battery_status \<Rightarrow> battery_status" where
  "parse_bms7 f st = st\<lparr>serial_number := copy_chars f 8 (serial_number st)\<rparr>"

definition parse_bms8 :: "can_frame \<Rightarrow> battery_status \<Rightarrow> battery_status" where
  "parse_bms8 f st = st\<lparr>serial_number := (copy_chars f 16 (serial_number st))[24 := 0]\<rparr>"

definition parse_bms9 :: "can_frame \<Rightarrow> battery_status \<Rightarrow> battery_status" where
  "parse_bms9 f st = st\<lparr>
     sw_version := ucast (u8_of f 0) OR push_bit 8 (ucast (u8_of f 1)),
     hw_version := ucast (u8_of f 3) OR push_bit 8 (ucast (u8_of f 4))\<rparr>"

definition parse_bms10 :: "can_frame \<Rightarrow> battery_status \<Rightarrow> battery_status" where
  "parse_bms10 f st = st\<lparr>work_state :=
     (work_state st AND 0x00FF) OR push_bit 8 (ucast (u8_of f 0 AND 0x3F))\<rparr>"

text \<open>BMS_11. The shift is done in \<open>int\<close> and the assignment keeps its low sixteen bits.\<close>

definition parse_bms11 :: "can_frame \<Rightarrow> battery_status \<Rightarrow> battery_status" where
  "parse_bms11 f st = st\<lparr>work_state :=
     (work_state st AND 0x3FFF) OR push_bit 14 (ucast (u8_of f 1 AND 0x07))\<rparr>"

definition parse_bms21 :: "can_frame \<Rightarrow> battery_status \<Rightarrow> battery_status" where
  "parse_bms21 f st = st\<lparr>
     design_capacity := dmul (of_int (uint (u16_le f 0))) (dlit (1/100)),
     capacity := dmul (of_int (uint (u16_le f 2))) (dlit (1/100)),
     charge := dmul (of_int (uint (u16_le f 6))) (dlit (1/100))\<rparr>"

definition parse_bms22 :: "can_frame \<Rightarrow> battery_status \<Rightarrow> battery_status" where
  "parse_bms22 f st = st\<lparr>cycles := ucast (u16_le f 4)\<rparr>"

section \<open>The driver\<close>

text \<open>The \<open>switch\<close> of \<open>can_callback\<close>.\<close>

definition parsers :: "(u32 \<times> battery_status can_callback) list" where
  "parsers =
     [(0x18F00003, parse_bms0), (0x18F00103, parse_bms1), (0x18F00203, parse_bms2),
      (0x18F00303, parse_bms3), (0x18F00403, parse_bms4), (0x18F00503, parse_bms5),
      (0x18F00603, parse_bms6), (0x18F00703, parse_bms7), (0x18F00803, parse_bms8),
      (0x18F00903, parse_bms9), (0x18F00A03, parse_bms10), (0x18F00B03, parse_bms11),
      (0x18F01503, parse_bms21), (0x18F01603, parse_bms22)]"

definition can_callback :: "can_frame \<Rightarrow> battery_status \<Rightarrow> battery_status" where
  "can_callback f st =
     (case map_of parsers (can_id f AND CAN_EFF_MASK) of Some p \<Rightarrow> p f st | None \<Rightarrow> st)"

definition gfcan_ids :: "u32 list" where
  "gfcan_ids = [0x18F00003, 0x18F00103, 0x18F00203, 0x18F00303, 0x18F00403, 0x18F00503, 0x18F00603,
     0x18F00703, 0x18F00803, 0x18F00903, 0x18F00A03, 0x18F00B03, 0x18F01503, 0x18F01603]"

text \<open>A driver object; \<open>can_ref\<close> is its shared pointer \<open>can_\<close>. The objects stand at their addresses, as the
  owners of the callbacks.\<close>

record gfcan_driver =
  can_ref :: nat
  can_cached :: battery_status
  can_connected :: bool

type_synonym gfcan_world = "(nat \<Rightarrow> gfcan_driver) can_world"

definition set_driver :: "nat \<Rightarrow> (gfcan_driver \<Rightarrow> gfcan_driver) \<Rightarrow> gfcan_world \<Rightarrow> gfcan_world" where
  "set_driver this g w = w\<lparr>w_owners := (w_owners w)(this := g (w_owners w this))\<rparr>"

text \<open>\<open>std::bind(&GfCanBmsDriver::can_callback, this, _1)\<close>.\<close>

definition bound_callback :: "nat \<Rightarrow> (nat \<Rightarrow> gfcan_driver) can_callback" where
  "bound_callback this f objs =
     objs(this := (objs this)\<lparr>can_cached := can_callback f (can_cached (objs this))\<rparr>)"

text \<open>The calls of the constructor and of the destructor to the socket, which all drivers of the
  interface share.\<close>

definition register_calls :: "'s can_callback \<Rightarrow> ('s can_socket \<Rightarrow> 's can_socket) list" where
  "register_calls cb =
     set_id_extractor (\<lambda>f. can_id f AND CAN_EFF_MASK) # map (\<lambda>i. add_callback i cb) gfcan_ids"

definition unregister_calls :: "('s can_socket \<Rightarrow> 's can_socket) list" where
  "unregister_calls = map remove_callback gfcan_ids"

text \<open>The constructor of the object at \<open>this\<close>, which throws when the socket cannot be opened. The
  receiver thread runs from the opening on: \<open>arr j\<close> is what it does before the call \<open>j\<close> of the
  registration.\<close>

definition new_gfcan ::
    "string \<Rightarrow> can_open_event \<Rightarrow> (nat \<Rightarrow> can_poll list) \<Rightarrow> nat \<Rightarrow> gfcan_world \<Rightarrow>
     can_error + gfcan_world" where
  "new_gfcan name ev arr this w =
     (let w = set_driver this (\<lambda>d. d\<lparr>can_cached := zero_status, can_connected := False\<rparr>) w
      in case get_instance name ev w of
           Inl e \<Rightarrow> Inl e
         | Inr (r, w) \<Rightarrow>
             let w = set_driver this (\<lambda>d. d\<lparr>can_ref := r\<rparr>) w;
                 w = call_all r (register_calls (bound_callback this)) arr w
             in Inr (set_driver this (\<lambda>d. d\<lparr>can_connected := True\<rparr>) w))"

definition destroy_gfcan :: "(nat \<Rightarrow> can_poll list) \<Rightarrow> nat \<Rightarrow> gfcan_world \<Rightarrow> gfcan_world" where
  "destroy_gfcan arr this w =
     (let w = set_driver this (\<lambda>d. d\<lparr>can_connected := False\<rparr>) w
      in call_all (can_ref (w_owners w this)) unregister_calls arr w)"

text \<open>Frames reach the cache through the receiver thread of the socket.\<close>

definition gfcan_receive :: "can_poll list \<Rightarrow> nat \<Rightarrow> gfcan_world \<Rightarrow> gfcan_world" where
  "gfcan_receive ps this w = can_receive (can_ref (w_owners w this)) ps w"

text \<open>The getters; the class inherits the IO state, the power state and the age from
  \<open>BmsDriver\<close>.\<close>

definition gfcan_view :: "nat \<Rightarrow> gfcan_world \<Rightarrow> bms_view" where
  "gfcan_view this w =
     (let d = w_owners w this
      in (view_of_status (can_cached d) False (can_connected d) (-1))\<lparr>get_io_state := 0\<rparr>)"

section \<open>The CAN daemon\<close>

record can_daemon =
  cd_world :: gfcan_world
  cd_driver :: nat
  cd_status :: battery_status
  cd_stale :: nat
  cd_printed :: "(double \<times> double \<times> double) list"   \<comment> \<open>voltage, current, percentage; newest last\<close>

text \<open>The thirteen getters lock the cache one by one: \<open>arr k\<close> is what the receiver thread does after
  getter \<open>k - 1\<close> and before getter \<open>k\<close>, where getter 0 is the reading of the voltage.\<close>

definition seen_by :: "(nat \<Rightarrow> can_poll list) \<Rightarrow> nat \<Rightarrow> can_daemon \<Rightarrow> gfcan_world" where
  "seen_by arr k s = gfcan_receive (concat (map arr [0..<Suc k])) (cd_driver s) (cd_world s)"

definition cached_of :: "nat \<Rightarrow> gfcan_world \<Rightarrow> battery_status" where
  "cached_of this w = can_cached (w_owners w this)"

definition can_daemon_step :: "(nat \<Rightarrow> can_poll list) \<Rightarrow> can_daemon \<Rightarrow> can_daemon" where
  "can_daemon_step arr s =
     (let c = (\<lambda>k. cached_of (cd_driver s) (seen_by arr k s));
          st = (cd_status s)\<lparr>voltage := voltage (c 0)\<rparr>
      in if voltage st > 0
         then let st = st\<lparr>current := current (c 1), temperature := temperature (c 2),
                percentage := percentage (c 3), charge := charge (c 4), capacity := capacity (c 5),
                design_capacity := design_capacity (c 6), protect_status := protect_status (c 7),
                work_state := work_state (c 8), max_cell_voltage := max_cell_voltage (c 9),
                min_cell_voltage := min_cell_voltage (c 10), soh := soh (c 11),
                cycles := cycles (c 12)\<rparr>
              in s\<lparr>cd_world := seen_by arr 12 s, cd_status := st, cd_stale := 0,
                   cd_printed := cd_printed s @ [(voltage st, current st, percentage st)]\<rparr>
         else s\<lparr>cd_world := seen_by arr 0 s, cd_status := st, cd_stale := cd_stale s + 1\<rparr>)"

text \<open>\<open>while (g_running && stale_iters < 50)\<close>, one element of the list for each test of
  \<open>g_running\<close> that finds it set. The flag says whether the loop ended by itself.\<close>

fun can_daemon_loop :: "(nat \<Rightarrow> can_poll list) list \<Rightarrow> can_daemon \<Rightarrow> bool \<times> can_daemon" where
  "can_daemon_loop [] s = (False, s)"
| "can_daemon_loop (arr # rest) s =
     (if cd_stale s < 50 then can_daemon_loop rest (can_daemon_step arr s) else (True, s))"

definition start_can_daemon :: "nat \<Rightarrow> gfcan_world \<Rightarrow> can_daemon" where
  "start_can_daemon this w =
     \<lparr>cd_world = w, cd_driver = this, cd_status = zero_status, cd_stale = 0, cd_printed = []\<rparr>"

section \<open>Delivery\<close>

lemma parsers_ids: "map fst parsers = gfcan_ids"
  by (simp add: parsers_def gfcan_ids_def)

lemma map_of_parsers_None: "map_of parsers i = None \<longleftrightarrow> i \<notin> set gfcan_ids"
  by (simp add: map_of_eq_None_iff flip: parsers_ids)

lemma fold_add_callbacks:
  "callbacks (fold (\<lambda>i. add_callback i cb) is c) i = (if i \<in> set is then Some cb else callbacks c i)"
  "id_extractor (fold (\<lambda>i. add_callback i cb) is c) = id_extractor c"
  by (induction "is" arbitrary: c) auto

lemma fold_remove_callbacks:
  "callbacks (fold remove_callback is c) i = (if i \<in> set is then None else callbacks c i)"
  "id_extractor (fold remove_callback is c) = id_extractor c"
  by (induction "is" arbitrary: c) auto

lemma can_open_no_callbacks: "can_open name ev = Inr c \<Longrightarrow> callbacks c = Map.empty"
  by (auto simp: can_open_def split: can_open_event.splits)

text \<open>All callbacks of a socket are those of some GFCAN driver.\<close>

definition gfcan_only :: "'s can_socket \<Rightarrow> bool" where
  "gfcan_only c \<longleftrightarrow> dom (callbacks c) \<subseteq> set gfcan_ids"

definition register_callbacks :: "'s can_callback \<Rightarrow> 's can_socket \<Rightarrow> 's can_socket" where
  "register_callbacks cb = fold (\<lambda>g. g) (register_calls cb)"

definition unregister_callbacks :: "'s can_socket \<Rightarrow> 's can_socket" where
  "unregister_callbacks = fold (\<lambda>g. g) unregister_calls"

lemma fold_calls:
  "fold (\<lambda>g. g) (map (\<lambda>i. add_callback i cb) is) c = fold (\<lambda>i. add_callback i cb) is c"
  "fold (\<lambda>g. g) (map remove_callback is) c = fold remove_callback is c"
  by (simp_all add: fold_map comp_def)

lemma registered_socket:
  "callbacks (register_callbacks cb c) i = (if i \<in> set gfcan_ids then Some cb else callbacks c i)"
  "id_extractor (register_callbacks cb c) = (\<lambda>f. can_id f AND CAN_EFF_MASK)"
  "callbacks (unregister_callbacks c) i = (if i \<in> set gfcan_ids then None else callbacks c i)"
  "id_extractor (unregister_callbacks c) = id_extractor c"
  by (simp_all add: register_callbacks_def register_calls_def unregister_callbacks_def
      unregister_calls_def fold_calls fold_add_callbacks fold_remove_callbacks)

interpretation bus: frame_dispatch register_callbacks unregister_callbacks dispatch gfcan_only
    "\<lambda>f. can_id f AND CAN_EFF_MASK \<in> set gfcan_ids"
proof
  fix b :: "'a can_socket" and h f s
  assume b: "gfcan_only b"
  then have none: "i \<notin> set gfcan_ids \<Longrightarrow> callbacks b i = None" for i
    by (auto simp: gfcan_only_def domIff)
  show "gfcan_only (register_callbacks h b)" "gfcan_only (unregister_callbacks b)"
    using b by (auto simp: gfcan_only_def registered_socket dom_def split: if_splits)
  show "dispatch (register_callbacks h b) f s = (if can_id f AND CAN_EFF_MASK \<in> set gfcan_ids then h f s else s)"
    "dispatch (unregister_callbacks b) f s = s"
    by (simp_all add: dispatch_def registered_socket none)
qed

lemma can_callback_unregistered:
  "can_id f AND CAN_EFF_MASK \<notin> set gfcan_ids \<Longrightarrow> can_callback f st = st"
  by (simp add: can_callback_def flip: map_of_parsers_None)

lemma bound_callback_unregistered:
  "\<not> can_id f AND CAN_EFF_MASK \<in> set gfcan_ids \<Longrightarrow> bound_callback this f objs = objs"
  by (simp add: bound_callback_def can_callback_unregistered)

lemma fold_bound_callback:
  "fold (bound_callback this) fs objs =
    objs(this := (objs this)\<lparr>can_cached := fold can_callback fs (can_cached (objs this))\<rparr>)"
  by (induction fs arbitrary: objs) (simp_all add: bound_callback_def)

section \<open>Construction and destruction while frames arrive\<close>

text \<open>The frames that get through before the call \<open>j\<close> of the constructor and of the destructor.\<close>

definition heard_in_setup :: "nat \<Rightarrow> can_frame \<Rightarrow> bool" where
  "heard_in_setup j f \<longleftrightarrow> can_id f AND CAN_EFF_MASK \<in> set (take (j - 1) gfcan_ids)"

definition heard_in_teardown :: "nat \<Rightarrow> can_frame \<Rightarrow> bool" where
  "heard_in_teardown j f \<longleftrightarrow> can_id f AND CAN_EFF_MASK \<in> set gfcan_ids - set (take j gfcan_ids)"

definition setup_frames :: "(nat \<Rightarrow> can_poll list) \<Rightarrow> can_frame list" where
  "setup_frames arr = delivered heard_in_setup arr 15"

definition teardown_frames :: "(nat \<Rightarrow> can_poll list) \<Rightarrow> can_frame list" where
  "teardown_frames arr = delivered heard_in_teardown arr 14"

text \<open>Whether the receiver thread survives the construction.\<close>

definition survives :: "(nat \<Rightarrow> can_poll list) \<Rightarrow> bool" where
  "survives arr \<longleftrightarrow> list_all (\<lambda>j. SelectFails \<notin> set (arr j)) [0..<15]"

lemma survives_iff: "survives arr \<longleftrightarrow> (\<forall>j < 15. SelectFails \<notin> set (arr j))"
  by (auto simp: survives_def list_all_iff)

lemma length_calls: "length (register_calls cb) = 15" "length unregister_calls = 14"
  by (simp_all add: register_calls_def unregister_calls_def gfcan_ids_def)

lemma dispatch_in_setup:
  assumes "callbacks c = Map.empty"
  shows "dispatch (fold (\<lambda>g. g) (take j (register_calls cb)) c) f s =
    (if heard_in_setup j f then cb f s else s)"
  using assms
  by (cases j) (simp_all add: register_calls_def take_map fold_calls dispatch_def fold_add_callbacks
      heard_in_setup_def)

lemma dispatch_in_teardown:
  assumes "gfcan_only c"
  shows "dispatch (fold (\<lambda>g. g) (take j unregister_calls) (register_callbacks cb c)) f s =
    (if heard_in_teardown j f then cb f s else s)"
proof -
  have "callbacks c i = None" if "i \<notin> set gfcan_ids" for i
    using assms that by (auto simp: gfcan_only_def domIff)
  then show ?thesis
    by (simp add: unregister_calls_def take_map fold_calls dispatch_def fold_remove_callbacks
        registered_socket heard_in_teardown_def)
qed

text \<open>A driver on a fresh interface.\<close>

lemma new_gfcan_fresh:
  assumes "w_instances w name = None" "new_gfcan name ev arr this w = Inr w1"
  shows "can_ref (w_owners w1 this) = w_next w" "can_connected (w_owners w1 this)"
    "can_cached (w_owners w1 this) = fold can_callback (setup_frames arr) zero_status"
    "w_running w1 (w_next w) = survives arr" "w_next w1 = Suc (w_next w)"
    "w_instances w1 = (w_instances w)(name \<mapsto> w_next w)"
    "\<exists>c. callbacks c = Map.empty \<and> w_sockets w1 (w_next w) = register_callbacks (bound_callback this) c"
proof -
  obtain c :: "(nat \<Rightarrow> gfcan_driver) can_socket" where c: "can_open name ev = Inr c"
  proof (cases "can_open name ev :: can_error + (nat \<Rightarrow> gfcan_driver) can_socket")
    case (Inl e)
    with assms show ?thesis by (simp add: new_gfcan_def get_instance_def set_driver_def)
  next
    case (Inr c)
    then show ?thesis by (rule that)
  qed
  define w0 where "w0 = w\<lparr>w_sockets := (w_sockets w)(w_next w := c), w_next := Suc (w_next w),
    w_running := (w_running w)(w_next w := True), w_instances := (w_instances w)(name \<mapsto> w_next w),
    w_owners := (w_owners w)(this := (w_owners w this)\<lparr>can_cached := zero_status,
      can_connected := False, can_ref := w_next w\<rparr>)\<rparr>"
  have w1: "w1 = set_driver this (\<lambda>d. d\<lparr>can_connected := True\<rparr>)
      (call_all (w_next w) (register_calls (bound_callback this)) arr w0)"
    using assms by (simp add: new_gfcan_def get_instance_def set_driver_def Let_def c w0_def)
  note empty = can_open_no_callbacks [OF c]
  have owners: "w_owners (call_all (w_next w) (register_calls (bound_callback this)) arr w0) =
      fold (bound_callback this) (setup_frames arr) (w_owners w0)"
    using call_all_owners [of "register_calls (bound_callback this)" w0 "w_next w" heard_in_setup
        "bound_callback this" arr] dispatch_in_setup [OF empty]
    unfolding setup_frames_def length_calls by (simp add: w0_def)
  show "can_ref (w_owners w1 this) = w_next w" "can_connected (w_owners w1 this)"
    "can_cached (w_owners w1 this) = fold can_callback (setup_frames arr) zero_status"
    "w_running w1 (w_next w) = survives arr" "w_next w1 = Suc (w_next w)"
    "w_instances w1 = (w_instances w)(name \<mapsto> w_next w)"
    by (simp_all add: w1 set_driver_def owners fold_bound_callback call_all_fields length_calls
        survives_iff) (simp_all add: w0_def)
  have "w_sockets w1 (w_next w) = register_callbacks (bound_callback this) c"
    by (simp add: w1 set_driver_def call_all_fields register_callbacks_def w0_def)
  with empty show "\<exists>c. callbacks c = Map.empty \<and> w_sockets w1 (w_next w) = register_callbacks (bound_callback this) c"
    by blast
qed

lemma gfcan_only_fresh: "callbacks c = Map.empty \<Longrightarrow> gfcan_only c"
  by (simp add: gfcan_only_def)

lemma gfcan_receive_attached:
  assumes "w_sockets w (can_ref (w_owners w d)) = register_callbacks (bound_callback this) c" "gfcan_only c"
  shows "w_owners (gfcan_receive ps d w) =
    (if w_running w (can_ref (w_owners w d)) then fold (bound_callback this) (received ps) (w_owners w)
     else w_owners w)"
  using bus.run_attached [OF assms(2) bound_callback_unregistered [of _ this]] assms(1)
  by (simp add: gfcan_receive_def can_receive_fields)

lemma gfcan_receive_detached:
  assumes "w_sockets w (can_ref (w_owners w d)) = unregister_callbacks c" "gfcan_only c"
  shows "w_owners (gfcan_receive ps d w) = w_owners w"
  by (simp add: gfcan_receive_def can_receive_fields assms(1) bus.run_detached [OF assms(2)])

lemma destroyed_gfcan:
  assumes "w_sockets w (can_ref (w_owners w d)) = register_callbacks (bound_callback this) c" "gfcan_only c"
  shows "w_owners (destroy_gfcan arr d w) =
      (let objs = (w_owners w)(d := (w_owners w d)\<lparr>can_connected := False\<rparr>)
       in if w_running w (can_ref (w_owners w d)) then fold (bound_callback this) (teardown_frames arr) objs
          else objs)"
    and "w_sockets (destroy_gfcan arr d w) (can_ref (w_owners w d)) =
      unregister_callbacks (register_callbacks (bound_callback this) c)"
proof -
  let ?r = "can_ref (w_owners w d)" and ?w = "set_driver d (\<lambda>d. d\<lparr>can_connected := False\<rparr>) w"
  have "destroy_gfcan arr d w = call_all ?r unregister_calls arr ?w"
    by (simp add: destroy_gfcan_def Let_def set_driver_def)
  moreover have "w_sockets ?w ?r = register_callbacks (bound_callback this) c"
    "w_running ?w = w_running w"
    "w_owners ?w = (w_owners w)(d := (w_owners w d)\<lparr>can_connected := False\<rparr>)"
    by (simp_all add: set_driver_def assms(1))
  ultimately show "w_owners (destroy_gfcan arr d w) =
      (let objs = (w_owners w)(d := (w_owners w d)\<lparr>can_connected := False\<rparr>)
       in if w_running w ?r then fold (bound_callback this) (teardown_frames arr) objs else objs)"
    and "w_sockets (destroy_gfcan arr d w) ?r =
      unregister_callbacks (register_callbacks (bound_callback this) c)"
    using call_all_owners [of unregister_calls ?w ?r heard_in_teardown "bound_callback this" arr]
      dispatch_in_teardown [OF assms(2)]
    by (simp_all add: length_calls teardown_frames_def Let_def call_all_fields unregister_callbacks_def)
qed

lemma fresh_driver_cached:
  assumes "w_instances w name = None" "new_gfcan name ev arr this w = Inr w1"
  shows "cached_of this (gfcan_receive ps this w1) =
    fold can_callback (setup_frames arr @ (if survives arr then received ps else [])) zero_status"
proof -
  note fresh = new_gfcan_fresh [OF assms]
  obtain c where c: "callbacks c = Map.empty"
    "w_sockets w1 (w_next w) = register_callbacks (bound_callback this) c" using fresh(7) by blast
  with gfcan_receive_attached [of w1 this this c ps] gfcan_only_fresh [OF c(1)] fresh(1-4) show ?thesis
    by (simp add: cached_of_def fold_bound_callback)
qed

lemma gfcan_receive_connected:
  assumes "w_instances w name = None" "new_gfcan name ev arr this w = Inr w1"
  shows "can_connected (w_owners (gfcan_receive ps this w1) this)"
proof -
  note fresh = new_gfcan_fresh [OF assms]
  obtain c where c: "callbacks c = Map.empty"
    "w_sockets w1 (w_next w) = register_callbacks (bound_callback this) c" using fresh(7) by blast
  with gfcan_receive_attached [of w1 this this c ps] gfcan_only_fresh [OF c(1)] fresh(1-4) show ?thesis
    by (simp add: fold_bound_callback)
qed

text \<open>C26. A driver built on a fresh interface parses every frame the receiver reads, in order and
  once, whatever interrupts and timeouts of \<open>select\<close> lie between them, by the low 29 bits of its
  identifier; frames of other identifiers change nothing. Of the frames that arrive while the
  constructor registers its callbacks one by one it gets those whose callback is in place, and
  likewise of those that arrive during the destructor; after the destructor no frame changes
  anything. The getters show that record, as connected before the first frame as after the last.\<close>

theorem gfcan_parses_received_frames:
  assumes "w_instances w name = None" "new_gfcan name ev arr this w = Inr w1"
  shows "gfcan_view this (gfcan_receive ps this w1) =
      (view_of_status (fold can_callback
          (setup_frames arr @ (if survives arr then received ps else [])) zero_status)
        False True (-1))\<lparr>get_io_state := 0\<rparr> \<and>
    gfcan_view this (gfcan_receive ps this (destroy_gfcan arr' this w1)) =
      (view_of_status (fold can_callback
          (setup_frames arr @ (if survives arr then teardown_frames arr' else [])) zero_status)
        False False (-1))\<lparr>get_io_state := 0\<rparr>"
proof
  note fresh = new_gfcan_fresh [OF assms]
  show "gfcan_view this (gfcan_receive ps this w1) =
      (view_of_status (fold can_callback
          (setup_frames arr @ (if survives arr then received ps else [])) zero_status)
        False True (-1))\<lparr>get_io_state := 0\<rparr>"
    using fresh_driver_cached [OF assms, of ps] gfcan_receive_connected [OF assms, of ps]
    by (simp add: gfcan_view_def Let_def cached_of_def)
  obtain c where c: "callbacks c = Map.empty"
    "w_sockets w1 (w_next w) = register_callbacks (bound_callback this) c" using fresh(7) by blast
  let ?w2 = "destroy_gfcan arr' this w1"
  have d: "w_owners ?w2 this = (w_owners w1 this)\<lparr>can_connected := False, can_cached :=
      fold can_callback (setup_frames arr @ (if survives arr then teardown_frames arr' else [])) zero_status\<rparr>"
    "w_sockets ?w2 (w_next w) = unregister_callbacks (register_callbacks (bound_callback this) c)"
    using destroyed_gfcan [of w1 this this c arr'] c(2) gfcan_only_fresh [OF c(1)] fresh(1-4)
    by (simp_all add: fold_bound_callback Let_def)
  have "w_owners (gfcan_receive ps this ?w2) = w_owners ?w2"
    using gfcan_receive_detached [of ?w2 this _ ps] bus.attach_ours [OF gfcan_only_fresh [OF c(1)]]
      d fresh(1) by simp
  with d(1) show "gfcan_view this (gfcan_receive ps this ?w2) =
      (view_of_status (fold can_callback
          (setup_frames arr @ (if survives arr then teardown_frames arr' else [])) zero_status)
        False False (-1))\<lparr>get_io_state := 0\<rparr>"
    by (simp add: gfcan_view_def Let_def)
qed

text \<open>A process with no socket and no driver yet.\<close>

definition fresh_world :: gfcan_world where
  "fresh_world = \<lparr>w_sockets = (\<lambda>r. \<lparr>iface = [], sockfd = -1, receiving = False,
       callbacks = Map.empty, id_extractor = default_extractor\<rparr>), w_next = 0,
     w_running = (\<lambda>r. False), w_instances = Map.empty,
     w_owners = (\<lambda>k. \<lparr>can_ref = 0, can_cached = zero_status, can_connected = False\<rparr>)\<rparr>"

lemma quiet_setup: "setup_frames (\<lambda>j. []) = []" "survives (\<lambda>j. [])"
  by (simp_all add: setup_frames_def delivered_silence survives_iff)

lemma new_gfcan_demo: "\<exists>w1. new_gfcan ''can0'' (CanOpens 4) arr this fresh_world = Inr w1"
  by (simp add: new_gfcan_def get_instance_def can_open_def set_driver_def fresh_world_def Let_def)

lemma fresh_world_none: "w_instances fresh_world name = None"
  by (simp add: fresh_world_def)

theorem gfcan_parses_received_frames_witness:
  "case new_gfcan ''can0'' (CanOpens 4) (\<lambda>j. []) 5 fresh_world of
     Inl e \<Rightarrow> False
   | Inr w \<Rightarrow>
       gfcan_view 5 (gfcan_receive [SelectIntr, SelectReady [\<lparr>can_id = 0x98F00403, can_dlc = 8,
         can_data = [0, 0, 0, 65, 0, 0, 0, 0]\<rparr>]] 5 w) =
       (view_of_status (fold can_callback [\<lparr>can_id = 0x98F00403, can_dlc = 8,
         can_data = [0, 0, 0, 65, 0, 0, 0, 0]\<rparr>] zero_status) False True (-1))\<lparr>get_io_state := 0\<rparr>"
proof -
  obtain w where w: "new_gfcan ''can0'' (CanOpens 4) (\<lambda>j. []) 5 fresh_world = Inr w"
    using new_gfcan_demo by blast
  from gfcan_parses_received_frames [OF fresh_world_none w, of "[SelectIntr, SelectReady [\<lparr>can_id = 0x98F00403,
      can_dlc = 8, can_data = [0, 0, 0, 65, 0, 0, 0, 0]\<rparr>]]"] show ?thesis
    by (simp add: w quiet_setup del: fold_simps)
qed

section \<open>Two drivers on one interface\<close>

lemma bound_callback_keeps:
  "can_ref (bound_callback this f objs k) = can_ref (objs k)"
  "can_connected (bound_callback this f objs k) = can_connected (objs k)"
  by (simp_all add: bound_callback_def)

lemma new_gfcan_again:
  assumes "w_instances w name = Some r" "new_gfcan name ev arr second w = Inr w2"
    and "w_sockets w r = register_callbacks (bound_callback first) c" "gfcan_only c"
    and "can_ref (w_owners w first) = r" "can_connected (w_owners w first)" "first \<noteq> second"
  shows "can_ref (w_owners w2 second) = r" "w_next w2 = w_next w" "can_connected (w_owners w2 second)"
    "w_sockets w2 r = register_callbacks (bound_callback second) (w_sockets w r)"
    "can_ref (w_owners w2 first) = r" "can_connected (w_owners w2 first)"
proof -
  let ?calls = "register_calls (bound_callback second)"
  define w0 where "w0 = w\<lparr>w_owners := (w_owners w)(second := (w_owners w second)\<lparr>can_cached := zero_status,
      can_connected := False, can_ref := r\<rparr>)\<rparr>"
  have w2: "w2 = set_driver second (\<lambda>d. d\<lparr>can_connected := True\<rparr>) (call_all r ?calls arr w0)"
    using assms(1,2) by (simp add: new_gfcan_def get_instance_def set_driver_def Let_def w0_def)
  have handler: "callbacks (fold (\<lambda>g. g) (take j ?calls) (w_sockets w0 r)) i \<in>
      {None, Some (bound_callback first), Some (bound_callback second)}" for i j
    using assms(3,4) by (cases j) (auto simp: register_calls_def take_map fold_calls fold_add_callbacks
      w0_def registered_socket gfcan_only_def domIff)
  let ?I = "\<lambda>objs. can_ref (objs first) = r \<and> can_connected (objs first) \<and> can_ref (objs second) = r"
  have "?I (w_owners (call_all r ?calls arr w0))"
  proof (rule call_all_keeps [where I = ?I])
    show "?I (w_owners w0)" using assms(5-7) by (simp add: w0_def)
    show "?I (dispatch (fold (\<lambda>g. g) (take j ?calls) (w_sockets w0 r)) f s)" if "?I s" for j f s
      using that handler [of j "id_extractor (fold (\<lambda>g. g) (take j ?calls) (w_sockets w0 r)) f"]
      by (auto simp: dispatch_def bound_callback_keeps)
  qed
  with assms(7) show "can_ref (w_owners w2 second) = r" "can_connected (w_owners w2 second)"
    "can_ref (w_owners w2 first) = r" "can_connected (w_owners w2 first)"
    by (simp_all add: w2 set_driver_def)
  show "w_next w2 = w_next w"
    "w_sockets w2 r = register_callbacks (bound_callback second) (w_sockets w r)"
    by (simp_all add: w2 set_driver_def call_all_fields register_callbacks_def) (simp_all add: w0_def)
qed

text \<open>C32. A second driver of an interface opens no socket but shares that of the first, whatever
  frames arrive during its construction. From then on the frames reach the second driver only: the
  first still calls itself connected and keeps its record for ever. And when the first is destroyed,
  the callbacks of the second go with its own: the second still calls itself connected, and no frame
  changes its record any more.\<close>

theorem gfcan_drivers_share_socket:
  assumes "w_instances w name = None" "first \<noteq> second"
    and "new_gfcan name ev arr first w = Inr w1" "new_gfcan name ev' arr' second w1 = Inr w2"
  shows "can_ref (w_owners w2 first) = can_ref (w_owners w2 second) \<and> w_next w2 = Suc (w_next w) \<and>
    w_owners (gfcan_receive ps second w2) = (w_owners w2)
      (second := (w_owners w2 second)\<lparr>can_cached := fold can_callback
        (if w_running w2 (can_ref (w_owners w2 second)) then received ps else [])
        (can_cached (w_owners w2 second))\<rparr>) \<and>
    can_connected (w_owners w2 first) \<and>
    (let w3 = destroy_gfcan arr'' first w2
     in can_connected (w_owners w3 second) \<and> w_owners (gfcan_receive ps second w3) = w_owners w3)"
proof -
  let ?r = "w_next w"
  note fresh = new_gfcan_fresh [OF assms(1,3)]
  obtain c where c: "callbacks c = Map.empty"
    "w_sockets w1 ?r = register_callbacks (bound_callback first) c" using fresh(7) by blast
  note only = gfcan_only_fresh [OF c(1)] bus.attach_ours [OF gfcan_only_fresh [OF c(1)]]
  have "w_instances w1 name = Some ?r" using fresh(6) by simp
  note again = new_gfcan_again [OF this assms(4) c(2) only(1) fresh(1,2) assms(2)]
  have sock: "w_sockets w2 ?r = register_callbacks (bound_callback second)
      (register_callbacks (bound_callback first) c)" using again(4) c(2) by simp
  have "w_owners (gfcan_receive ps second w2) =
    (if w_running w2 ?r then fold (bound_callback second) (received ps) (w_owners w2) else w_owners w2)"
    using gfcan_receive_attached [of w2 second second _ ps] sock again(1) only(2) by simp
  moreover have w3: "w_owners (destroy_gfcan arr'' first w2) =
      (let objs = (w_owners w2)(first := (w_owners w2 first)\<lparr>can_connected := False\<rparr>)
       in if w_running w2 ?r then fold (bound_callback second) (teardown_frames arr'') objs else objs)"
    "w_sockets (destroy_gfcan arr'' first w2) ?r = unregister_callbacks (register_callbacks
      (bound_callback second) (register_callbacks (bound_callback first) c))"
    using destroyed_gfcan [of w2 first second _ arr''] sock again(5) only(2) by simp_all
  moreover have "w_owners (gfcan_receive ps second (destroy_gfcan arr'' first w2)) =
      w_owners (destroy_gfcan arr'' first w2)"
  proof (rule gfcan_receive_detached)
    have "can_ref (w_owners (destroy_gfcan arr'' first w2) second) = ?r"
      using again(1) assms(2) by (simp add: w3(1) fold_bound_callback Let_def)
    with w3(2) show "w_sockets (destroy_gfcan arr'' first w2)
        (can_ref (w_owners (destroy_gfcan arr'' first w2) second)) =
      unregister_callbacks (register_callbacks (bound_callback second)
        (register_callbacks (bound_callback first) c))" by simp
    show "gfcan_only (register_callbacks (bound_callback second) (register_callbacks (bound_callback first) c))"
      by (rule bus.attach_ours [OF only(2)])
  qed
  ultimately show ?thesis
    using again fresh(5) assms(2) by (auto simp: fold_bound_callback Let_def)
qed

text \<open>The second driver gets by although no further socket could be opened.\<close>

theorem gfcan_drivers_share_socket_witness:
  "\<exists>w1 w2. new_gfcan ''can0'' (CanOpens 4) (\<lambda>j. []) 5 fresh_world = Inr w1 \<and>
     new_gfcan ''can0'' CanSocketFails (\<lambda>j. []) 6 w1 = Inr w2 \<and>
     can_ref (w_owners w2 5) = can_ref (w_owners w2 6) \<and>
     can_connected (w_owners w2 5) \<and>
     (let w3 = destroy_gfcan (\<lambda>j. []) 5 w2
      in can_connected (w_owners w3 6) \<and>
        w_owners (gfcan_receive [SelectReady [\<lparr>can_id = 0x98F00403, can_dlc = 8,
          can_data = [0, 0, 0, 65, 0, 0, 0, 0]\<rparr>]] 6 w3) = w_owners w3)"
proof -
  obtain w1 where w1: "new_gfcan ''can0'' (CanOpens 4) (\<lambda>j. []) 5 fresh_world = Inr w1"
    using new_gfcan_demo by blast
  have "w_instances w1 ''can0'' = Some 0"
    using new_gfcan_fresh(6) [OF fresh_world_none w1] by (simp add: fresh_world_def)
  then obtain w2 where w2: "new_gfcan ''can0'' CanSocketFails (\<lambda>j. []) 6 w1 = Inr w2"
    by (simp add: new_gfcan_def get_instance_def set_driver_def Let_def)
  have "(5 :: nat) \<noteq> 6" by simp
  from gfcan_drivers_share_socket [OF fresh_world_none this w1 w2] w1 w2 show ?thesis
    unfolding Let_def by blast
qed

section \<open>Frames of different kinds\<close>

text \<open>The identifiers of the three frames that share \<open>work_state\<close>.\<close>

definition work_ids :: "u32 set" where
  "work_ids = {0x18F00103, 0x18F00A03, 0x18F00B03}"

lemma copy_chars_nth:
  "length (copy_chars f off sn) = length sn"
  "k < length sn \<Longrightarrow> copy_chars f off sn ! k =
    (if off \<le> k \<and> k < off + 8 \<and> k < 32 then can_data f ! (k - off) else sn ! k)"
proof -
  have "length (fold (\<lambda>i sn. if i + off < 32 then sn[i + off := can_data f ! i] else sn) [0..<n] sn) =
      length sn \<and>
    (k < length sn \<longrightarrow>
      fold (\<lambda>i sn. if i + off < 32 then sn[i + off := can_data f ! i] else sn) [0..<n] sn ! k =
      (if off \<le> k \<and> k < off + n \<and> k < 32 then can_data f ! (k - off) else sn ! k))"
    for n
    by (induction n) (auto simp: nth_list_update less_Suc_eq)
  from this [of 8] show "length (copy_chars f off sn) = length sn"
    "k < length sn \<Longrightarrow> copy_chars f off sn ! k =
      (if off \<le> k \<and> k < off + 8 \<and> k < 32 then can_data f ! (k - off) else sn ! k)"
    unfolding copy_chars_def by blast+
qed

lemma copy_chars_commute:
  "copy_chars f 0 (copy_chars g 8 sn) = copy_chars g 8 (copy_chars f 0 sn)"
  "copy_chars f 0 ((copy_chars g 16 sn)[24 := 0]) = (copy_chars g 16 (copy_chars f 0 sn))[24 := 0]"
  "copy_chars f 8 ((copy_chars g 16 sn)[24 := 0]) = (copy_chars g 16 (copy_chars f 8 sn))[24 := 0]"
  by (cases "24 < length sn"; rule nth_equalityI;
    simp add: copy_chars_nth nth_list_update list_update_beyond not_less)+

text \<open>The 91 pairs of different kinds, each checked once.\<close>

definition swap_ok :: "u32 \<times> battery_status can_callback \<Rightarrow> u32 \<times> battery_status can_callback \<Rightarrow> bool" where
  "swap_ok = (\<lambda>(i, p) (j, q). i \<in> work_ids \<and> j \<in> work_ids \<or>
     (\<forall>f g st. p f (q g st) = q g (p f st)))"

lemma swap_okI: "(\<And>f g st. p f (q g st) = q g (p f st)) \<Longrightarrow> swap_ok (i, p) (j, q)"
  by (simp add: swap_ok_def)

lemma swap_ok_sym: "swap_ok x y \<longleftrightarrow> swap_ok y x"
  by (auto simp: swap_ok_def split_beta)

lemma swap_ok_work: "i \<in> work_ids \<Longrightarrow> j \<in> work_ids \<Longrightarrow> swap_ok (i, p) (j, q)"
  by (simp add: swap_ok_def)

lemma work_ids_simps:
  "0x18F00103 \<in> work_ids" "0x18F00A03 \<in> work_ids" "0x18F00B03 \<in> work_ids"
  by (simp_all add: work_ids_def)

lemma parsers_swap: "sorted_wrt swap_ok parsers"
  unfolding parsers_def sorted_wrt.simps list.set ball_simps
  by (intro conjI TrueI; ((rule swap_ok_work; rule work_ids_simps) | (rule swap_okI, simp add: parse_bms0_def
    parse_bms1_def parse_bms2_def parse_bms3_def parse_bms4_def parse_bms5_def parse_bms6_def
    parse_bms7_def parse_bms8_def parse_bms9_def parse_bms10_def parse_bms11_def parse_bms21_def
    parse_bms22_def copy_chars_commute Let_def)))

lemma sorted_wrt_sym_pair:
  assumes "sorted_wrt R xs" "x \<in> set xs" "y \<in> set xs" "x \<noteq> y" "\<And>x y. R x y \<longleftrightarrow> R y x"
  shows "R x y"
  using assms by (induction xs) auto

lemma parsers_commute:
  assumes "(i, p) \<in> set parsers" "(j, q) \<in> set parsers" "i \<noteq> j" "\<not> (i \<in> work_ids \<and> j \<in> work_ids)"
  shows "p f (q g st) = q g (p f st)"
proof -
  have "swap_ok (i, p) (j, q)"
    using assms(3) swap_ok_sym by (intro sorted_wrt_sym_pair [OF parsers_swap assms(1,2)]) auto
  with assms(4) show ?thesis unfolding swap_ok_def by auto
qed

text \<open>C27. Frames of different kinds may arrive in any order: swapping two of them leaves the same
  record, except between the three kinds that write \<open>work_state\<close>.\<close>

theorem gfcan_frames_commute:
  assumes "can_id f AND CAN_EFF_MASK \<noteq> can_id g AND CAN_EFF_MASK"
    and "\<not> {can_id f AND CAN_EFF_MASK, can_id g AND CAN_EFF_MASK} \<subseteq> work_ids"
  shows "can_callback f (can_callback g st) = can_callback g (can_callback f st)"
proof -
  have "p f (q g st) = q g (p f st)"
    if "map_of parsers (can_id f AND CAN_EFF_MASK) = Some p"
      "map_of parsers (can_id g AND CAN_EFF_MASK) = Some q" for p q
    using parsers_commute [OF map_of_SomeD [OF that(1)] map_of_SomeD [OF that(2)]] assms by auto
  then show ?thesis by (auto simp: can_callback_def split: option.splits)
qed

theorem gfcan_frames_commute_witness:
  "can_callback \<lparr>can_id = 0x98F00003, can_dlc = 8, can_data = [1, 0, 4, 0, 0, 0, 0, 0]\<rparr>
     (can_callback \<lparr>can_id = 0x98F00103, can_dlc = 8, can_data = [5, 1, 0, 0, 0, 0, 0, 0]\<rparr> zero_status) =
   can_callback \<lparr>can_id = 0x98F00103, can_dlc = 8, can_data = [5, 1, 0, 0, 0, 0, 0, 0]\<rparr>
     (can_callback \<lparr>can_id = 0x98F00003, can_dlc = 8, can_data = [1, 0, 4, 0, 0, 0, 0, 0]\<rparr> zero_status)"
  by (rule gfcan_frames_commute) (simp_all add: work_ids_def)

section \<open>The bits of the status words\<close>

text \<open>C28. The protection word: bits 0 to 15 are bytes 0 and 1 of the frame, bits 16 to 28 the low
  thirteen bits of the fault code, and bits 29 to 31 the disjunction of the next three bits of the
  fault code with bits 2 to 4 of byte 4. The two highest bits of the 18-bit fault code, bits 0 and 1
  of byte 4, do not reach the word.\<close>

theorem gfcan_protect_status_bits:
  "bit (protect_status (parse_bms0 f st)) n \<longleftrightarrow>
     (if n < 8 then bit (u8_of f 0) n
      else if n < 16 then bit (u8_of f 1) (n - 8)
      else if n < 24 then bit (u8_of f 2) (n - 16)
      else if n < 29 then bit (u8_of f 3) (n - 24)
      else n < 32 \<and> (bit (u8_of f 3) (n - 24) \<or> bit (u8_of f 4) (n - 27)))"
proof -
  have low: "u8_of f 4 AND 3 = take_bit 2 (u8_of f 4)"
    "drop_bit 2 (u8_of f 4) AND 7 = take_bit 3 (drop_bit 2 (u8_of f 4))"
    by (simp_all add: take_bit_eq_mask mask_eq_exp_minus_1)
  have shift: "2 + (n - 29) = n - 27" if "29 \<le> n"
    using that by simp
  show ?thesis
    by (cases "29 \<le> n") (auto simp: parse_bms0_def Let_def bit_simps low shift
        simp del: add_2_eq_Suc add_2_eq_Suc' dest: bit_imp_le_length)
qed

text \<open>C29. The work state: a BMS_1 frame replaces the low byte but only adds to the high byte, which it
  never clears; a BMS_10 frame writes bits 8 to 13 and clears bits 14 and 15; a BMS_11 frame writes
  just those. The header of the parser says "MOS Status / Charger State", and the signal database of
  the firmware has the four MOS bits of BMS_11 in byte 0; the parser takes bits 0 and 1 of byte 1
  instead, two of the three bits of the signal \<open>BMS_State\<close>, and byte 0 has no effect at all.\<close>

theorem gfcan_work_state_bits:
  "(bit (work_state (parse_bms1 f st)) n \<longleftrightarrow>
     (if n < 8 then bit (u8_of f 0) n
      else bit (work_state st) n \<or> n < 16 \<and> bit (u8_of f 1) (n - 8))) \<and>
   (bit (work_state (parse_bms10 f st)) n \<longleftrightarrow>
     (if n < 8 then bit (work_state st) n else n < 14 \<and> bit (u8_of f 0) (n - 8))) \<and>
   (bit (work_state (parse_bms11 f st)) n \<longleftrightarrow>
     (if n < 14 then bit (work_state st) n else n < 16 \<and> bit (u8_of f 1) (n - 14))) \<and>
   parse_bms11 (f\<lparr>can_data := (can_data f)[0 := mos]\<rparr>) st = parse_bms11 f st"
proof (intro conjI)
  have masks: "(0xFF00 :: u16) = push_bit 8 (mask 8)" "(0xFF :: u16) = mask 8"
    "(0x3F :: u8) = mask 6" "(0x3FFF :: u16) = mask 14" "(7 :: u8) = mask 3"
    by (simp_all add: mask_eq_exp_minus_1 push_bit_eq_mult)
  show "bit (work_state (parse_bms1 f st)) n \<longleftrightarrow>
     (if n < 8 then bit (u8_of f 0) n
      else bit (work_state st) n \<or> n < 16 \<and> bit (u8_of f 1) (n - 8))"
    unfolding parse_bms1_def masks
    by (auto simp: u16_le_def u8_of_def bit_simps simp del: push_bit_mask_eq dest: bit_imp_le_length)
  show "bit (work_state (parse_bms10 f st)) n \<longleftrightarrow>
     (if n < 8 then bit (work_state st) n else n < 14 \<and> bit (u8_of f 0) (n - 8))"
    unfolding parse_bms10_def masks by (auto simp: bit_simps dest: bit_imp_le_length)
  show "bit (work_state (parse_bms11 f st)) n \<longleftrightarrow>
     (if n < 14 then bit (work_state st) n else n < 16 \<and> bit (u8_of f 1) (n - 14))"
    unfolding parse_bms11_def masks by (auto simp: bit_simps dest: bit_imp_le_length)
  show "parse_bms11 (f\<lparr>can_data := (can_data f)[0 := mos]\<rparr>) st = parse_bms11 f st"
    by (simp add: parse_bms11_def u8_of_def)
qed

section \<open>The readings\<close>

text \<open>C30. Scaling by 0.1, 0.01 and 0.001 in double arithmetic loses nothing: rounding the reading times
  the scale gives back the integer in the frame, for every frame.\<close>

theorem gfcan_readings_recoverable:
  "round_even (voltage (parse_bms2 f st) * 10) = uint (u16_le f 2) \<and>
   round_even (current (parse_bms2 f st) * 10) = sint (u16_le f 4) - 10000 \<and>
   round_even (max_cell_voltage (parse_bms5 f st) * 1000) = uint (u16_le f 0) \<and>
   round_even (min_cell_voltage (parse_bms5 f st) * 1000) = uint (u16_le f 4) \<and>
   round_even (design_capacity (parse_bms21 f st) * 100) = uint (u16_le f 0) \<and>
   round_even (capacity (parse_bms21 f st) * 100) = uint (u16_le f 2) \<and>
   round_even (charge (parse_bms21 f st) * 100) = uint (u16_le f 6)"
proof -
  have u: "\<bar>uint w\<bar> \<le> 2 ^ 32" for w :: u16
    by (simp, rule order_trans [OF less_imp_le [OF uint_u16_less]]) simp
  have s: "\<bar>sint w - 10000\<bar> \<le> 2 ^ 32" for w :: u16
  proof -
    have "- 32768 \<le> sint w \<and> sint w < 32768" using sint_range_size [of w] by (simp add: word_size)
    then show ?thesis by (auto simp: abs_le_iff)
  qed
  have 10: "round_even (dmul (of_int n) (dlit (1/10)) * 10) = n" if "\<bar>n\<bar> \<le> 2 ^ 32" for n
    using dmul_recover [of 10 n] that by simp
  have 100: "round_even (dmul (of_int n) (dlit (1/100)) * 100) = n" if "\<bar>n\<bar> \<le> 2 ^ 32" for n
    using dmul_recover [of 100 n] that by simp
  have 1000: "round_even (dmul (of_int n) (dlit (1/1000)) * 1000) = n" if "\<bar>n\<bar> \<le> 2 ^ 32" for n
    using dmul_recover [of 1000 n] that by simp
  show ?thesis
    by (simp add: parse_bms2_def parse_bms5_def parse_bms21_def 10 [OF u] 10 [OF s] 100 [OF u] 1000 [OF u]
      del: of_int_diff of_int_uint)
qed

text \<open>The 24 characters of the serial number.\<close>

lemma copy_chars_serial:
  assumes "length sn = 33" "length a = 8" "length b = 8" "length c = 8"
    and "can_data f = a" "can_data g = b" "can_data h = c"
  shows "(copy_chars h 16 (copy_chars g 8 (copy_chars f 0 sn)))[24 := 0] =
    a @ b @ c @ 0 # drop 25 sn"
  using assms
  by (intro nth_equalityI) (auto simp: copy_chars_nth nth_list_update nth_append nth_Cons')

text \<open>The three serial-number frames in any order leave the same record: the 24 characters,
  terminated.\<close>

theorem gfcan_serial_number:
  assumes "map (\<lambda>f. can_id f AND CAN_EFF_MASK) [f, g, h] = [0x18F00603, 0x18F00703, 0x18F00803]"
    and "\<forall>f' \<in> {f, g, h}. length (can_data f') = 8" "length (serial_number st) = 33"
    and "mset fs = mset [f, g, h]"
  shows "fold can_callback fs st = st\<lparr>serial_number :=
    can_data f @ can_data g @ can_data h @ 0 # drop 25 (serial_number st)\<rparr>"
proof -
  have cb: "can_callback f = parse_bms6 f" "can_callback g = parse_bms7 g" "can_callback h = parse_bms8 h"
    using assms(1) by (auto simp: can_callback_def parsers_def)
  have comm: "can_callback x \<circ> can_callback y = can_callback y \<circ> can_callback x"
    if "x \<in> set fs" "y \<in> set fs" for x y
  proof -
    have "set fs = {f, g, h}" using mset_eq_setD [OF assms(4)] by simp
    with that cb show ?thesis
      by (auto simp: fun_eq_iff parse_bms6_def parse_bms7_def parse_bms8_def copy_chars_commute)
  qed
  have "fold can_callback fs st = fold can_callback [f, g, h] st"
    by (rule fun_cong [OF fold_multiset_equiv]) (use comm assms(4) in auto)
  then show ?thesis
    using assms(2,3) by (simp add: cb parse_bms6_def parse_bms7_def parse_bms8_def copy_chars_serial)
qed

theorem gfcan_serial_number_witness:
  "fold can_callback
     [\<lparr>can_id = 0x98F00803, can_dlc = 8, can_data = [3, 3, 3, 3, 3, 3, 3, 3]\<rparr>,
      \<lparr>can_id = 0x98F00603, can_dlc = 8, can_data = [1, 1, 1, 1, 1, 1, 1, 1]\<rparr>,
      \<lparr>can_id = 0x98F00703, can_dlc = 8, can_data = [2, 2, 2, 2, 2, 2, 2, 2]\<rparr>] zero_status =
   zero_status\<lparr>serial_number := replicate 8 1 @ replicate 8 2 @ replicate 8 3 @ replicate 9 0\<rparr>"
  by (subst gfcan_serial_number
      [where f = "\<lparr>can_id = 0x98F00603, can_dlc = 8, can_data = [1, 1, 1, 1, 1, 1, 1, 1]\<rparr>"
        and g = "\<lparr>can_id = 0x98F00703, can_dlc = 8, can_data = [2, 2, 2, 2, 2, 2, 2, 2]\<rparr>"
        and h = "\<lparr>can_id = 0x98F00803, can_dlc = 8, can_data = [3, 3, 3, 3, 3, 3, 3, 3]\<rparr>"])
    (simp_all add: zero_status_def numeral_eq_Suc)

lemma received_append:
  "received (ps @ qs) = received ps @ (if SelectFails \<in> set ps then [] else received qs)"
  by (induction ps rule: received.induct) simp_all

section \<open>What the CAN daemon prints\<close>

text \<open>The last BMS_2 frame of a bus, and a reading of it; 0 before the first one.\<close>

definition is_bms2 :: "can_frame \<Rightarrow> bool" where
  "is_bms2 f \<longleftrightarrow> can_id f AND CAN_EFF_MASK = 0x18F00203"

definition last_reading :: "(battery_status \<Rightarrow> double) \<Rightarrow> can_frame list \<Rightarrow> double" where
  "last_reading get fs =
     (case find is_bms2 (rev fs) of Some f \<Rightarrow> get (parse_bms2 f zero_status) | None \<Rightarrow> 0)"

lemma last_reading_snoc:
  "last_reading get (fs @ [f]) =
     (if is_bms2 f then get (parse_bms2 f zero_status) else last_reading get fs)"
  by (simp add: last_reading_def)

lemma other_frames_keep_power:
  assumes "\<not> is_bms2 f"
  shows "voltage (can_callback f st) = voltage st" "current (can_callback f st) = current st"
    "percentage (can_callback f st) = percentage st"
proof -
  have "voltage (p f st) = voltage st \<and> current (p f st) = current st \<and> percentage (p f st) = percentage st"
    if "(can_id f AND CAN_EFF_MASK, p) \<in> set parsers" for p
    using that assms unfolding parsers_def is_bms2_def
    by (auto simp: parse_bms0_def parse_bms1_def parse_bms3_def parse_bms4_def
        parse_bms5_def parse_bms6_def parse_bms7_def parse_bms8_def parse_bms9_def parse_bms10_def
        parse_bms11_def parse_bms21_def parse_bms22_def Let_def)
  then show "voltage (can_callback f st) = voltage st" "current (can_callback f st) = current st"
    "percentage (can_callback f st) = percentage st"
    by (auto simp: can_callback_def dest!: map_of_SomeD split: option.split)
qed

lemma bms2_callback: "is_bms2 f \<Longrightarrow> can_callback f = parse_bms2 f"
  by (intro ext) (simp add: is_bms2_def can_callback_def parsers_def)

lemma parse_bms2_power:
  "voltage (parse_bms2 f st) = voltage (parse_bms2 f zero_status)"
  "current (parse_bms2 f st) = current (parse_bms2 f zero_status)"
  "percentage (parse_bms2 f st) = percentage (parse_bms2 f zero_status)"
  by (simp_all add: parse_bms2_def)

lemma cached_readings:
  "voltage (fold can_callback fs zero_status) = last_reading voltage fs"
  "current (fold can_callback fs zero_status) = last_reading current fs"
  "percentage (fold can_callback fs zero_status) = last_reading percentage fs"
proof (induction fs rule: rev_induct)
  case Nil
  show "voltage (fold can_callback [] zero_status) = last_reading voltage []"
    "current (fold can_callback [] zero_status) = last_reading current []"
    "percentage (fold can_callback [] zero_status) = last_reading percentage []"
    by (simp_all add: last_reading_def zero_status_def)
next
  case (snoc f fs)
  show "voltage (fold can_callback (fs @ [f]) zero_status) = last_reading voltage (fs @ [f])"
    "current (fold can_callback (fs @ [f]) zero_status) = last_reading current (fs @ [f])"
    "percentage (fold can_callback (fs @ [f]) zero_status) = last_reading percentage (fs @ [f])"
    by (cases "is_bms2 f"; simp add: last_reading_snoc snoc.IH other_frames_keep_power bms2_callback
        parse_bms2_power [of f "fold can_callback fs zero_status"])+
qed

lemma gfcan_receive_same_ref:
  assumes "w_instances w name = None" "new_gfcan name ev arr this w = Inr w1"
  shows "gfcan_receive (ps @ qs) this w1 = gfcan_receive qs this (gfcan_receive ps this w1)"
proof -
  note fresh = new_gfcan_fresh [OF assms]
  obtain c where c: "callbacks c = Map.empty"
    "w_sockets w1 (w_next w) = register_callbacks (bound_callback this) c" using fresh(7) by blast
  then have "can_ref (w_owners (gfcan_receive ps this w1) this) = can_ref (w_owners w1 this)"
    using gfcan_receive_attached [of w1 this this c ps] gfcan_only_fresh [OF c(1)] fresh(1)
    by (simp add: fold_bound_callback)
  then show ?thesis
    unfolding gfcan_receive_def [of "ps @ qs"] gfcan_receive_def [of qs] can_receive_append
    by (simp add: gfcan_receive_def)
qed

text \<open>C25. From the bus to the console: in every iteration the daemon prints the voltage, the current and
  the percentage of the last BMS_2 frame the bus had delivered when each getter ran, and nothing when
  that voltage is zero. A frame that comes between the getters so mixes two frames in one line. The
  frames \<open>fs k\<close> delivered before getter \<open>k\<close> are those let through during the construction of the
  driver and all later ones, in the order of the bus.\<close>

theorem can_daemon_prints_last_readings:
  assumes "w_instances w name = None" "new_gfcan name ev arr0 this w = Inr w1"
    and "cd_driver s = this" "cd_world s = gfcan_receive ps this w1"
    and "fs = (\<lambda>k. setup_frames arr0 @
      (if survives arr0 then received (ps @ concat (map arr [0..<Suc k])) else []))"
  shows "cd_printed (can_daemon_step arr s) = cd_printed s @
      (if last_reading voltage (fs 0) > 0
       then [(last_reading voltage (fs 0), last_reading current (fs 1), last_reading percentage (fs 3))]
       else []) \<and>
    (\<exists>qs. cd_world (can_daemon_step arr s) = gfcan_receive (ps @ qs) this w1)"
proof -
  have w: "seen_by arr k s = gfcan_receive (ps @ concat (map arr [0..<Suc k])) this w1" for k
    by (simp add: seen_by_def assms(3,4) gfcan_receive_same_ref [OF assms(1,2)])
  have c: "cached_of (cd_driver s) (seen_by arr k s) = fold can_callback (fs k) zero_status" for k
    unfolding w assms(3,5) by (rule fresh_driver_cached [OF assms(1,2)])
  have "\<exists>qs. cd_world (can_daemon_step arr s) = gfcan_receive (ps @ qs) this w1"
    using w by (auto simp: can_daemon_step_def Let_def simp del: upt_Suc)
  then show ?thesis
    by (simp add: can_daemon_step_def c cached_readings Let_def)
qed

theorem can_daemon_prints_last_readings_witness:
  "case new_gfcan ''can0'' (CanOpens 4) (\<lambda>j. []) 5 fresh_world of
     Inl e \<Rightarrow> False
   | Inr w \<Rightarrow> cd_printed (can_daemon_step (\<lambda>k. if k = 0 then [SelectReady [\<lparr>can_id = 0x98F00203, can_dlc = 8,
         can_data = [87, 99, 0xE0, 1, 0x10, 0x27, 0, 0]\<rparr>]] else []) (start_can_daemon 5 w)) =
       [(dmul 480 (dlit (1/10)), 0, 87)]"
proof -
  let ?f = "\<lparr>can_id = 0x98F00203, can_dlc = 8, can_data = [87, 99, 0xE0, 1, 0x10, 0x27, 0, 0]\<rparr> :: can_frame"
  let ?arr = "\<lambda>k. if k = (0 :: nat) then [SelectReady [?f]] else []"
  obtain w where w: "new_gfcan ''can0'' (CanOpens 4) (\<lambda>j. []) 5 fresh_world = Inr w"
    using new_gfcan_demo by blast
  have "cd_world (start_can_daemon 5 w) = gfcan_receive [] 5 w" "cd_driver (start_can_daemon 5 w) = 5"
    by (simp_all add: start_can_daemon_def gfcan_receive_def can_receive_def receiver_loop_def)
  note prints = can_daemon_prints_last_readings [OF fresh_world_none w this(2,1) refl, of ?arr]
  have arrived: "received ([] @ concat (map ?arr [0..<Suc k])) = [?f]" for k
    by (induction k) (simp_all add: received_append)
  have "is_bms2 ?f" by (simp add: is_bms2_def)
  moreover have "u16_le ?f 2 = 480" "u16_le ?f 4 = 10000" by (simp_all add: u16_le_def)
  ultimately have "0 < last_reading voltage [?f] \<and> last_reading voltage [?f] = dmul 480 (dlit (1/10)) \<and>
      last_reading current [?f] = 0 \<and> last_reading percentage [?f] = 87"
    by (simp add: last_reading_def parse_bms2_def u8_of_def dmul_def dlit_def rnd_pos)
  moreover have "cd_printed (start_can_daemon 5 w) = []" by (simp add: start_can_daemon_def)
  ultimately have "cd_printed (can_daemon_step ?arr (start_can_daemon 5 w)) = [(dmul 480 (dlit (1/10)), 0, 87)]"
    using prints unfolding arrived by (simp add: quiet_setup)
  then show ?thesis by (simp add: w)
qed

section \<open>The CAN daemon on a bus that fell silent\<close>

lemma received_concat: "(\<And>ps. ps \<in> set pss \<Longrightarrow> received ps = []) \<Longrightarrow> received (concat pss) = []"
  by (induction pss) (simp_all add: received_append)

lemma gfcan_receive_silence:
  "received ps = [] \<Longrightarrow> w_owners (gfcan_receive ps this w) = w_owners w"
  by (simp add: gfcan_receive_def can_receive_fields)

definition silent :: "(nat \<Rightarrow> can_poll list) \<Rightarrow> bool" where
  "silent arr \<longleftrightarrow> (\<forall>k. received (arr k) = [])"

lemma seen_by_silence: "silent arr \<Longrightarrow> w_owners (seen_by arr k s) = w_owners (cd_world s)"
  unfolding seen_by_def
  by (intro gfcan_receive_silence received_concat) (auto simp: silent_def)

lemma can_daemon_step_silence:
  assumes "silent arr"
  shows "cached_of (cd_driver (can_daemon_step arr s)) (cd_world (can_daemon_step arr s)) =
      cached_of (cd_driver s) (cd_world s)"
    "cd_stale (can_daemon_step arr s) =
       (if 0 < voltage (cached_of (cd_driver s) (cd_world s)) then 0 else cd_stale s + 1)"
    "cd_printed (can_daemon_step arr s) = cd_printed s @
       (let c = cached_of (cd_driver s) (cd_world s)
        in if 0 < voltage c then [(voltage c, current c, percentage c)] else [])"
  using assms by (auto simp: can_daemon_step_def cached_of_def seen_by_silence Let_def)

text \<open>C31. When no frame arrives any more, a daemon that has a voltage prints the last readings at
  every iteration and never ends by itself: the fifty iterations count only while no voltage was
  ever seen. One that has none prints nothing and ends at the fiftieth.\<close>

theorem can_daemon_on_silent_bus:
  assumes "\<forall>arr \<in> set arrs. silent arr" "cd_stale s < 50" "c = cached_of (cd_driver s) (cd_world s)"
  shows "case can_daemon_loop arrs s of (ended, s') \<Rightarrow>
    if 0 < voltage c
    then \<not> ended \<and> cd_printed s' = cd_printed s @
      replicate (length arrs) (voltage c, current c, percentage c)
    else (ended \<longleftrightarrow> 50 < cd_stale s + length arrs) \<and> cd_printed s' = cd_printed s"
proof -
  have "case can_daemon_loop arrs s of (ended, s') \<Rightarrow>
    if 0 < voltage c
    then \<not> ended \<and> cd_printed s' = cd_printed s @
      replicate (length arrs) (voltage c, current c, percentage c)
    else (ended \<longleftrightarrow> 50 < cd_stale s + length arrs) \<and> cd_printed s' = cd_printed s"
    if "cd_stale s \<le> 50" "0 < voltage c \<longrightarrow> cd_stale s < 50"
    using that assms(1,3)
  proof (induction arrs arbitrary: s)
    case (Cons arr arrs)
    note step = can_daemon_step_silence [of arr s]
    show ?case
    proof (cases "cd_stale s < 50")
      case True
      then have "case can_daemon_loop arrs (can_daemon_step arr s) of (ended, s') \<Rightarrow>
        if 0 < voltage c
        then \<not> ended \<and> cd_printed s' = cd_printed (can_daemon_step arr s) @
          replicate (length arrs) (voltage c, current c, percentage c)
        else (ended \<longleftrightarrow> 50 < cd_stale (can_daemon_step arr s) + length arrs) \<and>
          cd_printed s' = cd_printed (can_daemon_step arr s)"
        using Cons.prems step by (intro Cons.IH) auto
      with True Cons.prems step show ?thesis by (auto simp: Let_def split: if_splits)
    qed (use Cons.prems in auto)
  qed auto
  with assms(2) show ?thesis by auto
qed

theorem can_daemon_on_silent_bus_witness:
  "fst (can_daemon_loop (replicate 51 (\<lambda>_. [SelectTimeout])) (start_can_daemon 5 fresh_world))"
proof -
  let ?s = "start_can_daemon 5 fresh_world"
  have "case can_daemon_loop (replicate 51 (\<lambda>_. [SelectTimeout])) ?s of (ended, s') \<Rightarrow>
    if 0 < voltage zero_status
    then \<not> ended \<and> cd_printed s' = cd_printed ?s @
      replicate (length (replicate 51 (\<lambda>_ :: nat. [SelectTimeout])))
        (voltage zero_status, current zero_status, percentage zero_status)
    else (ended \<longleftrightarrow> 50 < cd_stale ?s + length (replicate 51 (\<lambda>_ :: nat. [SelectTimeout]))) \<and>
      cd_printed s' = cd_printed ?s"
    by (rule can_daemon_on_silent_bus)
      (simp_all add: silent_def start_can_daemon_def fresh_world_def cached_of_def)
  then show ?thesis by (simp add: zero_status_def start_can_daemon_def split_beta)
qed

end
