(* ===== verification/Serial_Port.thy ===== *)
theory Serial_Port
  imports Bms_Prelude
begin

text \<open>
  \<open>bms::SerialPort\<close> (\<open>src/protocol/serial\<close>) over a model of the kernel side of the line. The
  kernel's behaviour is data: the successive outcomes of \<open>poll()\<close> on an empty receive buffer,
  of \<open>write()\<close> and of \<open>open()\<close> are scripts of the state, so a theorem about every link is a
  theorem about every behaviour of the line. After its script the line stays silent: a poll
  waits for its whole timeout and reports nothing.
\<close>

section \<open>The line as the kernel shows it\<close>

datatype errno = EAGAIN | EINTR | EIO

text \<open>What one \<open>poll()\<close> and the \<open>read()\<close> after it meet when the receive buffer is empty.\<close>

datatype line_event =
    Arrive u8 bytes     \<comment> \<open>bytes arrive: poll reports them readable\<close>
  | Silent              \<comment> \<open>poll times out\<close>
  | PollError           \<comment> \<open>poll returns a negative value\<close>
  | HangUp              \<comment> \<open>poll reports readiness, read returns 0\<close>
  | ReadError errno     \<comment> \<open>poll reports readiness, read fails\<close>

datatype speed = B9600 | B19200 | B115200

datatype open_event =
    OpenFails
  | TcgetattrFails nat
  | TcsetattrFails nat
  | Opens nat           \<comment> \<open>the descriptor \<open>::open\<close> returned\<close>

record link =
  fd :: int                            \<comment> \<open>\<open>fd_\<close>, negative when closed\<close>
  rxbuf :: bytes                       \<comment> \<open>received and not yet read\<close>
  script :: "(line_event \<times> nat) list" \<comment> \<open>coming poll outcomes, each with the ns it takes\<close>
  clock :: nat                         \<comment> \<open>\<open>steady_clock\<close> in ns\<close>
  txlog :: "bytes list"                \<comment> \<open>what each \<open>write()\<close> accepted, newest last\<close>
  writes :: "nat option list"          \<comment> \<open>coming results of \<open>write()\<close>; \<open>None\<close> fails\<close>
  opens :: "open_event list"           \<comment> \<open>coming outcomes of \<open>open()\<close>\<close>
  line_conf :: "(string \<times> speed) option"  \<comment> \<open>port and speed set by the last successful open\<close>

section \<open>poll and read\<close>

datatype poll_read =
    NotReady            \<comment> \<open>poll returned 0\<close>
  | PollFailed          \<comment> \<open>poll returned a negative value\<close>
  | ReadBytes bytes     \<comment> \<open>read returned this many bytes\<close>
  | ReadEof             \<comment> \<open>read returned 0\<close>
  | ReadFailed errno    \<comment> \<open>read returned -1 with this errno\<close>

text \<open>\<open>poll(fd, POLLIN, timeout_ms)\<close>, followed by \<open>read(fd, buf, n)\<close> when it reports readiness.\<close>

definition poll_then_read :: "nat \<Rightarrow> nat \<Rightarrow> link \<Rightarrow> poll_read \<times> link" where
  "poll_then_read n timeout_ms l =
     (if rxbuf l \<noteq> [] then (ReadBytes (take n (rxbuf l)), l\<lparr>rxbuf := drop n (rxbuf l)\<rparr>)
      else (case script l of
        [] \<Rightarrow> (NotReady, l\<lparr>clock := clock l + timeout_ms * 1000000\<rparr>)
      | (e, dt) # es \<Rightarrow>
          (let l' = l\<lparr>script := es, clock := clock l + dt\<rparr>
          in (case e of
               Arrive b bs \<Rightarrow> (ReadBytes (take n (b # bs)), l'\<lparr>rxbuf := drop n (b # bs)\<rparr>)
             | Silent \<Rightarrow> (NotReady, l')
             | PollError \<Rightarrow> (PollFailed, l')
             | HangUp \<Rightarrow> (ReadEof, l')
             | ReadError er \<Rightarrow> (ReadFailed er, l')))))"

text \<open>A negative timeout makes \<open>poll\<close> wait without limit: silence does not end it, and on a line that
  stays silent for ever only a signal does, after which \<open>poll\<close> returns -1.\<close>

definition awake :: "int \<Rightarrow> link \<Rightarrow> link" where
  "awake timeout_ms l =
     (if timeout_ms < 0 \<and> rxbuf l = []
      then let quiet = takeWhile (\<lambda>e. fst e = Silent) (script l);
               rest = dropWhile (\<lambda>e. fst e = Silent) (script l)
           in l\<lparr>script := (if rest = [] then [(PollError, 0)] else rest),
                clock := clock l + sum_list (map snd quiet)\<rparr>
      else l)"

definition poll_read_for :: "nat \<Rightarrow> int \<Rightarrow> link \<Rightarrow> poll_read \<times> link" where
  "poll_read_for n timeout_ms l = poll_then_read n (nat timeout_ms) (awake timeout_ms l)"

section \<open>The operations of SerialPort\<close>

definition serial_is_open :: "link \<Rightarrow> bool" where
  "serial_is_open l \<longleftrightarrow> 0 \<le> fd l"

definition serial_close :: "link \<Rightarrow> link" where
  "serial_close l = (if 0 \<le> fd l then l\<lparr>fd := -1\<rparr> else l)"

definition speed_of_baud :: "int \<Rightarrow> speed" where
  "speed_of_baud baud_rate =
     (if baud_rate = 9600 then B9600
      else if baud_rate = 19200 then B19200
      else if baud_rate = 115200 then B115200
      else B9600)"

definition serial_open :: "string \<Rightarrow> int \<Rightarrow> link \<Rightarrow> bool \<times> link" where
  "serial_open port baud_rate l =
     (let (e, rest) = (case opens l of [] \<Rightarrow> (OpenFails, []) | e # es \<Rightarrow> (e, es));
          l = l\<lparr>opens := rest\<rparr>
      in (case e of
           OpenFails \<Rightarrow> (False, l\<lparr>fd := -1\<rparr>)
         | TcgetattrFails d \<Rightarrow> (False, serial_close (l\<lparr>fd := int d\<rparr>))
         | TcsetattrFails d \<Rightarrow> (False, serial_close (l\<lparr>fd := int d\<rparr>))
         | Opens d \<Rightarrow>
             (True, l\<lparr>fd := int d, line_conf := Some (port, speed_of_baud baud_rate)\<rparr>)))"

text \<open>\<open>write_raw\<close>: the result of \<open>write()\<close>, or -1 on a closed port.\<close>

definition write_raw :: "bytes \<Rightarrow> link \<Rightarrow> int \<times> link" where
  "write_raw data l =
     (if fd l < 0 then (-1, l)
      else let (r, rest) = (case writes l of [] \<Rightarrow> (Some (length data), []) | r # rs \<Rightarrow> (r, rs))
           in (case r of
                None \<Rightarrow> (-1, l\<lparr>writes := rest\<rparr>)
              | Some n \<Rightarrow>
                  (int (min n (length data)),
                   l\<lparr>writes := rest, txlog := txlog l @ [take n data]\<rparr>)))"

datatype read_raw_result = RClosed | RNone | RBytes bytes | RError errno

definition read_raw :: "nat \<Rightarrow> nat \<Rightarrow> link \<Rightarrow> read_raw_result \<times> link" where
  "read_raw max_len timeout_ms l =
     (if fd l < 0 then (RClosed, l)
      else (case poll_then_read max_len timeout_ms l of
        (NotReady, l') \<Rightarrow> (RNone, l')
      | (PollFailed, l') \<Rightarrow> (RNone, l')
      | (ReadEof, l') \<Rightarrow> (RNone, l')
      | (ReadBytes bs, l') \<Rightarrow> (RBytes bs, l')
      | (ReadFailed e, l') \<Rightarrow> (RError e, l')))"

text \<open>\<open>tcflush(fd, TCIOFLUSH)\<close> discards what was received and not read.\<close>

definition serial_flush :: "link \<Rightarrow> link" where
  "serial_flush l = (if 0 \<le> fd l then l\<lparr>rxbuf := []\<rparr> else l)"

definition usleep :: "nat \<Rightarrow> link \<Rightarrow> link" where
  "usleep us l = l\<lparr>clock := clock l + us * 1000\<rparr>"

section \<open>How the operations act on the fields\<close>

lemma serial_flush_fields [port_simps]:
  "fd (serial_flush l) = fd l" "script (serial_flush l) = script l"
  "clock (serial_flush l) = clock l" "txlog (serial_flush l) = txlog l"
  "writes (serial_flush l) = writes l" "opens (serial_flush l) = opens l"
  "line_conf (serial_flush l) = line_conf l"
  "0 \<le> fd l \<Longrightarrow> rxbuf (serial_flush l) = []"
  by (simp_all add: serial_flush_def)

lemma usleep_fields [port_simps]:
  "fd (usleep us l) = fd l" "script (usleep us l) = script l"
  "clock (usleep us l) = clock l + us * 1000" "txlog (usleep us l) = txlog l"
  "writes (usleep us l) = writes l" "opens (usleep us l) = opens l"
  "line_conf (usleep us l) = line_conf l" "rxbuf (usleep us l) = rxbuf l"
  by (simp_all add: usleep_def)

lemma write_raw_fields [port_simps]:
  "fd (snd (write_raw d l)) = fd l" "script (snd (write_raw d l)) = script l"
  "clock (snd (write_raw d l)) = clock l" "opens (snd (write_raw d l)) = opens l"
  "line_conf (snd (write_raw d l)) = line_conf l" "rxbuf (snd (write_raw d l)) = rxbuf l"
  by (simp_all add: write_raw_def Let_def split: list.split option.split)

text \<open>A line that accepts every write whole.\<close>

definition writes_ok :: "link \<Rightarrow> bool" where
  "writes_ok l \<longleftrightarrow> 0 \<le> fd l \<and> writes l = []"

lemma write_raw_ok [port_simps]:
  "writes_ok l \<Longrightarrow> write_raw d l = (int (length d), l\<lparr>txlog := txlog l @ [d]\<rparr>)"
  by (simp add: writes_ok_def write_raw_def)

lemma write_raw_closed [port_simps]: "fd l < 0 \<Longrightarrow> write_raw d l = (-1, l)"
  by (simp add: write_raw_def)

lemma writes_ok_flush [port_simps]: "writes_ok (serial_flush l) = writes_ok l"
  by (simp add: writes_ok_def port_simps)

lemma writes_ok_usleep [port_simps]: "writes_ok (usleep us l) = writes_ok l"
  by (simp add: writes_ok_def port_simps)

lemma serial_open_fd:
  "serial_open p b l = (ok, l') \<Longrightarrow> ok = serial_is_open l'"
  by (auto simp: serial_open_def serial_is_open_def serial_close_def Let_def
      split: list.splits open_event.splits)

lemma poll_then_read_fields:
  assumes "poll_then_read n t l = (r, l')"
  shows "fd l' = fd l" "txlog l' = txlog l" "writes l' = writes l" "opens l' = opens l"
    "line_conf l' = line_conf l" "clock l \<le> clock l'"
  using assms
  by (auto simp: poll_then_read_def Let_def split: if_splits list.splits prod.splits line_event.splits)

lemma awake_fields:
  "fd (awake t l) = fd l" "txlog (awake t l) = txlog l" "writes (awake t l) = writes l"
  "opens (awake t l) = opens l" "line_conf (awake t l) = line_conf l" "rxbuf (awake t l) = rxbuf l"
  "clock l \<le> clock (awake t l)"
  by (simp_all add: awake_def Let_def)

lemma poll_read_for_fields:
  assumes "poll_read_for n t l = (r, l')"
  shows "fd l' = fd l" "txlog l' = txlog l" "writes l' = writes l" "opens l' = opens l"
    "line_conf l' = line_conf l" "clock l \<le> clock l'"
  using poll_then_read_fields [OF assms [unfolded poll_read_for_def]] awake_fields [where t = t and l = l]
  by (simp_all add: order_trans)

section \<open>Bytes on their way to the reader\<close>

fun event_bytes :: "line_event \<times> nat \<Rightarrow> bytes" where
  "event_bytes (Arrive b bs, dt) = b # bs"
| "event_bytes (_, dt) = []"

definition incoming :: "link \<Rightarrow> bytes" where
  "incoming l = rxbuf l @ concat (map event_bytes (script l))"

text \<open>The number of polls and bytes still to come, a measure for the read loops.\<close>

definition pending_size :: "link \<Rightarrow> nat" where
  "pending_size l = length (rxbuf l) + sum_list (map (\<lambda>e. Suc (length (event_bytes e))) (script l))"

lemma poll_then_read_incoming:
  assumes "poll_then_read n t l = (r, l')"
  shows "incoming l = (case r of ReadBytes bs \<Rightarrow> bs | _ \<Rightarrow> []) @ incoming l'"
  using assms
  by (auto simp: poll_then_read_def incoming_def Let_def
      split: if_splits list.splits prod.splits line_event.splits)

lemma poll_then_read_pending:
  assumes "poll_then_read n t l = (r, l')" "0 < n"
  shows "pending_size l' < pending_size l \<or>
    r = NotReady \<and> rxbuf l = [] \<and> script l = [] \<and> l' = l\<lparr>clock := clock l + t * 1000000\<rparr>"
  using assms
  by (auto simp: poll_then_read_def pending_size_def Let_def
      split: if_splits list.splits prod.splits line_event.splits)

lemma poll_then_read_bytes:
  "poll_then_read n t l = (ReadBytes bs, l') \<Longrightarrow> 0 < n \<Longrightarrow> 0 < length bs \<and> length bs \<le> n"
  by (auto simp: poll_then_read_def Let_def
      split: if_splits list.splits prod.splits line_event.splits)

lemma poll_then_read_progress:
  "poll_then_read (n - k) t l = (ReadBytes bs, l') \<Longrightarrow> k < n \<Longrightarrow>
    n - (k + length bs) < n - k \<and> k + length bs \<le> n"
  using poll_then_read_bytes [of "n - k" t l bs l'] by linarith

lemma poll_read_for_progress:
  "poll_read_for (n - k) t l = (ReadBytes bs, l') \<Longrightarrow> k < n \<Longrightarrow>
    n - (k + length bs) < n - k \<and> k + length bs \<le> n"
  unfolding poll_read_for_def by (rule poll_then_read_progress)

text \<open>The bytes a reader that gives up at the first event other than an arrival can collect.\<close>

fun is_arrival :: "line_event \<times> nat \<Rightarrow> bool" where
  "is_arrival (Arrive b bs, dt) = True"
| "is_arrival (_, dt) = False"

definition ready_bytes :: "link \<Rightarrow> bytes" where
  "ready_bytes l = rxbuf l @ concat (map event_bytes (takeWhile is_arrival (script l)))"

lemma poll_then_read_ready:
  assumes "poll_then_read n t l = (r, l')"
  shows "ready_bytes l = (case r of ReadBytes bs \<Rightarrow> bs @ ready_bytes l' | _ \<Rightarrow> [])"
proof (cases "rxbuf l = []")
  case False
  with assms show ?thesis by (auto simp: poll_then_read_def ready_bytes_def)
next
  case True
  show ?thesis
  proof (cases "script l")
    case Nil
    with True assms show ?thesis by (auto simp: poll_then_read_def ready_bytes_def)
  next
    case (Cons e es)
    obtain ev dt where e: "e = (ev, dt)" by (cases e)
    from True Cons assms show ?thesis
      by (cases ev) (auto simp: e poll_then_read_def ready_bytes_def Let_def
        simp flip: append_Cons append_assoc)
  qed
qed

text \<open>The bytes that arrive without a pause longer than the timeout; with a negative timeout no pause
  is too long.\<close>

definition ready_bytes_for :: "int \<Rightarrow> link \<Rightarrow> bytes" where
  "ready_bytes_for timeout_ms l =
     (if timeout_ms < 0
      then rxbuf l @ concat (map event_bytes
             (takeWhile is_arrival (filter (\<lambda>e. fst e \<noteq> Silent) (script l))))
      else ready_bytes l)"

lemma poll_read_for_ready:
  assumes "poll_read_for n t l = (r, l')"
  shows "ready_bytes_for t l = (case r of ReadBytes bs \<Rightarrow> bs @ ready_bytes_for t l' | _ \<Rightarrow> [])"
proof (cases "t < 0")
  case False
  then have "awake t l = l" by (simp add: awake_def)
  with assms have "poll_then_read n (nat t) l = (r, l')" by (simp add: poll_read_for_def)
  from poll_then_read_ready [OF this] False show ?thesis
    by (auto simp: ready_bytes_for_def split: poll_read.split)
next
  case neg: True
  show ?thesis
  proof (cases "rxbuf l = []")
    case False
    with assms neg show ?thesis
      by (auto simp: poll_read_for_def awake_def poll_then_read_def ready_bytes_for_def)
  next
    case True
    define rest where "rest = dropWhile (\<lambda>e. fst e = Silent) (script l)"
    have "filter (\<lambda>e. fst e \<noteq> Silent) (takeWhile (\<lambda>e. fst e = Silent) (script l)) = []"
      by (auto simp: filter_empty_conv dest: set_takeWhileD)
    then have heard: "filter (\<lambda>e. fst e \<noteq> Silent) (script l) = filter (\<lambda>e. fst e \<noteq> Silent) rest"
      unfolding rest_def by (metis append_Nil filter_append takeWhile_dropWhile_id)
    show ?thesis
    proof (cases rest)
      case Nil
      with assms neg True heard show ?thesis
        by (auto simp: poll_read_for_def awake_def poll_then_read_def ready_bytes_for_def Let_def
            simp flip: rest_def)
    next
      case (Cons e es)
      obtain ev dt where e: "e = (ev, dt)" by (cases e)
      have "ev \<noteq> Silent"
        using hd_dropWhile [of "\<lambda>e. fst e = Silent" "script l"] Cons e by (simp flip: rest_def)
      with assms neg True heard Cons e show ?thesis
        by (cases ev) (auto simp: poll_read_for_def awake_def poll_then_read_def ready_bytes_for_def
            Let_def simp flip: rest_def append_Cons append_assoc)
    qed
  qed
qed

text \<open>After a flush only future arrivals count.\<close>

definition arriving :: "link \<Rightarrow> bytes" where
  "arriving l = concat (map event_bytes (takeWhile is_arrival (script l)))"

definition arriving_for :: "int \<Rightarrow> link \<Rightarrow> bytes" where
  "arriving_for timeout_ms l = ready_bytes_for timeout_ms (l\<lparr>rxbuf := []\<rparr>)"

lemma ready_bytes_flushed:
  "rxbuf l = [] \<Longrightarrow> ready_bytes l = arriving l"
  by (simp add: ready_bytes_def arriving_def)

text \<open>What arrives in one go is read with every timeout.\<close>

lemma arriving_ready_for:
  assumes "rxbuf l = []"
  shows "\<exists>more. ready_bytes_for t l = arriving l @ more"
proof (cases "t < 0")
  case True
  have "\<exists>more. takeWhile is_arrival (filter (\<lambda>e. fst e \<noteq> Silent) es) = takeWhile is_arrival es @ more"
    for es :: "(line_event \<times> nat) list"
  proof (induction es)
    case (Cons e es)
    then show ?case by (cases "(fst e, snd e)" rule: is_arrival.cases) (cases e; auto)+
  qed simp
  then obtain more where "takeWhile is_arrival (filter (\<lambda>e. fst e \<noteq> Silent) (script l)) =
      takeWhile is_arrival (script l) @ more" by blast
  with True assms show ?thesis by (simp add: ready_bytes_for_def arriving_def)
qed (use assms in \<open>simp add: ready_bytes_for_def ready_bytes_flushed\<close>)

text \<open>A concrete line for the witnesses: open, every byte arriving alone after 1000 ns.\<close>

definition byte_line :: "bytes \<Rightarrow> link" where
  "byte_line bs = \<lparr>fd = 3, rxbuf = [], script = map (\<lambda>b. (Arrive b [], 1000)) bs, clock = 0,
     txlog = [], writes = [], opens = [], line_conf = None\<rparr>"

lemma byte_line_simps [simp]:
  "fd (byte_line bs) = 3" "rxbuf (byte_line bs) = []" "clock (byte_line bs) = 0"
  "script (byte_line bs) = map (\<lambda>b. (Arrive b [], 1000)) bs" "writes (byte_line bs) = []"
  "opens (byte_line bs) = []"
  by (simp_all add: byte_line_def)

lemma arriving_byte_line [simp]: "arriving (byte_line bs) = bs"
proof -
  have all: "takeWhile is_arrival (map (\<lambda>b. (Arrive b [], 1000)) bs) =
      map (\<lambda>b. (Arrive b [], 1000)) bs"
    by (simp only: takeWhile_eq_all_conv) auto
  have "concat (map event_bytes (map (\<lambda>b. (Arrive b [], 1000)) bs)) = bs"
    by (induction bs) simp_all
  then show ?thesis by (simp only: arriving_def byte_line_simps all)
qed

end
