(* ===== verification/Reader_Interface.thy ===== *)
theory Reader_Interface
  imports Battery_Status Serial_Port
begin

text \<open>
  What the daemon relies on when it asks a protocol for one group of fields. The daemon's
  merge loop copies three groups (\<open>src/bms_daemon.cpp\<close>); a reader either fails and leaves the
  record alone, or succeeds and changes nothing outside its group.
\<close>

type_synonym reader = "battery_status \<Rightarrow> link \<Rightarrow> (bool \<times> battery_status \<times> link) option"

section \<open>The groups of the merge loop\<close>

definition copy_basic :: "battery_status \<Rightarrow> battery_status \<Rightarrow> battery_status" where
  "copy_basic raw st = st\<lparr>voltage := voltage raw, current := current raw,
     temperature := temperature raw, protect_status := protect_status raw,
     work_state := work_state raw, max_cell_voltage := max_cell_voltage raw,
     min_cell_voltage := min_cell_voltage raw, cycles := cycles raw\<rparr>"

definition copy_capacity :: "battery_status \<Rightarrow> battery_status \<Rightarrow> battery_status" where
  "copy_capacity raw st = st\<lparr>percentage := percentage raw, charge := charge raw,
     capacity := capacity raw, design_capacity := design_capacity raw, soh := soh raw\<rparr>"

definition copy_io :: "battery_status \<Rightarrow> battery_status \<Rightarrow> battery_status" where
  "copy_io raw st = st\<lparr>io_state := io_state raw, power_on := power_on raw\<rparr>"

lemmas copy_defs = copy_basic_def copy_capacity_def copy_io_def

section \<open>The contract of a reader\<close>

text \<open>
  Whether a read succeeds, what it writes and what it does to the port depend on the port
  alone (\<open>read_cases\<close>); the update commutes with transplanting the group into another record,
  so it neither reads nor writes a field outside it; it never touches the cycle count; a closed
  port never answers; and no read opens or closes the port.
\<close>

locale group_reader =
  fixes read :: reader
    and copy :: "battery_status \<Rightarrow> battery_status \<Rightarrow> battery_status"
  assumes read_cases:
    "\<exists>ok f l'. (\<forall>st. read st l = Some (ok, if ok then f st else st, l')) \<and>
       (\<forall>st y. f (copy st y) = copy (f st) y) \<and> (\<forall>st. cycles (f st) = cycles st) \<and>
       (ok \<longrightarrow> 0 \<le> fd l) \<and> fd l' = fd l \<and> opens l' = opens l"
    and copy_same: "copy st st = st"
begin

lemma read_total: "\<exists>ok st' l'. read st l = Some (ok, st', l')"
  using read_cases [of l] by blast

lemma readE:
  assumes "read st l = Some (ok, st', l')"
  obtains f where "st' = (if ok then f st else st)"
    "\<And>x. read x l = Some (ok, if ok then f x else x, l')"
    "\<And>x y. f (copy x y) = copy (f x) y" "\<And>x. cycles (f x) = cycles x"
    "ok \<Longrightarrow> 0 \<le> fd l" "fd l' = fd l" "opens l' = opens l"
proof -
  obtain ok1 f l1 where r: "\<And>x. read x l = Some (ok1, if ok1 then f x else x, l1)"
    and rest: "\<And>x y. f (copy x y) = copy (f x) y" "\<And>x. cycles (f x) = cycles x"
      "ok1 \<Longrightarrow> 0 \<le> fd l" "fd l1 = fd l" "opens l1 = opens l"
    using read_cases [of l] by blast
  from r [of st] assms have "ok1 = ok" "l1 = l'" "st' = (if ok then f st else st)" by auto
  with r rest show thesis by (intro that [of f]) auto
qed

lemma read_fail: "read st l = Some (False, st', l') \<Longrightarrow> st' = st"
  by (auto elim: readE)

lemma read_group: "read st l = Some (ok, st', l') \<Longrightarrow> st' = copy st' st"
proof (erule readE)
  fix f assume "st' = (if ok then f st else st)" "\<And>x y. f (copy x y) = copy (f x) y"
  then show "st' = copy st' st" using copy_same by (metis (full_types))
qed

lemma read_keeps_port: "read st l = Some (ok, st', l') \<Longrightarrow> fd l' = fd l \<and> opens l' = opens l"
  by (auto elim: readE)

lemma read_closed: "fd l < 0 \<Longrightarrow> read st l = Some (ok, st', l') \<Longrightarrow> \<not> ok"
  by (auto elim!: readE)

lemma read_cycles: "read st l = Some (ok, st', l') \<Longrightarrow> cycles st' = cycles st"
  by (auto elim!: readE)

text \<open>Reading into a record whose group agrees with another's gives the same group.\<close>

lemma read_transplant:
  assumes "read st l = Some (ok, st', l')"
  shows "read (copy st y) l = Some (ok, if ok then copy st' y else copy st y, l')"
  using assms by (auto elim!: readE)

end

section \<open>The contract of a snapshot reader\<close>

text \<open>
  One transaction fills the whole record or nothing: the outcome depends on the port alone, a
  success replaces every field but the serial number, which no status reader of the program
  sets, and a failure leaves the record as it is.
\<close>

locale snapshot_reader =
  fixes read :: reader
  assumes snapshot_cases:
    "\<exists>ok snap l'. (\<forall>st. read st l =
         Some (ok, if ok then snap\<lparr>serial_number := serial_number st\<rparr> else st, l')) \<and>
       (ok \<longrightarrow> 0 \<le> fd l) \<and> fd l' = fd l \<and> opens l' = opens l"
begin

lemma snapshotE:
  assumes "read st l = Some (ok, st', l')"
  obtains snap where
    "\<And>x. read x l = Some (ok, if ok then snap\<lparr>serial_number := serial_number x\<rparr> else x, l')"
    "st' = (if ok then snap\<lparr>serial_number := serial_number st\<rparr> else st)"
    "ok \<Longrightarrow> 0 \<le> fd l" "fd l' = fd l" "opens l' = opens l"
proof -
  obtain ok1 snap l1 where
    r: "\<And>x. read x l = Some (ok1, if ok1 then snap\<lparr>serial_number := serial_number x\<rparr> else x, l1)"
    and rest: "ok1 \<Longrightarrow> 0 \<le> fd l" "fd l1 = fd l" "opens l1 = opens l"
    using snapshot_cases [of l] by blast
  from r [of st] assms have "ok1 = ok" "l1 = l'"
    "st' = (if ok then snap\<lparr>serial_number := serial_number st\<rparr> else st)" by auto
  with r rest show thesis by (intro that [of snap]) auto
qed

lemma snapshot_total: "\<exists>ok st' l'. read st l = Some (ok, st', l')"
  using snapshot_cases [of l] by blast

lemma snapshot_same:
  assumes "read st l = Some (True, st', l')" "serial_number x = serial_number st"
  shows "read x l = Some (True, st', l')"
  using assms by (auto elim!: snapshotE)

end

section \<open>The three readers of a field-wise protocol\<close>

lemma copy_same [simp]:
  "copy_basic st st = st" "copy_capacity st st = st" "copy_io st st = st"
  by (simp_all add: copy_defs)

locale fieldwise_protocol =
  basic: group_reader read_basic copy_basic +
  cap: group_reader read_capacity copy_capacity +
  io: group_reader read_io copy_io
  for read_basic read_capacity read_io :: reader

section \<open>Establishing the contract\<close>

text \<open>A reader that sends a request, waits for a response and decodes it fits the contract when
  its decoder is defined on every response of the requested length.\<close>

lemma group_readerI:
  assumes shape: "\<And>st l. read st l =
      (case query l of (ok, buf, l') \<Rightarrow>
         if ok then map_option (\<lambda>s. (True, s, l')) (decode buf st) else Some (False, st, l'))"
    and query: "\<And>l ok buf l'. query l = (ok, buf, l') \<Longrightarrow>
      (ok \<longrightarrow> 0 \<le> fd l \<and> length buf = n) \<and> fd l' = fd l \<and> opens l' = opens l"
    and decode: "\<And>buf. length buf = n \<Longrightarrow> \<exists>f. (\<forall>st. decode buf st = Some (f st)) \<and>
      (\<forall>st y. f (copy st y) = copy (f st) y) \<and> (\<forall>st. cycles (f st) = cycles st)"
    and same: "\<And>st. copy st st = st"
  shows "group_reader read copy"
proof unfold_locales
  fix l
  obtain ok buf l' where q: "query l = (ok, buf, l')" by (metis surj_pair)
  show "\<exists>ok f l'. (\<forall>st. read st l = Some (ok, if ok then f st else st, l')) \<and>
       (\<forall>st y. f (copy st y) = copy (f st) y) \<and> (\<forall>st. cycles (f st) = cycles st) \<and>
       (ok \<longrightarrow> 0 \<le> fd l) \<and> fd l' = fd l \<and> opens l' = opens l"
  proof (cases ok)
    case True
    with query [OF q] decode [of buf] obtain f where
      "\<forall>st. decode buf st = Some (f st)" "\<forall>st y. f (copy st y) = copy (f st) y"
      "\<forall>st. cycles (f st) = cycles st" by blast
    with True query [OF q] show ?thesis
      by (intro exI [of _ True] exI [of _ f] exI [of _ l']) (simp add: shape q)
  next
    case False
    with query [OF q] show ?thesis
      by (intro exI [of _ False] exI [of _ "\<lambda>st. st"] exI [of _ l']) (simp add: shape q)
  qed
qed (rule same)

end
