(* ===== verification/Daemon_Loop.thy ===== *)
theory Daemon_Loop
  imports Reader_Interface
begin

text \<open>
  The template \<open>run_daemon\<close> of \<open>src/bms_daemon.cpp\<close>: the startup, one round of its main loop in
  both variants of the \<open>if constexpr\<close>, the broadcast, the reopening of the port and the shutdown.
  What the protocol and the port must provide is the locale \<open>daemon_loop\<close>; the facts about the
  loop are proved once inside it.
\<close>

section \<open>The two variants of a round's read\<close>

text \<open>A phase maps \<open>status_to_send\<close> and the port to \<open>ok_read\<close>, \<open>show_power\<close>, the new
  \<open>status_to_send\<close> and the port.\<close>

type_synonym phase =
  "battery_status \<Rightarrow> link \<Rightarrow> (bool \<times> bool \<times> battery_status \<times> link) option"

definition snapshot_phase :: "reader \<Rightarrow> phase" where
  "snapshot_phase read_all status_to_send l = do {
     (ok_read, raw_data, l) \<leftarrow> read_all zero_status l;
     Some (ok_read, ok_read, if ok_read then raw_data else status_to_send, l)
   }"

definition legacy_phase :: "reader \<Rightarrow> reader \<Rightarrow> reader \<Rightarrow> phase" where
  "legacy_phase read_basic read_capacity read_io status_to_send l = do {
     (ok_basic, raw_data, l) \<leftarrow> read_basic zero_status l;
     let l = usleep 50000 l;
     (ok_capacity, raw_data, l) \<leftarrow> read_capacity raw_data l;
     (ok_io_state, raw_data, l) \<leftarrow> read_io raw_data l;
     let ok_read = (ok_basic \<or> ok_capacity \<or> ok_io_state);
     let s = status_to_send;
     let s = (if ok_basic then copy_basic raw_data s else s);
     let s = (if ok_capacity then copy_capacity raw_data s else s);
     let s = (if ok_io_state
              then (let s = copy_io raw_data s
                    in if \<not> ok_basic \<and> max_cell_voltage raw_data > 0
                       then s\<lparr>max_cell_voltage := max_cell_voltage raw_data,
                              min_cell_voltage := min_cell_voltage raw_data\<rparr>
                       else s)
              else s);
     Some (ok_read, ok_io_state, if ok_read then s else status_to_send, l)
   }"

section \<open>The broadcast\<close>

text \<open>What \<open>write()\<close> to a client does. A client that has closed its end raises \<open>SIGPIPE\<close>, for
  which \<open>main\<close> installs no handler.\<close>

datatype write_outcome = Wrote nat | WriteFails | SigPipe

text \<open>The loop over the clients: whether the process was killed, the clients kept, and the records
  handed to the kernel with the number of bytes it took.\<close>

fun broadcast ::
    "(int \<Rightarrow> write_outcome) \<Rightarrow> battery_status \<Rightarrow> int list \<Rightarrow>
     bool \<times> int list \<times> (int \<times> nat \<times> battery_status) list" where
  "broadcast w st [] = (False, [], [])"
| "broadcast w st (c # cs) =
     (case w c of
        SigPipe \<Rightarrow> (True, c # cs, [])
      | WriteFails \<Rightarrow> broadcast w st cs
      | Wrote n \<Rightarrow> (let (killed, kept, sent) = broadcast w st cs in (killed, c # kept, (c, n, st) # sent)))"

section \<open>One round\<close>

datatype console_line =
    Data battery_status bool      \<comment> \<open>the record, and whether the power state is shown\<close>
  | ReadFailure nat
  | Reopening
  | NewClient

record daemon =
  d_link :: link
  d_status :: battery_status                       \<comment> \<open>\<open>status_to_send\<close>\<close>
  d_clients :: "int list"
  d_failures :: nat                                \<comment> \<open>\<open>failure_count\<close>\<close>
  d_sent :: "(int \<times> nat \<times> battery_status) list"   \<comment> \<open>all records written, newest last\<close>
  d_console :: "console_line list"

text \<open>What the outside does during a round: the outcome of each client write, the results of
  \<open>select\<close> and \<open>accept\<close>, and the time \<open>select\<close> took.\<close>

record round_env =
  re_write :: "int \<Rightarrow> write_outcome"
  re_select :: int
  re_accept :: int
  re_select_us :: nat

datatype outcome = Running daemon | Killed daemon

fun outcome_state :: "outcome \<Rightarrow> daemon" where
  "outcome_state (Running d) = d"
| "outcome_state (Killed d) = d"

definition accept_client :: "round_env \<Rightarrow> daemon \<Rightarrow> daemon" where
  "accept_client env d =
     (if re_select env > 0 \<and> re_accept env \<ge> 0
      then d\<lparr>d_clients := d_clients d @ [re_accept env], d_console := d_console d @ [NewClient]\<rparr>
      else d)"

definition end_of_round :: "round_env \<Rightarrow> daemon \<Rightarrow> daemon" where
  "end_of_round env d =
     (let d = d\<lparr>d_link := usleep (re_select_us env) (d_link d)\<rparr>;
          d = accept_client env d
      in d\<lparr>d_link := usleep 1000000 (d_link d)\<rparr>)"

definition read_failed :: "(link \<Rightarrow> bool \<times> link) \<Rightarrow> (link \<Rightarrow> link) \<Rightarrow> daemon \<Rightarrow> daemon" where
  "read_failed open_port close_port d =
     (let n = d_failures d + 1;
          d = d\<lparr>d_failures := n, d_console := d_console d @ [ReadFailure n]\<rparr>
      in if n \<ge> 5
         then let l = close_port (d_link d);
                  l = usleep 1000000 l;
                  (_, l) = open_port l
              in d\<lparr>d_link := l, d_failures := 0, d_console := d_console d @ [Reopening]\<rparr>
         else d)"

definition daemon_round ::
    "phase \<Rightarrow> (link \<Rightarrow> bool \<times> link) \<Rightarrow> (link \<Rightarrow> link) \<Rightarrow> round_env \<Rightarrow> daemon \<Rightarrow> outcome option" where
  "daemon_round phase open_port close_port env d = do {
     (ok_read, show_power, st, l) \<leftarrow> phase (d_status d) (d_link d);
     let d = d\<lparr>d_status := st, d_link := l\<rparr>;
     if ok_read
     then let d = d\<lparr>d_failures := 0, d_console := d_console d @ [Data st show_power]\<rparr>;
              (killed, kept, sent) = broadcast (re_write env) st (d_clients d);
              d = d\<lparr>d_clients := kept, d_sent := d_sent d @ sent\<rparr>
          in Some (if killed then Killed d else Running (end_of_round env d))
     else Some (Running (end_of_round env (read_failed open_port close_port d)))
   }"

text \<open>\<open>while (g_running)\<close>: one round for each environment until a signal ends the list.\<close>

fun daemon_rounds ::
    "phase \<Rightarrow> (link \<Rightarrow> bool \<times> link) \<Rightarrow> (link \<Rightarrow> link) \<Rightarrow> round_env list \<Rightarrow> daemon \<Rightarrow> outcome option" where
  "daemon_rounds phase op cl [] d = Some (Running d)"
| "daemon_rounds phase op cl (env # envs) d =
     (case daemon_round phase op cl env d of
        None \<Rightarrow> None
      | Some (Killed d') \<Rightarrow> Some (Killed d')
      | Some (Running d') \<Rightarrow> daemon_rounds phase op cl envs d')"

text \<open>The states at the beginning of the rounds that are run, the last of which may not end.\<close>

fun round_starts ::
    "phase \<Rightarrow> (link \<Rightarrow> bool \<times> link) \<Rightarrow> (link \<Rightarrow> link) \<Rightarrow> round_env list \<Rightarrow> daemon \<Rightarrow> daemon list" where
  "round_starts phase op cl [] d = []"
| "round_starts phase op cl (env # envs) d =
     d # (case daemon_round phase op cl env d of
            Some (Running d') \<Rightarrow> round_starts phase op cl envs d'
          | _ \<Rightarrow> [])"

section \<open>Startup and shutdown\<close>

text \<open>\<open>while (g_running && !proto.open()) sleep_for(2s)\<close>, for the number of times \<open>g_running\<close> is
  found set.\<close>

fun wait_open :: "(link \<Rightarrow> bool \<times> link) \<Rightarrow> nat \<Rightarrow> link \<Rightarrow> bool \<times> link" where
  "wait_open op 0 l = (False, l)"
| "wait_open op (Suc n) l =
     (let (ok, l) = op l in if ok then (True, l) else wait_open op n (usleep 2000000 l))"

record start_env =
  se_attempts :: nat
  se_running :: bool     \<comment> \<open>\<open>g_running\<close> after the loop\<close>
  se_socket :: int
  se_bind :: int
  se_listen :: int

datatype daemon_exit =
    NotStarted link
  | SocketFailed link
  | BindFailed link
  | ListenFailed link
  | Shutdown daemon
  | KilledBySignal daemon

definition initial_daemon :: "link \<Rightarrow> daemon" where
  "initial_daemon l = \<lparr>d_link = l, d_status = zero_status, d_clients = [], d_failures = 0,
     d_sent = [], d_console = []\<rparr>"

text \<open>The clients, the server socket and its path go; the port stays with the protocol object.\<close>

definition shut_down :: "daemon \<Rightarrow> daemon" where
  "shut_down d = d\<lparr>d_clients := []\<rparr>"

lemma shut_down_fields [simp]:
  "d_failures (shut_down d) = d_failures d" "d_sent (shut_down d) = d_sent d"
  "d_link (shut_down d) = d_link d" "d_status (shut_down d) = d_status d"
  by (simp_all add: shut_down_def)

text \<open>\<open>static_info\<close> is not initialised in the code: \<open>junk\<close> is whatever its memory held.\<close>

definition run_daemon ::
    "phase \<Rightarrow> (link \<Rightarrow> bool \<times> link) \<Rightarrow> (link \<Rightarrow> link) \<Rightarrow> reader \<Rightarrow> battery_status \<Rightarrow>
     start_env \<Rightarrow> round_env list \<Rightarrow> link \<Rightarrow> daemon_exit option" where
  "run_daemon phase op cl read_version_info junk start envs l =
     (let (opened, l) = wait_open op (se_attempts start) l
      in if \<not> opened \<or> \<not> se_running start then Some (NotStarted l)
         else do {
           (_, static_info, l) \<leftarrow> read_version_info junk l;
           if se_socket start < 0 then Some (SocketFailed l)
           else if se_bind start < 0 then Some (BindFailed l)
           else if se_listen start < 0 then Some (ListenFailed l)
           else do {
             r \<leftarrow> daemon_rounds phase op cl envs (initial_daemon l);
             Some (case r of
                 Running d \<Rightarrow> Shutdown (shut_down d)
               | Killed d \<Rightarrow> KilledBySignal d)
           }
         })"

section \<open>The broadcast loop\<close>

definition pipe_broken :: "(int \<Rightarrow> write_outcome) \<Rightarrow> int list \<Rightarrow> bool" where
  "pipe_broken w cs \<longleftrightarrow> (\<exists>c \<in> set cs. w c = SigPipe)"

lemma broadcast_killed: "fst (broadcast w st cs) = pipe_broken w cs"
  by (induction cs) (auto simp: pipe_broken_def split: write_outcome.splits prod.splits)

lemma broadcast_sent_status: "(c, n, s) \<in> set (snd (snd (broadcast w st cs))) \<Longrightarrow> s = st"
  by (induction cs) (auto split: write_outcome.splits prod.splits)

lemma broadcast_sent:
  "list_all (\<lambda>(c, n, s). s = st \<and> c \<in> set cs) (snd (snd (broadcast w st cs)))"
  by (induction cs) (auto simp: list_all_iff split: write_outcome.splits prod.splits)

lemma broadcast_alive:
  "\<not> pipe_broken w cs \<Longrightarrow> broadcast w st cs =
    (False, filter (\<lambda>c. w c \<noteq> WriteFails) cs,
     concat (map (\<lambda>c. case w c of Wrote n \<Rightarrow> [(c, n, st)] | _ \<Rightarrow> []) cs))"
  by (induction cs) (auto simp: pipe_broken_def split: write_outcome.splits)

section \<open>A round by its outcomes\<close>

text \<open>The state after the broadcast.\<close>

definition published :: "round_env \<Rightarrow> bool \<Rightarrow> battery_status \<Rightarrow> link \<Rightarrow> daemon \<Rightarrow> daemon" where
  "published env show_power st l d =
     d\<lparr>d_status := st, d_link := l, d_failures := 0,
       d_console := d_console d @ [Data st show_power],
       d_clients := fst (snd (broadcast (re_write env) st (d_clients d))),
       d_sent := d_sent d @ snd (snd (broadcast (re_write env) st (d_clients d)))\<rparr>"

lemma daemon_round_eq:
  assumes "phase (d_status d) (d_link d) = Some (ok, show_power, st, l)"
  shows "daemon_round phase op cl env d = Some
    (if \<not> ok then Running (end_of_round env (read_failed op cl (d\<lparr>d_status := st, d_link := l\<rparr>)))
     else if pipe_broken (re_write env) (d_clients d) then Killed (published env show_power st l d)
     else Running (end_of_round env (published env show_power st l d)))"
proof -
  obtain b kept sent where br: "broadcast (re_write env) st (d_clients d) = (b, kept, sent)"
    by (metis surj_pair)
  then have "b = pipe_broken (re_write env) (d_clients d)"
    using broadcast_killed [of "re_write env" st "d_clients d"] by simp
  with assms show ?thesis
    by (simp add: daemon_round_def published_def br Let_def)
qed

lemma end_of_round_fields [round_simps]:
  "fd (d_link (end_of_round env d)) = fd (d_link d)"
  "opens (d_link (end_of_round env d)) = opens (d_link d)"
  "d_failures (end_of_round env d) = d_failures d"
  "d_status (end_of_round env d) = d_status d"
  "d_sent (end_of_round env d) = d_sent d"
  "d_clients (end_of_round env d) =
    d_clients d @ (if re_select env > 0 \<and> re_accept env \<ge> 0 then [re_accept env] else [])"
  by (simp_all add: end_of_round_def accept_client_def Let_def port_simps)

lemma published_fields [round_simps]:
  "d_failures (published env b st l d) = 0" "d_status (published env b st l d) = st"
  "d_link (published env b st l d) = l"
  "d_clients (published env b st l d) = fst (snd (broadcast (re_write env) st (d_clients d)))"
  "d_sent (published env b st l d) =
    d_sent d @ snd (snd (broadcast (re_write env) st (d_clients d)))"
  by (simp_all add: published_def)

lemma read_failed_fields [round_simps]:
  "d_status (read_failed op cl d) = d_status d" "d_sent (read_failed op cl d) = d_sent d"
  "d_clients (read_failed op cl d) = d_clients d"
  "d_failures d < 5 \<Longrightarrow> d_failures (read_failed op cl d) < 5"
  by (simp_all add: read_failed_def Let_def case_prod_beta)

section \<open>What the loop needs of the port and of the protocol\<close>

fun open_succeeds :: "open_event \<Rightarrow> bool" where
  "open_succeeds (Opens n) = True"
| "open_succeeds _ = False"

locale port_ops =
  fixes open_port :: "link \<Rightarrow> bool \<times> link" and close_port :: "link \<Rightarrow> link"
  assumes close_closes: "fd (close_port l) < 0"
    and close_opens: "opens (close_port l) = opens l"
    and open_ok: "opens l = Opens n # rest \<Longrightarrow>
      \<exists>l'. open_port l = (True, l') \<and> fd l' = int n \<and> opens l' = rest"
    and open_fail: "opens l = e # rest \<Longrightarrow> \<not> open_succeeds e \<Longrightarrow>
      \<exists>l'. open_port l = (False, l') \<and> fd l' < 0 \<and> opens l' = rest"

locale daemon_phase =
  fixes phase :: phase
  assumes phase_cases: "\<exists>ok show_power st' l'. phase st l = Some (ok, show_power, st', l') \<and>
    (\<not> ok \<longrightarrow> st' = st \<and> \<not> show_power) \<and> (ok \<longrightarrow> 0 \<le> fd l) \<and> fd l' = fd l \<and> opens l' = opens l"

definition phase_keeps ::
    "phase \<Rightarrow> (battery_status \<Rightarrow> bool) \<Rightarrow> (battery_status \<Rightarrow> bool) \<Rightarrow> bool" where
  "phase_keeps phase I Q \<longleftrightarrow> (\<forall>st l ok b st' l'. I st \<longrightarrow> phase st l = Some (ok, b, st', l') \<longrightarrow>
     I st' \<and> (ok \<longrightarrow> Q st'))"

definition read_succeeds :: "(bool \<times> bool \<times> battery_status \<times> link) option \<Rightarrow> bool" where
  "read_succeeds r = (case r of Some (ok, rest) \<Rightarrow> ok | None \<Rightarrow> False)"

text \<open>The port is closed, or it is open and this round's read fails.\<close>

definition read_lost :: "phase \<Rightarrow> daemon \<Rightarrow> bool" where
  "read_lost phase d \<longleftrightarrow> (0 \<le> fd (d_link d) \<longrightarrow> \<not> read_succeeds (phase (d_status d) (d_link d)))"

text \<open>A round sends only the record its own phase returned, to the clients it began with.\<close>

definition sends_own_record ::
    "phase \<Rightarrow> daemon \<Rightarrow> (int \<times> nat \<times> battery_status) list \<Rightarrow> bool" where
  "sends_own_record phase d new \<longleftrightarrow> (\<exists>ok b st l. phase (d_status d) (d_link d) = Some (ok, b, st, l) \<and>
     list_all (\<lambda>(c, n, s). ok \<and> s = st \<and> c \<in> set (d_clients d)) new)"

locale daemon_loop = daemon_phase phase + port_ops open_port close_port
  for phase :: phase and open_port close_port
begin

abbreviation "one_round \<equiv> daemon_round phase open_port close_port"
abbreviation "rounds \<equiv> daemon_rounds phase open_port close_port"
abbreviation "starts \<equiv> round_starts phase open_port close_port"

lemma roundE:
  obtains ok b st l where "phase (d_status d) (d_link d) = Some (ok, b, st, l)"
    "one_round env d = Some
      (if \<not> ok then Running (end_of_round env (read_failed open_port close_port (d\<lparr>d_link := l\<rparr>)))
       else if pipe_broken (re_write env) (d_clients d) then Killed (published env b st l d)
       else Running (end_of_round env (published env b st l d)))"
    "\<not> ok \<Longrightarrow> st = d_status d \<and> \<not> b" "ok \<Longrightarrow> 0 \<le> fd (d_link d)" "fd l = fd (d_link d)"
    "opens l = opens (d_link d)"
proof -
  obtain ok b st l where p: "phase (d_status d) (d_link d) = Some (ok, b, st, l)"
    and rest: "\<not> ok \<longrightarrow> st = d_status d \<and> \<not> b" "ok \<longrightarrow> 0 \<le> fd (d_link d)" "fd l = fd (d_link d)"
      "opens l = opens (d_link d)"
    using phase_cases [of "d_status d" "d_link d"] by blast
  from rest(1) have "\<not> ok \<longrightarrow> d\<lparr>d_status := st, d_link := l\<rparr> = d\<lparr>d_link := l\<rparr>" by auto
  with p rest daemon_round_eq [of phase d ok b st l open_port close_port env, OF p] show thesis
    by (intro that [of ok b st l]) auto
qed

lemma round_total: "\<exists>r. one_round env d = Some r"
  by (rule roundE [of d env]) blast

lemma rounds_total: "\<exists>r. rounds envs d = Some r"
proof (induction envs arbitrary: d)
  case (Cons env envs)
  obtain r where "one_round env d = Some r" using round_total by blast
  with Cons show ?case by (cases r) simp_all
qed simp

lemma round_failures:
  assumes "one_round env d = Some (Running d')" "d_failures d < 5"
  shows "d_failures d' < 5"
  by (rule roundE [of d env]) (use assms in \<open>auto simp: round_simps split: if_splits\<close>)

lemma rounds_failures: "rounds envs d = Some (Running d') \<Longrightarrow> d_failures d < 5 \<Longrightarrow> d_failures d' < 5"
  by (induction envs arbitrary: d) (auto split: option.splits outcome.splits dest: round_failures)

text \<open>A round whose read succeeds is killed exactly when the pipe to a client is broken.\<close>

lemma round_killed:
  "(\<exists>d'. one_round env d = Some (Killed d')) \<longleftrightarrow>
    (\<exists>b st l. phase (d_status d) (d_link d) = Some (True, b, st, l)) \<and>
    pipe_broken (re_write env) (d_clients d)"
  by (rule roundE [of d env]) auto

text \<open>A property of \<open>status_to_send\<close> that every phase keeps holds of every record sent.\<close>

lemma round_sent:
  assumes inv: "phase_keeps phase I Q"
    and "one_round env d = Some r" "I (d_status d)" "\<forall>(c, n, s) \<in> set (d_sent d). Q s"
  shows "I (d_status (outcome_state r)) \<and> (\<forall>(c, n, s) \<in> set (d_sent (outcome_state r)). Q s)"
proof (rule roundE [of d env])
  fix ok b st l
  assume ph: "phase (d_status d) (d_link d) = Some (ok, b, st, l)"
    and r: "one_round env d = Some
      (if \<not> ok then Running (end_of_round env (read_failed open_port close_port (d\<lparr>d_link := l\<rparr>)))
       else if pipe_broken (re_write env) (d_clients d) then Killed (published env b st l d)
       else Running (end_of_round env (published env b st l d)))"
  from inv assms(3) ph have st: "I st" "ok \<longrightarrow> Q st" unfolding phase_keeps_def by blast+
  have "\<forall>(c, n, s) \<in> set (d_sent (published env b st l d)). ok \<longrightarrow> Q s"
    using st assms(4) by (auto simp: round_simps dest: broadcast_sent_status)
  with r assms(2-4) st show ?thesis by (cases ok) (auto simp: round_simps split: if_splits)
qed

lemma rounds_sent:
  assumes inv: "phase_keeps phase I Q"
    and "rounds envs d = Some r" "I (d_status d)" "\<forall>(c, n, s) \<in> set (d_sent d). Q s"
  shows "\<forall>(c, n, s) \<in> set (d_sent (outcome_state r)). Q s"
  using assms(2-4)
proof (induction envs arbitrary: d)
  case (Cons env envs)
  obtain r1 where r1: "one_round env d = Some r1" using round_total by blast
  from round_sent [OF inv r1 Cons.prems(2,3)] Cons.IH [of "outcome_state r1"] Cons.prems(1) r1
  show ?case by (cases r1) auto
qed auto

text \<open>The log of the records is the concatenation of what each round sent.\<close>

lemma round_sends_own:
  "\<exists>r new. one_round env d = Some r \<and> d_sent (outcome_state r) = d_sent d @ new \<and>
    sends_own_record phase d new"
proof (rule roundE [of d env])
  fix ok b st l
  assume ph: "phase (d_status d) (d_link d) = Some (ok, b, st, l)"
    and r: "one_round env d = Some
      (if \<not> ok then Running (end_of_round env (read_failed open_port close_port (d\<lparr>d_link := l\<rparr>)))
       else if pipe_broken (re_write env) (d_clients d) then Killed (published env b st l d)
       else Running (end_of_round env (published env b st l d)))"
  let ?new = "if ok then snd (snd (broadcast (re_write env) st (d_clients d))) else []"
  have "sends_own_record phase d ?new"
    unfolding sends_own_record_def using ph broadcast_sent [of st "d_clients d" "re_write env"]
    by (cases ok) (auto simp: list_all_iff)
  with r show ?thesis by (cases ok) (auto simp: round_simps)
qed

lemma rounds_trace:
  assumes "rounds envs d = Some r"
  shows "\<exists>news. d_sent (outcome_state r) = d_sent d @ concat news \<and>
    list_all2 (sends_own_record phase) (starts envs d) news"
  using assms
proof (induction envs arbitrary: d)
  case (Cons env envs)
  obtain r1 new where r1: "one_round env d = Some r1" "d_sent (outcome_state r1) = d_sent d @ new"
    "sends_own_record phase d new"
    using round_sends_own by blast
  show ?case
  proof (cases r1)
    case (Running d1)
    with Cons.IH [of d1] Cons.prems r1(1) obtain news where
      "d_sent (outcome_state r) = d_sent d1 @ concat news" "list_all2 (sends_own_record phase) (starts envs d1) news"
      by auto
    with Running r1 show ?thesis by (intro exI [of _ "new # news"]) simp
  next
    case (Killed d1)
    with Cons.prems r1 show ?thesis by (intro exI [of _ "[new]"]) auto
  qed
qed auto

text \<open>A round begins with the record and the descriptor the one before left.\<close>

lemma starts_step:
  assumes "Suc k < length (starts envs d)"
  shows "\<exists>env. one_round env (starts envs d ! k) = Some (Running (starts envs d ! Suc k))"
  using assms
proof (induction envs arbitrary: d k)
  case (Cons env envs)
  obtain r1 where r1: "one_round env d = Some r1" using round_total by blast
  with Cons.prems obtain d1 where d1: "r1 = Running d1" "k < length (starts envs d1)"
    by (cases r1) simp_all
  show ?case
  proof (cases k)
    case 0
    with d1 have "starts envs d1 ! 0 = d1" by (cases envs) simp_all
    with r1 d1 0 show ?thesis by auto
  next
    case (Suc j)
    with Cons.IH [of j d1] r1 d1 show ?thesis by simp
  qed
qed simp

lemma starts_status:
  assumes "Suc k < length (starts envs d)"
    "phase (d_status (starts envs d ! k)) (d_link (starts envs d ! k)) = Some (ok, b, st, l)"
  shows "d_status (starts envs d ! Suc k) = st"
proof -
  obtain env where "one_round env (starts envs d ! k) = Some (Running (starts envs d ! Suc k))"
    using starts_step [OF assms(1)] by blast
  with daemon_round_eq [of phase "starts envs d ! k", OF assms(2), of open_port close_port env]
  show ?thesis by (auto simp: round_simps split: if_splits)
qed

lemma starts_first: "starts envs d \<noteq> [] \<Longrightarrow> starts envs d ! 0 = d"
  by (cases envs) simp_all

text \<open>A round without data counts the failure, and keeps the record, the log and the port.\<close>

lemma lost_round:
  assumes "read_lost phase d"
  obtains l where "one_round env d =
      Some (Running (end_of_round env (read_failed open_port close_port (d\<lparr>d_link := l\<rparr>))))"
    "fd l = fd (d_link d)" "opens l = opens (d_link d)"
proof (rule roundE [of d env])
  fix ok b st l
  assume "phase (d_status d) (d_link d) = Some (ok, b, st, l)"
    "ok \<Longrightarrow> 0 \<le> fd (d_link d)" "fd l = fd (d_link d)" "opens l = opens (d_link d)"
    "one_round env d = Some
      (if \<not> ok then Running (end_of_round env (read_failed open_port close_port (d\<lparr>d_link := l\<rparr>)))
       else if pipe_broken (re_write env) (d_clients d) then Killed (published env b st l d)
       else Running (end_of_round env (published env b st l d)))"
  with assms show thesis by (intro that [of l]) (auto simp: read_lost_def read_succeeds_def)
qed

lemma rounds_append:
  "rounds (xs @ ys) d = (case rounds xs d of Some (Running d') \<Rightarrow> rounds ys d' | r \<Rightarrow> r)"
  by (induction xs arbitrary: d) (auto split: option.split outcome.split)

lemma starts_append:
  "rounds xs d = Some (Running d1) \<Longrightarrow> starts (xs @ ys) d = starts xs d @ starts ys d1"
  by (induction xs arbitrary: d) (auto split: option.splits outcome.splits)

lemma starts_take: "set (starts (take m envs) d) \<subseteq> set (starts envs d)"
proof (induction envs arbitrary: d m)
  case (Cons env envs)
  show ?case
  proof (cases m)
    case (Suc j)
    from Cons.IH [of j] show ?thesis
      by (simp add: Suc split: option.split outcome.split) blast
  qed simp
qed simp

lemma lost_rounds:
  assumes "list_all (read_lost phase) (starts envs d)" "d_failures d + length envs < 5"
  shows "\<exists>d'. rounds envs d = Some (Running d') \<and> d_failures d' = d_failures d + length envs \<and>
    opens (d_link d') = opens (d_link d) \<and> d_status d' = d_status d \<and> d_sent d' = d_sent d"
  using assms
proof (induction envs arbitrary: d)
  case (Cons env envs)
  obtain l where r: "one_round env d =
      Some (Running (end_of_round env (read_failed open_port close_port (d\<lparr>d_link := l\<rparr>))))"
    "opens l = opens (d_link d)"
    using lost_round [of d env] Cons.prems(1) by auto
  let ?d = "end_of_round env (read_failed open_port close_port (d\<lparr>d_link := l\<rparr>))"
  have "d_failures ?d = d_failures d + 1" "opens (d_link ?d) = opens (d_link d)"
    "d_status ?d = d_status d" "d_sent ?d = d_sent d"
    using r Cons.prems(2) by (simp_all add: round_simps read_failed_def Let_def)
  with Cons.IH [of ?d] Cons.prems r(1) show ?case by simp
qed simp

text \<open>The round of the fifth failure closes the port and opens it again.\<close>

lemma reopening_round:
  assumes "read_lost phase d" "d_failures d = 4"
  shows "\<exists>d' l. one_round env d = Some (Running d') \<and> opens l = opens (d_link d) \<and>
    d_link d' = usleep 1000000 (usleep (re_select_us env) (snd (open_port l))) \<and>
    d_failures d' = 0 \<and> d_status d' = d_status d \<and> d_sent d' = d_sent d"
proof -
  obtain l where r: "one_round env d =
      Some (Running (end_of_round env (read_failed open_port close_port (d\<lparr>d_link := l\<rparr>))))"
    "opens l = opens (d_link d)"
    using lost_round [OF assms(1)] by blast
  let ?l = "usleep 1000000 (close_port l)" and
    ?d = "end_of_round env (read_failed open_port close_port (d\<lparr>d_link := l\<rparr>))"
  have "opens ?l = opens (d_link d)" using r by (simp add: port_simps close_opens)
  moreover have "d_link ?d = usleep 1000000 (usleep (re_select_us env) (snd (open_port ?l)))"
    using assms(2) by (simp add: end_of_round_def accept_client_def read_failed_def Let_def case_prod_beta)
  moreover have "d_failures ?d = 0"
    using assms(2) by (simp add: round_simps read_failed_def Let_def case_prod_beta)
  ultimately show ?thesis using r(1) by (intro exI [of _ ?d] exI [of _ ?l]) (simp add: round_simps)
qed

lemma reopening_rounds:
  assumes "list_all (read_lost phase) (starts envs d)" "d_failures d < 5"
    "length envs = 5 - d_failures d"
  shows "\<exists>d' l. rounds envs d = Some (Running d') \<and> opens l = opens (d_link d) \<and>
    fd (d_link d') = fd (snd (open_port l)) \<and> opens (d_link d') = opens (snd (open_port l)) \<and>
    d_failures d' = 0 \<and> d_status d' = d_status d \<and> d_sent d' = d_sent d"
proof -
  obtain front env where envs: "envs = front @ [env]" "d_failures d + length front = 4"
    using assms(2,3) by (cases envs rule: rev_cases) auto
  have "list_all (read_lost phase) (starts front d)"
    using assms(1) starts_take [of "length front" envs d] by (auto simp: envs(1) list_all_iff)
  with lost_rounds [of front d] envs(2) obtain d1 where
    d1: "rounds front d = Some (Running d1)" "d_failures d1 = 4" "opens (d_link d1) = opens (d_link d)"
      "d_status d1 = d_status d" "d_sent d1 = d_sent d" by auto
  have "read_lost phase d1"
    using assms(1) starts_append [OF d1(1), of "[env]"] by (simp add: envs(1))
  from reopening_round [OF this d1(2), of env] obtain d' l where
    "one_round env d1 = Some (Running d')" "opens l = opens (d_link d1)"
    "d_link d' = usleep 1000000 (usleep (re_select_us env) (snd (open_port l)))"
    "d_failures d' = 0" "d_status d' = d_status d1" "d_sent d' = d_sent d1" by blast
  with d1 show ?thesis
    by (intro exI [of _ d'] exI [of _ l]) (simp add: envs(1) rounds_append port_simps)
qed

lemma reopen_liveness:
  assumes "list_all (read_lost phase) (starts envs d)" "d_failures d < 5"
    and "opens (d_link d) = fails @ Opens n # rest" "list_all (\<lambda>e. \<not> open_succeeds e) fails"
    and "length envs = 5 * (length fails + 1) - d_failures d"
  shows "\<exists>d'. rounds envs d = Some (Running d') \<and> fd (d_link d') = int n \<and>
    opens (d_link d') = rest \<and> d_failures d' = 0 \<and> d_status d' = d_status d \<and> d_sent d' = d_sent d"
  using assms
proof (induction fails arbitrary: d envs)
  case Nil
  then have "length envs = 5 - d_failures d" by simp
  from reopening_rounds [OF Nil(1,2) this] Nil(3) open_ok show ?case by fastforce
next
  case (Cons e fails)
  let ?m = "5 - d_failures d"
  have len: "length (take ?m envs) = ?m" "length (drop ?m envs) = 5 * (length fails + 1)"
    using Cons.prems(2,5) by simp_all
  have split: "envs = take ?m envs @ drop ?m envs" by simp
  have "list_all (read_lost phase) (starts (take ?m envs) d)"
    using starts_take [of ?m envs d] Cons.prems(1) by (auto simp: list_all_iff)
  from reopening_rounds [OF this Cons.prems(2) len(1)] obtain d1 l where
    d1: "rounds (take ?m envs) d = Some (Running d1)" "d_failures d1 = 0"
      "opens l = opens (d_link d)" "fd (d_link d1) = fd (snd (open_port l))"
      "opens (d_link d1) = opens (snd (open_port l))" "d_status d1 = d_status d" "d_sent d1 = d_sent d"
    by blast
  have "opens l = e # fails @ Opens n # rest" using d1(3) Cons.prems(3) by simp
  from open_fail [OF this] Cons.prems(4) d1 have "opens (d_link d1) = fails @ Opens n # rest" by auto
  moreover have "list_all (read_lost phase) (starts (drop ?m envs) d1)"
    using starts_append [OF d1(1), of "drop ?m envs"] Cons.prems(1) by (simp add: list_all_iff)
  ultimately obtain d' where "rounds (drop ?m envs) d1 = Some (Running d')" "fd (d_link d') = int n"
    "opens (d_link d') = rest" "d_failures d' = 0" "d_status d' = d_status d" "d_sent d' = d_sent d"
    using Cons.IH [of "drop ?m envs" d1] d1(2,6,7) len(2) Cons.prems(4) by auto
  then show ?case
    using rounds_append [of "take ?m envs" "drop ?m envs" d] d1(1) by simp
qed

end

section \<open>Both variants fit the interface\<close>

text \<open>A snapshot phase publishes what \<open>read_all\<close> makes of an empty record.\<close>

sublocale snapshot_reader \<subseteq> snap: daemon_phase "snapshot_phase read"
proof
  fix st l
  obtain ok st' l' where r: "read zero_status l = Some (ok, st', l')"
    using snapshot_total by blast
  then have "(ok \<longrightarrow> 0 \<le> fd l) \<and> fd l' = fd l \<and> opens l' = opens l"
    by (auto elim: snapshotE)
  with r show "\<exists>ok show_power st' l'. snapshot_phase read st l = Some (ok, show_power, st', l') \<and>
    (\<not> ok \<longrightarrow> st' = st \<and> \<not> show_power) \<and> (ok \<longrightarrow> 0 \<le> fd l) \<and> fd l' = fd l \<and> opens l' = opens l"
    by (simp add: snapshot_phase_def)
qed

context snapshot_reader
begin

lemma snapshot_daemon_phase: "daemon_phase (snapshot_phase read)"
  by (rule snap.daemon_phase_axioms)

end

text \<open>The three reads of a legacy phase are independent of each other although they share one
  record, and the backfill after a failed basic read never applies.\<close>

context fieldwise_protocol
begin

lemma legacy_phase_eq:
  assumes rb: "read_basic zero_status l = Some (okb, b, l1)"
    and rc: "read_capacity zero_status (usleep 50000 l1) = Some (okc, c, l2)"
    and ri: "read_io zero_status l2 = Some (oki, i, l3)"
  shows "legacy_phase read_basic read_capacity read_io st l =
    Some (okb \<or> okc \<or> oki, oki,
      (if oki then copy_io i else id) ((if okc then copy_capacity c else id)
        ((if okb then copy_basic b else id) st)), l3)"
proof -
  have b: "b = copy_basic b zero_status" by (rule basic.read_group [OF rb])
  have "copy_capacity zero_status (copy_basic b zero_status) = copy_basic b zero_status"
    by (simp add: copy_defs)
  then have "copy_capacity zero_status b = b" by (simp flip: b)
  then have rc': "read_capacity b (usleep 50000 l1) = Some (okc, if okc then copy_capacity c b else b, l2)"
    using cap.read_transplant [OF rc, of b] by simp
  let ?r = "if okc then copy_capacity c b else b"
  have "copy_io zero_status (copy_basic b zero_status) = copy_basic b zero_status"
    "copy_io zero_status (copy_capacity c (copy_basic b zero_status)) =
      copy_capacity c (copy_basic b zero_status)"
    by (simp_all add: copy_defs)
  then have "copy_io zero_status ?r = ?r" by (simp flip: b)
  then have ri': "read_io ?r l2 = Some (oki, if oki then copy_io i ?r else ?r, l3)"
    using io.read_transplant [OF ri, of ?r] by simp
  have dead: "max_cell_voltage b = 0" if "\<not> okb"
    using basic.read_fail [of zero_status l b l1] rb that by (simp add: zero_status_def)
  show ?thesis
    using dead by (simp add: legacy_phase_def rb rc' ri' Let_def) (simp add: copy_defs)
qed

end

sublocale fieldwise_protocol \<subseteq> legacy: daemon_phase "legacy_phase read_basic read_capacity read_io"
proof
  fix st l
  obtain okb b l1 where rb: "read_basic zero_status l = Some (okb, b, l1)"
    using basic.read_total by blast
  obtain okc c l2 where rc: "read_capacity zero_status (usleep 50000 l1) = Some (okc, c, l2)"
    using cap.read_total by blast
  obtain oki i l3 where ri: "read_io zero_status l2 = Some (oki, i, l3)"
    using io.read_total by blast
  have port: "fd l1 = fd l \<and> opens l1 = opens l" "fd l2 = fd l1 \<and> opens l2 = opens l1"
    "fd l3 = fd l2 \<and> opens l3 = opens l2"
    using basic.read_keeps_port [OF rb] cap.read_keeps_port [OF rc] io.read_keeps_port [OF ri]
    by (simp_all add: port_simps)
  have "fd l < 0 \<Longrightarrow> \<not> okb \<and> \<not> okc \<and> \<not> oki"
    using basic.read_closed [OF _ rb] cap.read_closed [OF _ rc] io.read_closed [OF _ ri] port
    by (simp add: port_simps)
  then show "\<exists>ok show_power st' l'. legacy_phase read_basic read_capacity read_io st l =
      Some (ok, show_power, st', l') \<and> (\<not> ok \<longrightarrow> st' = st \<and> \<not> show_power) \<and>
      (ok \<longrightarrow> 0 \<le> fd l) \<and> fd l' = fd l \<and> opens l' = opens l"
    using port by (auto simp: legacy_phase_eq [OF rb rc ri] not_less [symmetric])
qed

context fieldwise_protocol
begin

lemma legacy_daemon_phase: "daemon_phase (legacy_phase read_basic read_capacity read_io)"
  by (rule legacy.daemon_phase_axioms)

text \<open>No reader sets the cycle count, and the merge copies it from an empty record.\<close>

lemma legacy_cycles:
  assumes "legacy_phase read_basic read_capacity read_io st l = Some (ok, b, st', l')" "cycles st = 0"
  shows "cycles st' = 0"
proof -
  obtain okb rec_b l1 where rb: "read_basic zero_status l = Some (okb, rec_b, l1)"
    using basic.read_total by blast
  obtain okc c l2 where rc: "read_capacity zero_status (usleep 50000 l1) = Some (okc, c, l2)"
    using cap.read_total by blast
  obtain oki i l3 where ri: "read_io zero_status l2 = Some (oki, i, l3)"
    using io.read_total by blast
  have "cycles rec_b = 0" using basic.read_cycles [OF rb] by (simp add: zero_status_def)
  with assms show ?thesis
    by (cases okb; cases okc; cases oki) (auto simp: legacy_phase_eq [OF rb rc ri] copy_defs)
qed

end

section \<open>Ports opened by SerialPort\<close>

lemma serial_port_ops:
  assumes "\<And>l. op l = serial_open port baud l" "\<And>l. cl l = serial_close l"
  shows "port_ops op cl"
proof
  fix l :: link and e rest assume "opens l = e # rest" "\<not> open_succeeds e"
  then show "\<exists>l'. op l = (False, l') \<and> fd l' < 0 \<and> opens l' = rest"
    by (cases e) (auto simp: assms serial_open_def serial_close_def)
qed (auto simp: assms serial_open_def serial_close_def)

end
