(* ===== verification/Byte_Crc.thy ===== *)
theory Byte_Crc
  imports Bms_Prelude
begin

text \<open>
  What the two 16-bit checksums of the program have in common: additivity over exclusive or,
  which reduces an equality of two routines to the 16 one-bit words, and the interface
  \<open>byte_crc\<close> of a checksum computed byte by byte, whose laws imply that every corruption
  confined to one byte or to two adjacent bytes changes the checksum.
\<close>

unbundle bit_operations_syntax

section \<open>Additive functions on words\<close>

definition additive :: "(u16 \<Rightarrow> u16) \<Rightarrow> bool" where
  "additive f \<longleftrightarrow> (\<forall>x y. f (x XOR y) = f x XOR f y)"

lemma additiveI: "(\<And>x y. f (x XOR y) = f x XOR f y) \<Longrightarrow> additive f"
  by (simp add: additive_def)

lemma additiveD: "additive f \<Longrightarrow> f (x XOR y) = f x XOR f y"
  by (simp add: additive_def)

lemma additive_0: "additive f \<Longrightarrow> f 0 = 0"
  using additiveD [of f 0 0] by simp

lemma funpow_8: "(f ^^ 8) x = f (f (f (f (f (f (f (f x)))))))"
  by (simp add: numeral_eq_Suc)

lemma additive_comp: "additive f \<Longrightarrow> additive g \<Longrightarrow> additive (\<lambda>x. f (g x))"
  by (simp add: additive_def)

lemma additive_id: "additive (\<lambda>x. x)"
  by (simp add: additive_def)

lemma additive_xor: "additive f \<Longrightarrow> additive g \<Longrightarrow> additive (\<lambda>x. f x XOR g x)"
  by (simp add: additive_def ac_simps)

lemma additive_push_bit: "additive f \<Longrightarrow> additive (\<lambda>x. push_bit n (f x))"
  by (simp add: additive_def push_bit_xor)

lemma additive_drop_bit: "additive f \<Longrightarrow> additive (\<lambda>x. drop_bit n (f x))"
  by (simp add: additive_def drop_bit_xor)

lemma additive_and: "additive f \<Longrightarrow> additive (\<lambda>x. f x AND m)"
  by (simp add: additive_def bit.conj_xor_distrib2)

lemmas additive_intros =
  additive_id additive_xor additive_push_bit additive_drop_bit additive_and

lemma additive_funpow: "additive f \<Longrightarrow> additive (f ^^ n)"
  by (induction n) (simp_all add: additive_def)

lemma take_bit_Suc_xor:
  fixes x :: u16
  assumes "n < 16"
  shows "take_bit (Suc n) x = take_bit n x XOR (if bit x n then 2 ^ n else 0)"
  using assms by (intro bit_word_eqI) (auto simp: bit_simps less_Suc_eq)

lemma additive_ext:
  assumes f: "additive f" and g: "additive g"
    and basis: "\<And>k. k < 16 \<Longrightarrow> f (2 ^ k) = g (2 ^ k)"
  shows "f x = g x"
proof -
  have "n \<le> 16 \<Longrightarrow> f (take_bit n x) = g (take_bit n x)" for n
  proof (induction n)
    case 0
    show ?case using f g by (simp add: additive_0)
  next
    case (Suc n)
    then show ?case
      using basis f g by (simp add: take_bit_Suc_xor additiveD additive_0)
  qed
  from this [of 16] show ?thesis by (simp add: take_bit_word_eq_self)
qed

lemma all_less_16:
  "(\<forall>k<16::nat. P k) \<longleftrightarrow> P 0 \<and> P 1 \<and> P 2 \<and> P 3 \<and> P 4 \<and> P 5 \<and> P 6 \<and> P 7 \<and> P 8 \<and> P 9 \<and>
    P 10 \<and> P 11 \<and> P 12 \<and> P 13 \<and> P 14 \<and> P 15"
  by (simp add: eval_nat_numeral All_less_Suc conj_ac)

lemma additive_injective:
  assumes f: "additive f" and ker: "\<And>x. f x = 0 \<Longrightarrow> x = 0" and eq: "f x = f y"
  shows "x = y"
proof -
  have "f (x XOR y) = 0" using f eq by (simp add: additiveD)
  then have "x XOR y = 0" by (rule ker)
  then show ?thesis by (metis bit.xor_left_self xor.right_neutral)
qed

text \<open>A table of an additive function doubles: its second half is its first half shifted by one
  value.\<close>

lemma word_of_nat_double:
  assumes "i < 2 ^ k" "k < 16"
  shows "2 ^ k + word_of_nat i = (word_of_nat i XOR 2 ^ k :: u16)"
proof -
  have "\<not> bit i k" using assms(1) by (simp add: bit_iff_odd)
  then have "(word_of_nat i :: u16) AND 2 ^ k = 0"
    by (simp add: and_exp_eq_0_iff_not_bit bit_simps)
  then have "word_of_nat i + 2 ^ k = (word_of_nat i XOR 2 ^ k :: u16)"
    by (rule disjunctive_add_eq_xor)
  then show ?thesis by (simp add: add.commute)
qed

lemma additive_table_double:
  assumes "additive f" "k < 16"
  shows "map (\<lambda>i. f (word_of_nat i)) [0..<2 ^ Suc k] =
    map (\<lambda>i. f (word_of_nat i)) [0..<2 ^ k] @
    map (\<lambda>i. f (word_of_nat i) XOR f (2 ^ k)) [0..<2 ^ k]"
proof -
  have "[0..<2 ^ Suc k] = [0..<2 ^ k] @ map (\<lambda>i. 2 ^ k + i) [0..<2 ^ k]"
    using upt_add_eq_append [of 0 "2 ^ k" "2 ^ k"] map_add_upt [of "2 ^ k" "2 ^ k"]
    by (simp add: mult_2 add.commute)
  then show ?thesis
    using assms by (simp add: word_of_nat_double additiveD)
qed

fun double_table :: "u16 list \<Rightarrow> u16 list \<Rightarrow> u16 list" where
  "double_table T [] = T"
| "double_table T (b # bs) = double_table (T @ map (\<lambda>x. x XOR b) T) bs"

lemma double_table_snoc:
  "double_table T (bs @ [b]) = double_table T bs @ map (\<lambda>x. x XOR b) (double_table T bs)"
  by (induction T bs rule: double_table.induct) auto

lemma additive_table:
  assumes "additive f"
  shows "k \<le> 16 \<Longrightarrow>
    map (\<lambda>i. f (word_of_nat i)) [0..<2 ^ k] = double_table [0] (map (\<lambda>j. f (2 ^ j)) [0..<k])"
proof (induction k)
  case 0
  show ?case by (simp add: additive_0 [OF assms])
next
  case (Suc k)
  then have IH: "map (\<lambda>i. f (word_of_nat i)) [0..<2 ^ k] =
    double_table [0] (map (\<lambda>j. f (2 ^ j)) [0..<k])" by simp
  have "map (\<lambda>i. f (word_of_nat i) XOR f (2 ^ k)) [0..<2 ^ k] =
    map (\<lambda>x. x XOR f (2 ^ k)) (map (\<lambda>i. f (word_of_nat i)) [0..<2 ^ k])" by simp
  with Suc.prems show ?case
    unfolding additive_table_double [OF assms, of k, OF Suc_le_lessD [OF Suc.prems]] IH
    by (simp add: double_table_snoc del: map_map)
qed

section \<open>The interface of a byte-wise checksum\<close>

text \<open>
  \<open>step\<close> folds one byte into the running checksum. Each step is injective in the state and
  in the byte, and two steps together are injective in the pair of bytes.
\<close>

locale byte_crc =
  fixes step :: "'s \<Rightarrow> u8 \<Rightarrow> 's"
  assumes step_state: "step c b = step c' b \<Longrightarrow> c = c'"
    and step_byte: "step c b = step c b' \<Longrightarrow> b = b'"
    and step_pair: "step (step c a) b = step (step c a') b' \<Longrightarrow> a = a' \<and> b = b'"
begin

lemma fold_state: "foldl step c bs = foldl step c' bs \<Longrightarrow> c = c'"
  by (induction bs arbitrary: c c') (auto dest: step_state)

lemma one_byte:
  "b \<noteq> b' \<Longrightarrow> foldl step c (xs @ b # ys) \<noteq> foldl step c (xs @ b' # ys)"
  by (auto dest: fold_state step_byte)

lemma two_bytes:
  assumes "(a, b) \<noteq> (a', b')"
  shows "foldl step c (xs @ a # b # ys) \<noteq> foldl step c (xs @ a' # b' # ys)"
proof
  assume "foldl step c (xs @ a # b # ys) = foldl step c (xs @ a' # b' # ys)"
  then have "step (step (foldl step c xs) a) b = step (step (foldl step c xs) a') b'"
    by (auto dest: fold_state)
  with assms show False by (auto dest: step_pair)
qed

end

end
