(* ===== verification/Modbus_Crc.thy ===== *)
theory Modbus_Crc
  imports Byte_Crc
begin

text \<open>
  The table-driven Modbus checksum of \<open>src/drivers/tws/protocol.cpp\<close> and
  \<open>src/drivers/gf485/protocol.cpp\<close>. Both files carry their own copy of the two 256-entry tables
  and of \<open>calculate_crc\<close>; both are translated here, shown equal, and shown to compute the
  bit-serial CRC-16/MODBUS (reflected polynomial 0xA001, initial value 0xFFFF).
\<close>

unbundle bit_operations_syntax

section \<open>The tables and the routine of the TWS protocol\<close>

definition aucCRCHi :: bytes where
  "aucCRCHi = [
    0x00, 0xC1, 0x81, 0x40, 0x01, 0xC0, 0x80, 0x41, 0x01, 0xC0, 0x80, 0x41, 0x00, 0xC1, 0x81, 0x40,
   0x01, 0xC0, 0x80, 0x41, 0x00, 0xC1, 0x81, 0x40, 0x00, 0xC1, 0x81, 0x40, 0x01, 0xC0, 0x80, 0x41,
   0x01, 0xC0, 0x80, 0x41, 0x00, 0xC1, 0x81, 0x40, 0x00, 0xC1, 0x81, 0x40, 0x01, 0xC0, 0x80, 0x41,
   0x00, 0xC1, 0x81, 0x40, 0x01, 0xC0, 0x80, 0x41, 0x01, 0xC0, 0x80, 0x41, 0x00, 0xC1, 0x81, 0x40,
   0x01, 0xC0, 0x80, 0x41, 0x00, 0xC1, 0x81, 0x40, 0x00, 0xC1, 0x81, 0x40, 0x01, 0xC0, 0x80, 0x41,
   0x00, 0xC1, 0x81, 0x40, 0x01, 0xC0, 0x80, 0x41, 0x01, 0xC0, 0x80, 0x41, 0x00, 0xC1, 0x81, 0x40,
   0x00, 0xC1, 0x81, 0x40, 0x01, 0xC0, 0x80, 0x41, 0x01, 0xC0, 0x80, 0x41, 0x00, 0xC1, 0x81, 0x40,
   0x01, 0xC0, 0x80, 0x41, 0x00, 0xC1, 0x81, 0x40, 0x00, 0xC1, 0x81, 0x40, 0x01, 0xC0, 0x80, 0x41,
   0x01, 0xC0, 0x80, 0x41, 0x00, 0xC1, 0x81, 0x40, 0x00, 0xC1, 0x81, 0x40, 0x01, 0xC0, 0x80, 0x41,
   0x00, 0xC1, 0x81, 0x40, 0x01, 0xC0, 0x80, 0x41, 0x01, 0xC0, 0x80, 0x41, 0x00, 0xC1, 0x81, 0x40,
   0x00, 0xC1, 0x81, 0x40, 0x01, 0xC0, 0x80, 0x41, 0x01, 0xC0, 0x80, 0x41, 0x00, 0xC1, 0x81, 0x40,
   0x01, 0xC0, 0x80, 0x41, 0x00, 0xC1, 0x81, 0x40, 0x00, 0xC1, 0x81, 0x40, 0x01, 0xC0, 0x80, 0x41,
   0x00, 0xC1, 0x81, 0x40, 0x01, 0xC0, 0x80, 0x41, 0x01, 0xC0, 0x80, 0x41, 0x00, 0xC1, 0x81, 0x40,
   0x01, 0xC0, 0x80, 0x41, 0x00, 0xC1, 0x81, 0x40, 0x00, 0xC1, 0x81, 0x40, 0x01, 0xC0, 0x80, 0x41,
   0x01, 0xC0, 0x80, 0x41, 0x00, 0xC1, 0x81, 0x40, 0x00, 0xC1, 0x81, 0x40, 0x01, 0xC0, 0x80, 0x41,
   0x00, 0xC1, 0x81, 0x40, 0x01, 0xC0, 0x80, 0x41, 0x01, 0xC0, 0x80, 0x41, 0x00, 0xC1, 0x81, 0x40]"

definition aucCRCLo :: bytes where
  "aucCRCLo = [
   0x00, 0xC0, 0xC1, 0x01, 0xC3, 0x03, 0x02, 0xC2, 0xC6, 0x06, 0x07, 0xC7, 0x05, 0xC5, 0xC4, 0x04,
   0xCC, 0x0C, 0x0D, 0xCD, 0x0F, 0xCF, 0xCE, 0x0E, 0x0A, 0xCA, 0xCB, 0x0B, 0xC9, 0x09, 0x08, 0xC8,
   0xD8, 0x18, 0x19, 0xD9, 0x1B, 0xDB, 0xDA, 0x1A, 0x1E, 0xDE, 0xDF, 0x1F, 0xDD, 0x1D, 0x1C, 0xDC,
   0x14, 0xD4, 0xD5, 0x15, 0xD7, 0x17, 0x16, 0xD6, 0xD2, 0x12, 0x13, 0xD3, 0x11, 0xD1, 0xD0, 0x10,
   0xF0, 0x30, 0x31, 0xF1, 0x33, 0xF3, 0xF2, 0x32, 0x36, 0xF6, 0xF7, 0x37, 0xF5, 0x35, 0x34, 0xF4,
   0x3C, 0xFC, 0xFD, 0x3D, 0xFF, 0x3F, 0x3E, 0xFE, 0xFA, 0x3A, 0x3B, 0xFB, 0x39, 0xF9, 0xF8, 0x38,
   0x28, 0xE8, 0xE9, 0x29, 0xEB, 0x2B, 0x2A, 0xEA, 0xEE, 0x2E, 0x2F, 0xEF, 0x2D, 0xED, 0xEC, 0x2C,
   0xE4, 0x24, 0x25, 0xE5, 0x27, 0xE7, 0xE6, 0x26, 0x22, 0xE2, 0xE3, 0x23, 0xE1, 0x21, 0x20, 0xE0,
   0xA0, 0x60, 0x61, 0xA1, 0x63, 0xA3, 0xA2, 0x62, 0x66, 0xA6, 0xA7, 0x67, 0xA5, 0x65, 0x64, 0xA4,
   0x6C, 0xAC, 0xAD, 0x6D, 0xAF, 0x6F, 0x6E, 0xAE, 0xAA, 0x6A, 0x6B, 0xAB, 0x69, 0xA9, 0xA8, 0x68,
   0x78, 0xB8, 0xB9, 0x79, 0xBB, 0x7B, 0x7A, 0xBA, 0xBE, 0x7E, 0x7F, 0xBF, 0x7D, 0xBD, 0xBC, 0x7C,
   0xB4, 0x74, 0x75, 0xB5, 0x77, 0xB7, 0xB6, 0x76, 0x72, 0xB2, 0xB3, 0x73, 0xB1, 0x71, 0x70, 0xB0,
   0x50, 0x90, 0x91, 0x51, 0x93, 0x53, 0x52, 0x92, 0x96, 0x56, 0x57, 0x97, 0x55, 0x95, 0x94, 0x54,
   0x9C, 0x5C, 0x5D, 0x9D, 0x5F, 0x9F, 0x9E, 0x5E, 0x5A, 0x9A, 0x9B, 0x5B, 0x99, 0x59, 0x58, 0x98,
   0x88, 0x48, 0x49, 0x89, 0x4B, 0x8B, 0x8A, 0x4A, 0x4E, 0x8E, 0x8F, 0x4F, 0x8D, 0x4D, 0x4C, 0x8C,
   0x44, 0x84, 0x85, 0x45, 0x87, 0x47, 0x46, 0x86, 0x82, 0x42, 0x43, 0x83, 0x41, 0x81, 0x80, 0x40]"

text \<open>One iteration of the \<open>while (len--)\<close> loop on the pair \<open>(ucCRCHi, ucCRCLo)\<close>, with the old
  \<open>ucCRCHi\<close> used for the new \<open>ucCRCLo\<close>.\<close>

definition crc_step :: "u8 \<times> u8 \<Rightarrow> u8 \<Rightarrow> u8 \<times> u8" where
  "crc_step s b =
     (let (ucCRCHi, ucCRCLo) = s;
          iIndex = unat (ucCRCLo XOR b)
      in (aucCRCLo ! iIndex, ucCRCHi XOR aucCRCHi ! iIndex))"

definition calculate_crc :: "bytes \<Rightarrow> u16" where
  "calculate_crc bs =
     (let (ucCRCHi, ucCRCLo) = foldl crc_step (0xFF, 0xFF) bs in join16 ucCRCHi ucCRCLo)"

section \<open>The copy in the GF485 protocol\<close>

definition gf_aucCRCHi :: bytes where
  "gf_aucCRCHi = [
    0x00, 0xC1, 0x81, 0x40, 0x01, 0xC0, 0x80, 0x41, 0x01, 0xC0, 0x80, 0x41, 0x00, 0xC1, 0x81, 0x40,
   0x01, 0xC0, 0x80, 0x41, 0x00, 0xC1, 0x81, 0x40, 0x00, 0xC1, 0x81, 0x40, 0x01, 0xC0, 0x80, 0x41,
   0x01, 0xC0, 0x80, 0x41, 0x00, 0xC1, 0x81, 0x40, 0x00, 0xC1, 0x81, 0x40, 0x01, 0xC0, 0x80, 0x41,
   0x00, 0xC1, 0x81, 0x40, 0x01, 0xC0, 0x80, 0x41, 0x01, 0xC0, 0x80, 0x41, 0x00, 0xC1, 0x81, 0x40,
   0x01, 0xC0, 0x80, 0x41, 0x00, 0xC1, 0x81, 0x40, 0x00, 0xC1, 0x81, 0x40, 0x01, 0xC0, 0x80, 0x41,
   0x00, 0xC1, 0x81, 0x40, 0x01, 0xC0, 0x80, 0x41, 0x01, 0xC0, 0x80, 0x41, 0x00, 0xC1, 0x81, 0x40,
   0x00, 0xC1, 0x81, 0x40, 0x01, 0xC0, 0x80, 0x41, 0x01, 0xC0, 0x80, 0x41, 0x00, 0xC1, 0x81, 0x40,
   0x01, 0xC0, 0x80, 0x41, 0x00, 0xC1, 0x81, 0x40, 0x00, 0xC1, 0x81, 0x40, 0x01, 0xC0, 0x80, 0x41,
   0x01, 0xC0, 0x80, 0x41, 0x00, 0xC1, 0x81, 0x40, 0x00, 0xC1, 0x81, 0x40, 0x01, 0xC0, 0x80, 0x41,
   0x00, 0xC1, 0x81, 0x40, 0x01, 0xC0, 0x80, 0x41, 0x01, 0xC0, 0x80, 0x41, 0x00, 0xC1, 0x81, 0x40,
   0x00, 0xC1, 0x81, 0x40, 0x01, 0xC0, 0x80, 0x41, 0x01, 0xC0, 0x80, 0x41, 0x00, 0xC1, 0x81, 0x40,
   0x01, 0xC0, 0x80, 0x41, 0x00, 0xC1, 0x81, 0x40, 0x00, 0xC1, 0x81, 0x40, 0x01, 0xC0, 0x80, 0x41,
   0x00, 0xC1, 0x81, 0x40, 0x01, 0xC0, 0x80, 0x41, 0x01, 0xC0, 0x80, 0x41, 0x00, 0xC1, 0x81, 0x40,
   0x01, 0xC0, 0x80, 0x41, 0x00, 0xC1, 0x81, 0x40, 0x00, 0xC1, 0x81, 0x40, 0x01, 0xC0, 0x80, 0x41,
   0x01, 0xC0, 0x80, 0x41, 0x00, 0xC1, 0x81, 0x40, 0x00, 0xC1, 0x81, 0x40, 0x01, 0xC0, 0x80, 0x41,
   0x00, 0xC1, 0x81, 0x40, 0x01, 0xC0, 0x80, 0x41, 0x01, 0xC0, 0x80, 0x41, 0x00, 0xC1, 0x81, 0x40]"

definition gf_aucCRCLo :: bytes where
  "gf_aucCRCLo = [
   0x00, 0xC0, 0xC1, 0x01, 0xC3, 0x03, 0x02, 0xC2, 0xC6, 0x06, 0x07, 0xC7, 0x05, 0xC5, 0xC4, 0x04,
   0xCC, 0x0C, 0x0D, 0xCD, 0x0F, 0xCF, 0xCE, 0x0E, 0x0A, 0xCA, 0xCB, 0x0B, 0xC9, 0x09, 0x08, 0xC8,
   0xD8, 0x18, 0x19, 0xD9, 0x1B, 0xDB, 0xDA, 0x1A, 0x1E, 0xDE, 0xDF, 0x1F, 0xDD, 0x1D, 0x1C, 0xDC,
   0x14, 0xD4, 0xD5, 0x15, 0xD7, 0x17, 0x16, 0xD6, 0xD2, 0x12, 0x13, 0xD3, 0x11, 0xD1, 0xD0, 0x10,
   0xF0, 0x30, 0x31, 0xF1, 0x33, 0xF3, 0xF2, 0x32, 0x36, 0xF6, 0xF7, 0x37, 0xF5, 0x35, 0x34, 0xF4,
   0x3C, 0xFC, 0xFD, 0x3D, 0xFF, 0x3F, 0x3E, 0xFE, 0xFA, 0x3A, 0x3B, 0xFB, 0x39, 0xF9, 0xF8, 0x38,
   0x28, 0xE8, 0xE9, 0x29, 0xEB, 0x2B, 0x2A, 0xEA, 0xEE, 0x2E, 0x2F, 0xEF, 0x2D, 0xED, 0xEC, 0x2C,
   0xE4, 0x24, 0x25, 0xE5, 0x27, 0xE7, 0xE6, 0x26, 0x22, 0xE2, 0xE3, 0x23, 0xE1, 0x21, 0x20, 0xE0,
   0xA0, 0x60, 0x61, 0xA1, 0x63, 0xA3, 0xA2, 0x62, 0x66, 0xA6, 0xA7, 0x67, 0xA5, 0x65, 0x64, 0xA4,
   0x6C, 0xAC, 0xAD, 0x6D, 0xAF, 0x6F, 0x6E, 0xAE, 0xAA, 0x6A, 0x6B, 0xAB, 0x69, 0xA9, 0xA8, 0x68,
   0x78, 0xB8, 0xB9, 0x79, 0xBB, 0x7B, 0x7A, 0xBA, 0xBE, 0x7E, 0x7F, 0xBF, 0x7D, 0xBD, 0xBC, 0x7C,
   0xB4, 0x74, 0x75, 0xB5, 0x77, 0xB7, 0xB6, 0x76, 0x72, 0xB2, 0xB3, 0x73, 0xB1, 0x71, 0x70, 0xB0,
   0x50, 0x90, 0x91, 0x51, 0x93, 0x53, 0x52, 0x92, 0x96, 0x56, 0x57, 0x97, 0x55, 0x95, 0x94, 0x54,
   0x9C, 0x5C, 0x5D, 0x9D, 0x5F, 0x9F, 0x9E, 0x5E, 0x5A, 0x9A, 0x9B, 0x5B, 0x99, 0x59, 0x58, 0x98,
   0x88, 0x48, 0x49, 0x89, 0x4B, 0x8B, 0x8A, 0x4A, 0x4E, 0x8E, 0x8F, 0x4F, 0x8D, 0x4D, 0x4C, 0x8C,
   0x44, 0x84, 0x85, 0x45, 0x87, 0x47, 0x46, 0x86, 0x82, 0x42, 0x43, 0x83, 0x41, 0x81, 0x80, 0x40]"

definition gf_crc_step :: "u8 \<times> u8 \<Rightarrow> u8 \<Rightarrow> u8 \<times> u8" where
  "gf_crc_step s b =
     (let (ucCRCHi, ucCRCLo) = s;
          iIndex = unat (ucCRCLo XOR b)
      in (gf_aucCRCLo ! iIndex, ucCRCHi XOR gf_aucCRCHi ! iIndex))"

definition gf_calculate_crc :: "bytes \<Rightarrow> u16" where
  "gf_calculate_crc bs =
     (let (ucCRCHi, ucCRCLo) = foldl gf_crc_step (0xFF, 0xFF) bs in join16 ucCRCHi ucCRCLo)"

lemma gf_tables: "gf_aucCRCHi = aucCRCHi" "gf_aucCRCLo = aucCRCLo"
  by (simp_all only: gf_aucCRCHi_def aucCRCHi_def gf_aucCRCLo_def aucCRCLo_def)

lemma gf_crc_step_eq: "gf_crc_step = crc_step"
  by (rule ext)+ (simp add: gf_crc_step_def crc_step_def gf_tables)

section \<open>The bit-serial reference\<close>

definition modbus_bit :: "u16 \<Rightarrow> u16" where
  "modbus_bit c = (if bit c 0 then drop_bit 1 c XOR 0xA001 else drop_bit 1 c)"

definition modbus_byte :: "u16 \<Rightarrow> u8 \<Rightarrow> u16" where
  "modbus_byte c b = (modbus_bit ^^ 8) (c XOR ucast b)"

definition crc16_modbus :: "bytes \<Rightarrow> u16" where
  "crc16_modbus bs = foldl modbus_byte 0xFFFF bs"

lemma modbus_bit_additive: "additive modbus_bit"
  by (rule additiveI) (auto simp: modbus_bit_def bit_simps intro!: bit_word_eqI)

lemma modbus_byte_additive: "additive (modbus_bit ^^ 8)"
  by (rule additive_funpow [OF modbus_bit_additive])

lemma modbus_basis:
  "(modbus_bit ^^ 8) 1 = 0xC0C1" "(modbus_bit ^^ 8) 2 = 0xC181" "(modbus_bit ^^ 8) 4 = 0xC301"
  "(modbus_bit ^^ 8) 8 = 0xC601" "(modbus_bit ^^ 8) 16 = 0xCC01" "(modbus_bit ^^ 8) 32 = 0xD801"
  "(modbus_bit ^^ 8) 64 = 0xF001" "(modbus_bit ^^ 8) 128 = 0xA001"
  by (simp_all add: funpow_8 modbus_bit_def)

lemma crc_table:
  "map (\<lambda>i. (modbus_bit ^^ 8) (word_of_nat i)) [0..<256] = map2 join16 aucCRCLo aucCRCHi"
proof -
  have "map (\<lambda>j. (modbus_bit ^^ 8) (2 ^ j)) [0..<8] =
    [0xC0C1, 0xC181, 0xC301, 0xC601, 0xCC01, 0xD801, 0xF001, 0xA001]"
    by (simp add: upt_rec modbus_basis flip: One_nat_def)
  then have "map (\<lambda>i. (modbus_bit ^^ 8) (word_of_nat i)) [0..<2 ^ 8] =
    double_table [0] [0xC0C1, 0xC181, 0xC301, 0xC601, 0xCC01, 0xD801, 0xF001, 0xA001]"
    by (simp only: additive_table [OF modbus_byte_additive])
  also have "\<dots> = map2 join16 aucCRCLo aucCRCHi"
    by (simp add: aucCRCLo_def aucCRCHi_def join16_def)
  finally show ?thesis by simp
qed

lemma length_tables [simp]: "length aucCRCHi = 256" "length aucCRCLo = 256"
  by (simp_all add: aucCRCHi_def aucCRCLo_def)

lemma table_nth:
  fixes b :: u8
  shows "join16 (aucCRCLo ! unat b) (aucCRCHi ! unat b) = (modbus_bit ^^ 8) (ucast b)"
proof -
  have "map2 join16 aucCRCLo aucCRCHi ! unat b =
    map (\<lambda>i. (modbus_bit ^^ 8) (word_of_nat i)) [0..<256] ! unat b"
    by (simp only: crc_table)
  also have "\<dots> = (modbus_bit ^^ 8) (word_of_nat (unat b))"
    by (subst nth_map) (simp_all add: nth_upt del: funpow.simps of_nat_unat)
  finally show ?thesis by (simp del: funpow.simps)
qed

lemma modbus_high_byte: "(modbus_bit ^^ 8) (push_bit 8 (ucast (h :: u8))) = ucast h"
proof -
  let ?f = "\<lambda>x. (modbus_bit ^^ 8) (push_bit 8 (take_bit 8 x))" and ?g = "\<lambda>x :: u16. take_bit 8 x"
  have "additive ?f"
    using modbus_byte_additive
    by (auto simp: additive_def take_bit_xor push_bit_xor)
  moreover have "additive ?g"
    by (simp add: additive_def take_bit_xor)
  moreover have "\<forall>k<16. ?f (2 ^ k) = ?g (2 ^ k)"
    unfolding all_less_16 by (simp add: funpow_8 modbus_bit_def)
  ultimately have "?f x = ?g x" for x by (intro additive_ext [of ?f ?g x]; blast)
  moreover have "take_bit 8 (ucast h) = (ucast h :: u16)"
    by (rule bit_word_eqI) (auto simp: bit_simps dest: bit_imp_le_length)
  ultimately show ?thesis by metis
qed

lemma crc_step_reference:
  "join16 (fst (crc_step s b)) (snd (crc_step s b)) = modbus_byte (join16 (fst s) (snd s)) b"
proof -
  obtain h l where s: "s = (h, l)" by (cases s)
  have split: "join16 h l XOR ucast b = push_bit 8 (ucast h) XOR ucast (l XOR b)"
    by (rule bit_word_eqI) (auto simp: bit_simps bit_join16 dest: bit_imp_le_length)
  have "modbus_byte (join16 h l) b = ucast h XOR (modbus_bit ^^ 8) (ucast (l XOR b))"
    unfolding modbus_byte_def split
    by (simp only: additiveD [OF modbus_byte_additive] modbus_high_byte)
  also have "\<dots> = ucast h XOR join16 (aucCRCLo ! unat (l XOR b)) (aucCRCHi ! unat (l XOR b))"
    by (simp only: table_nth)
  also have "\<dots> = join16 (fst (crc_step s b)) (snd (crc_step s b))"
    by (rule bit_word_eqI)
      (auto simp: s crc_step_def Let_def bit_simps bit_join16 dest: bit_imp_le_length)
  finally show ?thesis by (simp add: s)
qed

lemma crc_fold_reference:
  "join16 (fst (foldl crc_step s bs)) (snd (foldl crc_step s bs)) =
   foldl modbus_byte (join16 (fst s) (snd s)) bs"
  by (induction bs arbitrary: s) (simp_all add: crc_step_reference)

section \<open>The laws of a byte-wise checksum\<close>

lemma crc_lo_table_inject:
  fixes a b :: u8
  assumes eq: "aucCRCLo ! unat a = aucCRCLo ! unat b"
  shows "a = b"
proof -
  have hi: "hi_byte ((modbus_bit ^^ 8) (ucast x)) = aucCRCLo ! unat x" for x :: u8
    by (simp flip: table_nth)
  have "ucast (a XOR b) = (ucast a XOR ucast b :: u16)"
    by (rule bit_word_eqI) (auto simp: bit_simps)
  then have "aucCRCLo ! unat (a XOR b) = hi_byte ((modbus_bit ^^ 8) (ucast a) XOR (modbus_bit ^^ 8) (ucast b))"
    by (simp only: hi [symmetric] additiveD [OF modbus_byte_additive])
  also have "\<dots> = aucCRCLo ! unat a XOR aucCRCLo ! unat b"
    by (simp add: hi [symmetric] hi_byte_def)  (simp add: drop_bit_xor unsigned_xor_eq)
  finally have zero: "aucCRCLo ! unat (a XOR b) = 0" using eq by simp
  have "list_all (\<lambda>x. x \<noteq> 0) (tl aucCRCLo)" by (simp add: aucCRCLo_def)
  then have "aucCRCLo ! Suc i \<noteq> 0" if "Suc i < 256" for i
    using that by (simp add: list_all_length nth_tl)
  then have "unat (a XOR b) = 0" using zero unat_u8_less [of "a XOR b"] by (cases "unat (a XOR b)") auto
  then have "a XOR b = 0" by (simp add: unat_eq_zero)
  then show "a = b" by (metis bit.xor_left_self xor.right_neutral)
qed

lemma crc_step_eqD:
  assumes "crc_step (h, l) b = crc_step (h', l') b'"
  shows "l XOR b = l' XOR b'" and "h = h'"
proof -
  from assms have lo: "aucCRCLo ! unat (l XOR b) = aucCRCLo ! unat (l' XOR b')"
    and hi: "h XOR aucCRCHi ! unat (l XOR b) = h' XOR aucCRCHi ! unat (l' XOR b')"
    by (auto simp: crc_step_def Let_def)
  from lo show eq: "l XOR b = l' XOR b'" by (rule crc_lo_table_inject)
  from hi show "h = h'" unfolding eq by (metis bit.xor_left_self xor.commute)
qed

lemma xor_left_cancel_word: "(a :: 'a::len word) XOR b = a XOR c \<longleftrightarrow> b = c"
  by (metis bit.xor_left_self)

lemma xor_right_cancel_word: "(a :: 'a::len word) XOR c = b XOR c \<longleftrightarrow> a = b"
  by (metis bit.xor_left_self xor.commute)

interpretation modbus: byte_crc crc_step
proof unfold_locales
  show "c = c'" if "crc_step c b = crc_step c' b" for c c' b
    using that by (cases c; cases c') (auto dest: crc_step_eqD simp: xor_right_cancel_word)
  show "b = b'" if "crc_step c b = crc_step c b'" for c b b'
    using that by (cases c) (auto dest: crc_step_eqD simp: xor_left_cancel_word)
  show "a = a' \<and> b = b'" if "crc_step (crc_step c a) b = crc_step (crc_step c a') b'" for c a b a' b'
  proof -
    obtain h l where c: "c = (h, l)" by (cases c)
    obtain h1 l1 h2 l2 where s1: "crc_step c a = (h1, l1)" and s2: "crc_step c a' = (h2, l2)"
      by (meson surj_pair)
    from that have "h1 = h2" "l1 XOR b = l2 XOR b'" unfolding s1 s2 by (auto dest: crc_step_eqD)
    with s1 s2 have "aucCRCLo ! unat (l XOR a) = aucCRCLo ! unat (l XOR a')"
      by (auto simp: c crc_step_def Let_def)
    then have "a = a'" by (auto dest: crc_lo_table_inject simp: xor_left_cancel_word)
    with s1 s2 \<open>l1 XOR b = l2 XOR b'\<close> show ?thesis by (auto simp: xor_left_cancel_word)
  qed
qed

section \<open>Correctness of the checksum\<close>

text \<open>C12. The table-driven routine of both protocol files computes, on every message, the
  bit-serial CRC-16/MODBUS: reflected polynomial 0xA001, initial value 0xFFFF.\<close>

theorem calculate_crc_is_modbus:
  "calculate_crc bs = crc16_modbus bs \<and> gf_calculate_crc bs = crc16_modbus bs"
  using crc_fold_reference [of "(0xFF, 0xFF)" bs]
  by (simp add: calculate_crc_def gf_calculate_crc_def gf_crc_step_eq crc16_modbus_def
      case_prod_beta join16_def)

lemma gf_calculate_crc_eq: "gf_calculate_crc = calculate_crc"
  by (rule ext) (simp add: gf_calculate_crc_def calculate_crc_def gf_crc_step_eq)

text \<open>A received frame carries the checksum low byte first. Running the checksum over the whole
  frame, trailer included, gives zero exactly when the trailer is right.\<close>

definition crc_frame :: "bytes \<Rightarrow> bytes" where
  "crc_frame body = body @ [lo_byte (calculate_crc body), hi_byte (calculate_crc body)]"

lemma crc_trailer:
  "frame @ [ucast (calculate_crc frame AND 0xFF), ucast (drop_bit 8 (calculate_crc frame))] =
    crc_frame frame"
  by (simp add: crc_frame_def hi_byte_def)

lemma aucCRC_0 [simp]: "aucCRCLo ! 0 = 0" "aucCRCHi ! 0 = 0"
  by (simp_all add: aucCRCLo_def aucCRCHi_def)

lemma crc_residue:
  "foldl crc_step (0xFF, 0xFF) (body @ [x, y]) = (0, 0) \<longleftrightarrow> join16 y x = calculate_crc body"
proof -
  obtain h l where s: "foldl crc_step (0xFF, 0xFF) body = (h, l)" by (meson surj_pair)
  have zero: "crc_step (crc_step (h, l) l) h = (0, 0)"
    by (simp add: crc_step_def Let_def)
  have "crc_step (crc_step (h, l) x) y = (0, 0) \<longleftrightarrow> x = l \<and> y = h"
    using zero modbus.step_pair [of "(h, l)" x y l h] by auto
  then show ?thesis by (auto simp: s calculate_crc_def)
qed

lemma crc_frame_residue: "foldl crc_step (0xFF, 0xFF) (crc_frame body) = (0, 0)"
  by (simp add: crc_frame_def crc_residue del: foldl_append)

lemma length_crc_frame [simp]: "length (crc_frame body) = length body + 2"
  by (simp add: crc_frame_def)

text \<open>The comparison of \<open>read_response\<close>: the trailer against the checksum of everything before.\<close>

definition crc_check :: "bytes \<Rightarrow> bool" where
  "crc_check frame =
     (let n = length frame
      in join16 (frame ! (n - 1)) (frame ! (n - 2)) = calculate_crc (take (n - 2) frame))"

lemma crc_check_residue:
  assumes "2 \<le> length frame"
  shows "crc_check frame \<longleftrightarrow> foldl crc_step (0xFF, 0xFF) frame = (0, 0)"
proof -
  let ?n = "length frame"
  have "frame = take (?n - 2) frame @ drop (?n - 2) frame" by simp
  also have "drop (?n - 2) frame = [frame ! (?n - 2), frame ! (?n - 1)]"
    using assms by (intro nth_equalityI) (auto simp: nth_Cons split: nat.splits)
  finally have split: "frame = take (?n - 2) frame @ [frame ! (?n - 2), frame ! (?n - 1)]" .
  show ?thesis
    unfolding crc_check_def Let_def
    by (subst (5) split) (rule crc_residue [symmetric])
qed

lemma crc_check_frame: "crc_check (crc_frame body)"
  by (simp add: crc_check_residue crc_frame_residue)

text \<open>C21. The receiver rejects every frame obtained from a correctly checksummed one by changing
  one byte or two adjacent bytes, wherever they are, trailer included.\<close>

theorem crc_check_detects_corruption:
  assumes "crc_frame body = xs @ [a, b] @ ys" and "(a, b) \<noteq> (a', b')"
  shows "\<not> crc_check (xs @ [a', b'] @ ys)"
  using modbus.two_bytes [OF assms(2), of "(0xFF, 0xFF)" xs ys]
    crc_frame_residue [of body] assms(1)
  by (simp add: crc_check_residue)

theorem crc_check_detects_corruption_witness:
  "\<not> crc_check ([0x01] @ [0x04, lo_byte (calculate_crc [0x01, 0x03])] @
     [hi_byte (calculate_crc [0x01, 0x03])])"
  by (rule crc_check_detects_corruption [of "[0x01, 0x03]" _ "0x03"]) (simp_all add: crc_frame_def)

end
