(* ===== verification/Modbus_Link.thy ===== *)
theory Modbus_Link
  imports Modbus_Crc Serial_Port
begin

text \<open>
  The transaction layer of the two Modbus protocols: the request frame and the loop that
  collects a response (\<open>send_read_request\<close> and \<open>read_response\<close> of
  \<open>src/drivers/tws/protocol.cpp\<close> and \<open>src/drivers/gf485/protocol.cpp\<close>). The main result says
  which byte streams are accepted, independently of how the bytes are split into reads.
\<close>

unbundle bit_operations_syntax

text \<open>The members the constructors set: \<open>port_name_\<close>, \<open>baud_rate_\<close>, \<open>timeout_ms_\<close>,
  \<open>dev_addr_\<close>. A negative timeout makes \<open>poll\<close> wait without limit.\<close>

record protocol =
  port_name :: string
  baud_rate :: int
  timeout_ms :: int
  dev_addr :: u8

abbreviation FUNC_READ :: u8 where "FUNC_READ \<equiv> 0x03"
abbreviation FUNC_WRITE_SINGLE :: u8 where "FUNC_WRITE_SINGLE \<equiv> 0x06"
abbreviation FUNC_WRITE_MULTI :: u8 where "FUNC_WRITE_MULTI \<equiv> 0x10"

section \<open>The TWS copy\<close>

definition tws_open :: "protocol \<Rightarrow> link \<Rightarrow> bool \<times> link" where
  "tws_open p l = serial_open (port_name p) (baud_rate p) l"

definition tws_close_port :: "link \<Rightarrow> link" where
  "tws_close_port l = serial_close l"

definition tws_is_open :: "link \<Rightarrow> bool" where
  "tws_is_open l = serial_is_open l"

definition tws_send_read_request :: "protocol \<Rightarrow> u16 \<Rightarrow> u16 \<Rightarrow> link \<Rightarrow> link" where
  "tws_send_read_request p start_addr num_regs l =
     (let frame = [dev_addr p, FUNC_READ, ucast (drop_bit 8 start_addr), ucast start_addr,
                   ucast (drop_bit 8 num_regs), ucast num_regs];
          crc = calculate_crc frame;
          frame = frame @ [ucast (crc AND 0xFF), ucast (drop_bit 8 crc)]
      in snd (write_raw frame l))"

text \<open>The \<open>while (total_read < expected_bytes)\<close> loop; \<open>got\<close> is the filled prefix of the
  buffer, so \<open>total_read\<close> is its length.\<close>

function tws_read_loop :: "int \<Rightarrow> nat \<Rightarrow> bytes \<Rightarrow> link \<Rightarrow> bytes \<times> link" where
  "tws_read_loop timeout expected got l =
     (if length got < expected
      then (case poll_read_for (expected - length got) timeout l of
              (ReadBytes bs, l') \<Rightarrow> tws_read_loop timeout expected (got @ bs) l'
            | (_, l') \<Rightarrow> (got, l'))
      else (got, l))"
  by pat_completeness auto
termination
  by (relation "measure (\<lambda>(t, n, got, l). n - length got)")
    (auto dest!: sym [of _ "poll_read_for _ _ _"] poll_read_for_progress)

declare tws_read_loop.simps [simp del]

definition tws_read_response :: "protocol \<Rightarrow> nat \<Rightarrow> link \<Rightarrow> bool \<times> bytes \<times> link" where
  "tws_read_response p expected l =
     (if \<not> serial_is_open l then (False, [], l)
      else let (got, l') = tws_read_loop (timeout_ms p) expected [] l;
               buffer = got @ replicate (expected - length got) 0;
               total_read = length got
           in if total_read < 5 then (False, buffer, l')
              else let received_crc =
                         (ucast (buffer ! (total_read - 2)) OR
                          push_bit 8 (ucast (buffer ! (total_read - 1))) :: u16);
                       calc_crc = calculate_crc (take (total_read - 2) buffer)
                   in if received_crc \<noteq> calc_crc then (False, buffer, l')
                      else if buffer ! 1 AND 0x80 \<noteq> 0 then (False, buffer, l')
                      else (total_read = expected, buffer, l'))"

section \<open>The GF485 copy\<close>

definition gf_open :: "protocol \<Rightarrow> link \<Rightarrow> bool \<times> link" where
  "gf_open p l = serial_open (port_name p) (baud_rate p) l"

definition gf_close_port :: "link \<Rightarrow> link" where
  "gf_close_port l = serial_close l"

definition gf_is_open :: "link \<Rightarrow> bool" where
  "gf_is_open l = serial_is_open l"

definition gf_flush :: "link \<Rightarrow> link" where
  "gf_flush l = serial_flush l"

definition gf_send_read_request :: "protocol \<Rightarrow> u16 \<Rightarrow> u16 \<Rightarrow> link \<Rightarrow> link" where
  "gf_send_read_request p start_addr num_regs l =
     (let frame = [dev_addr p, FUNC_READ, ucast (drop_bit 8 start_addr), ucast start_addr,
                   ucast (drop_bit 8 num_regs), ucast num_regs];
          crc = gf_calculate_crc frame;
          frame = frame @ [ucast (crc AND 0xFF), ucast (drop_bit 8 crc)]
      in snd (write_raw frame l))"

function gf_read_loop :: "int \<Rightarrow> nat \<Rightarrow> bytes \<Rightarrow> link \<Rightarrow> bytes \<times> link" where
  "gf_read_loop timeout expected got l =
     (if length got < expected
      then (case poll_read_for (expected - length got) timeout l of
              (ReadBytes bs, l') \<Rightarrow> gf_read_loop timeout expected (got @ bs) l'
            | (_, l') \<Rightarrow> (got, l'))
      else (got, l))"
  by pat_completeness auto
termination
  by (relation "measure (\<lambda>(t, n, got, l). n - length got)")
    (auto dest!: sym [of _ "poll_read_for _ _ _"] poll_read_for_progress)

declare gf_read_loop.simps [simp del]

definition gf_read_response :: "protocol \<Rightarrow> nat \<Rightarrow> link \<Rightarrow> bool \<times> bytes \<times> link" where
  "gf_read_response p expected l =
     (if \<not> serial_is_open l then (False, [], l)
      else let (got, l') = gf_read_loop (timeout_ms p) expected [] l;
               buffer = got @ replicate (expected - length got) 0;
               total_read = length got
           in if total_read < 5 then (False, buffer, l')
              else let received_crc =
                         (ucast (buffer ! (total_read - 2)) OR
                          push_bit 8 (ucast (buffer ! (total_read - 1))) :: u16);
                       calc_crc = gf_calculate_crc (take (total_read - 2) buffer)
                   in if received_crc \<noteq> calc_crc then (False, buffer, l')
                      else if buffer ! 1 AND 0x80 \<noteq> 0 then (False, buffer, l')
                      else (total_read = expected, buffer, l'))"

section \<open>What the read loop collects\<close>

lemma gf_read_loop_eq: "gf_read_loop t n got l = tws_read_loop t n got l"
  by (induction t n got l rule: tws_read_loop.induct)
    (subst gf_read_loop.simps, subst tws_read_loop.simps,
      auto split: prod.splits poll_read.splits)

lemma tws_read_loop_collects:
  "length got \<le> n \<Longrightarrow> fst (tws_read_loop t n got l) = take n (got @ ready_bytes_for t l)"
proof (induction t n got l rule: tws_read_loop.induct)
  case (1 t n got l)
  show ?case
  proof (cases "length got < n")
    case True
    obtain r l' where r: "poll_read_for (n - length got) t l = (r, l')" by (meson surj_pair)
    show ?thesis
    proof (cases "\<exists>bs. r = ReadBytes bs")
      case True
      then obtain bs where bs: "r = ReadBytes bs" by blast
      with r \<open>length got < n\<close> have len: "length (got @ bs) \<le> n"
        using poll_read_for_progress [of n "length got" t l bs l'] by simp
      have "fst (tws_read_loop t n got l) = fst (tws_read_loop t n (got @ bs) l')"
        using \<open>length got < n\<close> r bs by (subst tws_read_loop.simps) simp
      also have "\<dots> = take n ((got @ bs) @ ready_bytes_for t l')"
        using "1.IH" [OF \<open>length got < n\<close> r [symmetric] bs] len by simp
      finally show ?thesis using poll_read_for_ready [OF r] bs by simp
    next
      case False
      with r \<open>length got < n\<close> poll_read_for_ready [OF r] show ?thesis
        by (subst tws_read_loop.simps) (cases r; simp)
    qed
  next
    case False
    with "1.prems" show ?thesis by (subst tws_read_loop.simps) simp
  qed
qed

section \<open>Which responses are accepted\<close>

text \<open>
  A response of the expected length is good when its trailer is its checksum and the function
  code has no exception bit. Nothing else is looked at: neither the device address, nor the
  function code, nor the byte count.
\<close>

definition good_response :: "nat \<Rightarrow> bytes \<Rightarrow> bool" where
  "good_response n bs \<longleftrightarrow> length bs = n \<and> 5 \<le> n \<and> crc_check bs \<and> bs ! 1 AND 0x80 = 0"

lemma tws_read_response_iff:
  assumes "tws_read_response p n l = (ok, buf, l')"
  shows "ok \<longleftrightarrow> serial_is_open l \<and> good_response n (take n (ready_bytes_for (timeout_ms p) l))"
    and "ok \<Longrightarrow> buf = take n (ready_bytes_for (timeout_ms p) l)"
proof -
  obtain got l1 where loop: "tws_read_loop (timeout_ms p) n [] l = (got, l1)" by (meson surj_pair)
  then have got: "take n (ready_bytes_for (timeout_ms p) l) = got"
    using tws_read_loop_collects [of "[]" n "timeout_ms p" l] by simp
  then have le: "length got \<le> n" by auto
  show "ok \<longleftrightarrow> serial_is_open l \<and> good_response n (take n (ready_bytes_for (timeout_ms p) l))"
  proof (cases "5 \<le> length got")
    case True
    then have idx: "length got - 2 < length got" "length got - Suc 0 < length got" "1 < length got"
      by linarith+
    with assms loop le True show ?thesis unfolding got
      by (auto simp: tws_read_response_def Let_def good_response_def crc_check_def join16_def
          nth_append or.commute split: if_splits)
  next
    case False
    with assms loop le show ?thesis unfolding got
      by (auto simp: tws_read_response_def good_response_def Let_def split: if_splits)
  qed
  show "ok \<Longrightarrow> buf = take n (ready_bytes_for (timeout_ms p) l)"
    using assms loop unfolding got
    by (auto simp: tws_read_response_def Let_def split: if_splits)
qed

lemma gf_read_response_eq: "gf_read_response = tws_read_response"
  by (intro ext)
    (unfold gf_read_response_def tws_read_response_def gf_read_loop_eq gf_calculate_crc_eq, rule refl)

lemma gf_send_read_request_eq: "gf_send_read_request = tws_send_read_request"
  by (intro ext) (simp add: gf_send_read_request_def tws_send_read_request_def gf_calculate_crc_eq)

lemma tws_read_response_length:
  "tws_read_response p n l = (True, buf, l') \<Longrightarrow> length buf = n"
  using tws_read_response_iff [of p n l True buf l'] by (auto simp: good_response_def)

definition accepted :: "bool \<times> bytes \<times> link \<Rightarrow> bytes option" where
  "accepted r = (let (ok, buf, l') = r in if ok then Some buf else None)"

text \<open>C13. Both protocols accept a response exactly when the port is open and the first
  \<open>expected_bytes\<close> bytes that arrive without a pause longer than the timeout form a correctly
  checksummed frame without exception bit; the buffer is then those bytes. How the line splits
  the bytes into reads plays no part.\<close>

theorem read_response_accepts_iff:
  "accepted (tws_read_response p n l) =
     (if serial_is_open l \<and> good_response n (take n (ready_bytes_for (timeout_ms p) l))
      then Some (take n (ready_bytes_for (timeout_ms p) l)) else None) \<and>
   gf_read_response p n l = tws_read_response p n l"
  using tws_read_response_iff [of p n l]
  by (cases "tws_read_response p n l") (auto simp: gf_read_response_eq accepted_def)

section \<open>The fields of the link\<close>

lemma tws_read_loop_fields:
  assumes "tws_read_loop t n got l = (got', l')"
  shows "fd l' = fd l" "txlog l' = txlog l" "writes l' = writes l" "opens l' = opens l"
  using assms
proof (induction t n got l rule: tws_read_loop.induct)
  case (1 t n got l)
  obtain r l1 where r: "poll_read_for (n - length got) t l = (r, l1)" by (meson surj_pair)
  note step = poll_read_for_fields [OF r]
  {
    case 1 show ?case using "1.IH"(1) [OF _ r [symmetric]] 1 step
      by (subst (asm) tws_read_loop.simps) (auto simp: r split: if_splits poll_read.splits)
  next
    case 2 show ?case using "1.IH"(2) [OF _ r [symmetric]] 2 step
      by (subst (asm) tws_read_loop.simps) (auto simp: r split: if_splits poll_read.splits)
  next
    case 3 show ?case using "1.IH"(3) [OF _ r [symmetric]] 3 step
      by (subst (asm) tws_read_loop.simps) (auto simp: r split: if_splits poll_read.splits)
  next
    case 4 show ?case using "1.IH"(4) [OF _ r [symmetric]] 4 step
      by (subst (asm) tws_read_loop.simps) (auto simp: r split: if_splits poll_read.splits)
  }
qed

lemma tws_read_response_fields:
  assumes "tws_read_response p n l = (ok, buf, l')"
  shows "fd l' = fd l" "txlog l' = txlog l" "writes l' = writes l" "opens l' = opens l"
  using assms tws_read_loop_fields [of "timeout_ms p" n "[]" l]
  by (auto simp: tws_read_response_def Let_def split: if_splits prod.splits)

lemma tws_send_read_request_fields [port_simps]:
  "fd (tws_send_read_request p a k l) = fd l"
  "script (tws_send_read_request p a k l) = script l"
  "rxbuf (tws_send_read_request p a k l) = rxbuf l"
  "opens (tws_send_read_request p a k l) = opens l"
  by (simp_all add: tws_send_read_request_def Let_def port_simps)

lemma modbus_query:
  assumes "tws_read_response p n (tws_send_read_request p a k l0) = (ok, buf, l')"
    and "fd l0 = fd l" "opens l0 = opens l"
  shows "(ok \<longrightarrow> 0 \<le> fd l \<and> length buf = n) \<and> fd l' = fd l \<and> opens l' = opens l"
  using assms tws_read_response_length [of p n _ buf l'] tws_read_response_fields [OF assms(1)]
    tws_read_response_iff(1) [OF assms(1)]
  by (auto simp: port_simps serial_is_open_def)

section \<open>Answering devices\<close>

text \<open>The reply to a read request: address, function code, byte count, the bytes of the
  registers, checksum.\<close>

definition modbus_reply :: "u8 \<Rightarrow> bytes \<Rightarrow> bytes" where
  "modbus_reply dev data = crc_frame (dev # FUNC_READ # word_of_nat (length data) # data)"

lemma length_modbus_reply [simp]: "length (modbus_reply dev data) = length data + 5"
  by (simp add: modbus_reply_def)

lemma modbus_reply_nth: "i < length data \<Longrightarrow> modbus_reply dev data ! (3 + i) = data ! i"
  by (simp add: modbus_reply_def crc_frame_def nth_append eval_nat_numeral)

lemma modbus_reply_good: "good_response (length data + 5) (modbus_reply dev data)"
proof -
  have "crc_check (modbus_reply dev data)"
    unfolding modbus_reply_def by (rule crc_check_frame)
  moreover have "modbus_reply dev data ! 1 = FUNC_READ"
    by (simp add: modbus_reply_def crc_frame_def)
  ultimately show ?thesis by (simp add: good_response_def)
qed

lemma modbus_query_answered:
  assumes "0 \<le> fd l" "rxbuf l = []" "take n (arriving l) = modbus_reply dev data"
    and "n = length data + 5"
  shows "\<exists>l'. tws_read_response p n (tws_send_read_request p a k l) =
    (True, modbus_reply dev data, l')"
proof -
  let ?l = "tws_send_read_request p a k l"
  obtain ok buf l' where r: "tws_read_response p n ?l = (ok, buf, l')" by (metis surj_pair)
  have "arriving ?l = arriving l" by (simp add: port_simps arriving_def)
  then obtain rest where rest: "ready_bytes_for (timeout_ms p) ?l = arriving l @ rest"
    using arriving_ready_for [of ?l "timeout_ms p"] assms(2) by (auto simp: port_simps)
  have "n \<le> length (arriving l)" using arg_cong [OF assms(3), of length] assms(4) by simp
  with rest assms(3) have "take n (ready_bytes_for (timeout_ms p) ?l) = modbus_reply dev data" by simp
  with tws_read_response_iff [OF r] assms modbus_reply_good [of data dev] have
    "ok" "buf = modbus_reply dev data"
    by (auto simp: serial_is_open_def port_simps)
  with r show ?thesis by auto
qed

definition demo_protocol :: protocol where
  "demo_protocol =
     \<lparr>port_name = ''/dev/ttyUSB0'', baud_rate = 115200, timeout_ms = 300, dev_addr = 1\<rparr>"

end
