(* ===== verification/Tws_Protocol.thy ===== *)
theory Tws_Protocol
  imports Modbus_Link Reader_Interface
begin

text \<open>
  The TWS battery protocol, \<open>src/drivers/tws/protocol.cpp\<close>: the register readers, the
  commands, and what each of them does with the status record. A reader returns \<^term>\<open>None\<close>
  only if it would read a buffer out of bounds, which is proved impossible.
\<close>

unbundle bit_operations_syntax

section \<open>Little-endian registers\<close>

definition get_u16 :: "bytes \<Rightarrow> nat \<Rightarrow> u16 option" where
  "get_u16 buf offset = do {
     lo \<leftarrow> byte_at buf offset;
     hi \<leftarrow> byte_at buf (offset + 1);
     Some (ucast lo OR push_bit 8 (ucast hi))
   }"

definition get_u32 :: "bytes \<Rightarrow> nat \<Rightarrow> u32 option" where
  "get_u32 buf offset = do {
     a \<leftarrow> get_u16 buf offset;
     b \<leftarrow> get_u16 buf (offset + 2);
     Some (ucast a OR push_bit 16 (ucast b))
   }"

definition get_i32 :: "bytes \<Rightarrow> nat \<Rightarrow> int option" where
  "get_i32 buf offset = map_option sint (get_u32 buf offset)"

section \<open>The readers\<close>

abbreviation "REG_IO_CONTROL \<equiv> (0x9014 :: u16)"
abbreviation "REG_VERSION_SW \<equiv> (0x9026 :: u16)"
abbreviation "REG_SOH \<equiv> (0x9029 :: u16)"
abbreviation "REG_CYCLES \<equiv> (0x902C :: u16)"

definition tws_decode_basic :: "bytes \<Rightarrow> battery_status \<Rightarrow> battery_status option" where
  "tws_decode_basic buf status = do {
     ws \<leftarrow> get_u16 buf 3;
     v \<leftarrow> get_u32 buf 7;
     i \<leftarrow> get_i32 buf 11;
     mx \<leftarrow> get_u16 buf 15;
     mn \<leftarrow> get_u16 buf 17;
     t \<leftarrow> get_u16 buf 19;
     ps \<leftarrow> get_u32 buf 27;
     Some (status\<lparr>work_state := ws,
       voltage := ddiv (of_int (uint v)) 1000,
       current := ddiv (of_int i) 1000,
       max_cell_voltage := ddiv (of_int (uint mx)) 1000,
       min_cell_voltage := ddiv (of_int (uint mn)) 1000,
       temperature := fsub (of_int (uint t)) 40,
       protect_status := ps\<rparr>)
   }"

definition tws_read_basic_info ::
    "protocol \<Rightarrow> battery_status \<Rightarrow> link \<Rightarrow> (bool \<times> battery_status \<times> link) option" where
  "tws_read_basic_info p status l =
     (let l = serial_flush l;
          l = tws_send_read_request p 0x9000 15 l;
          (ok, buf, l) = tws_read_response p 35 l
      in if ok then map_option (\<lambda>s. (True, s, l)) (tws_decode_basic buf status)
         else Some (False, status, l))"

definition tws_read_version_info ::
    "protocol \<Rightarrow> battery_status \<Rightarrow> link \<Rightarrow> (bool \<times> battery_status \<times> link) option" where
  "tws_read_version_info p status l =
     (let l = serial_flush l;
          l = tws_send_read_request p REG_VERSION_SW 2 l;
          (ok, resp, l) = tws_read_response p 9 l
      in if \<not> ok then Some (False, status, l)
         else do {
           sw \<leftarrow> get_u16 resp 3;
           hw \<leftarrow> get_u16 resp 5;
           let status = status\<lparr>sw_version := sw, hw_version := hw\<rparr>;
           let l = serial_flush (usleep 50000 l);
           let l = tws_send_read_request p REG_SOH 1 l;
           let (ok, resp, l) = tws_read_response p 7 l;
           status \<leftarrow> (if ok then map_option (\<lambda>v. status\<lparr>soh := v\<rparr>) (get_u16 resp 3)
                       else Some status);
           let l = serial_flush (usleep 50000 l);
           let l = tws_send_read_request p REG_CYCLES 2 l;
           let (ok, resp, l) = tws_read_response p 9 l;
           status \<leftarrow> (if ok then map_option (\<lambda>v. status\<lparr>cycles := v\<rparr>) (get_u32 resp 3)
                       else Some status);
           Some (True, status, l)
         })"

definition tws_decode_capacity :: "bytes \<Rightarrow> battery_status \<Rightarrow> battery_status option" where
  "tws_decode_capacity buf status = do {
     pc \<leftarrow> get_u16 buf 3;
     sh \<leftarrow> get_u16 buf 5;
     ch \<leftarrow> get_u32 buf 7;
     let pct = ddiv (of_int (uint pc)) 100;
     let chg = ddiv (of_int (uint ch)) 1000;
     cap \<leftarrow> ddiv_checked chg (if pct > dlit (1/1000) then pct else 1);
     Some (status\<lparr>percentage := pct, soh := sh, charge := chg, capacity := cap\<rparr>)
   }"

definition tws_read_capacity_info ::
    "protocol \<Rightarrow> battery_status \<Rightarrow> link \<Rightarrow> (bool \<times> battery_status \<times> link) option" where
  "tws_read_capacity_info p status l =
     (let l = serial_flush l;
          l = tws_send_read_request p 0x9028 4 l;
          (ok, buf, l) = tws_read_response p 13 l
      in if ok then map_option (\<lambda>s. (True, s, l)) (tws_decode_capacity buf status)
         else Some (False, status, l))"

definition tws_decode_io :: "bytes \<Rightarrow> battery_status \<Rightarrow> battery_status option" where
  "tws_decode_io buf status = do {
     io \<leftarrow> get_u32 buf 3;
     Some (status\<lparr>io_state := io, power_on := (if io AND 0x0A = 0x0A then 1 else 0)\<rparr>)
   }"

definition tws_read_io_state ::
    "protocol \<Rightarrow> battery_status \<Rightarrow> link \<Rightarrow> (bool \<times> battery_status \<times> link) option" where
  "tws_read_io_state p status l =
     (let l = serial_flush (usleep 50000 l);
          l = tws_send_read_request p REG_IO_CONTROL 2 l;
          (ok, buf, l) = tws_read_response p 9 l
      in if ok then map_option (\<lambda>s. (True, s, l)) (tws_decode_io buf status)
         else Some (False, status, l))"

text \<open>The serial number is the C string in the 32 register bytes.\<close>

definition tws_read_serial_number ::
    "protocol \<Rightarrow> bytes \<Rightarrow> link \<Rightarrow> (bool \<times> bytes \<times> link) option" where
  "tws_read_serial_number p sn l =
     (let l = serial_flush l;
          l = tws_send_read_request p 0x9016 16 l;
          (ok, buf, l) = tws_read_response p 37 l
      in if ok
         then map_option (\<lambda>cs. (True, takeWhile (\<lambda>c. c \<noteq> 0) cs, l))
                (those (map (\<lambda>i. byte_at buf (3 + i)) [0..<32]))
         else Some (False, sn, l))"

text \<open>Write single register; on failure, write multiple registers with a count of one.\<close>

definition tws_set_discharge_output :: "protocol \<Rightarrow> bool \<Rightarrow> link \<Rightarrow> bool \<times> link" where
  "tws_set_discharge_output p enable l =
     (let val = (if enable then 0x0003 else 0x0001 :: u16);
          l = serial_flush l;
          f6 = [dev_addr p, FUNC_WRITE_SINGLE, ucast (drop_bit 8 REG_IO_CONTROL),
                ucast REG_IO_CONTROL, ucast (drop_bit 8 val), ucast val];
          crc = calculate_crc f6;
          l = snd (write_raw (f6 @ [ucast (crc AND 0xFF), ucast (drop_bit 8 crc)]) l);
          (ok, resp, l) = tws_read_response p 8 l
      in if ok then (True, l)
         else let l = serial_flush (usleep 50000 l);
                  f10 = [dev_addr p, FUNC_WRITE_MULTI, ucast (drop_bit 8 REG_IO_CONTROL),
                         ucast REG_IO_CONTROL, 0x00, 0x01, 0x02, ucast (drop_bit 8 val), ucast val];
                  crc = calculate_crc f10;
                  l = snd (write_raw (f10 @ [ucast (crc AND 0xFF), ucast (drop_bit 8 crc)]) l);
                  (ok, resp, l) = tws_read_response p 8 l
              in (ok, l))"

section \<open>Register reads are in bounds\<close>

lemma get_u16_Some [decode_simps]:
  "offset + 1 < length buf \<Longrightarrow>
    get_u16 buf offset = Some (join16 (buf ! (offset + 1)) (buf ! offset))"
  by (simp add: get_u16_def byte_at_def join16_def or.commute)

lemma get_u32_Some [decode_simps]:
  "offset + 3 < length buf \<Longrightarrow>
    get_u32 buf offset = Some (join32 (join16 (buf ! (offset + 3)) (buf ! (offset + 2)))
      (join16 (buf ! (offset + 1)) (buf ! offset)))"
  by (simp add: get_u32_def decode_simps join32_def eval_nat_numeral)

lemma get_i32_Some [decode_simps]:
  "offset + 3 < length buf \<Longrightarrow>
    get_i32 buf offset = Some (sint (join32 (join16 (buf ! (offset + 3)) (buf ! (offset + 2)))
      (join16 (buf ! (offset + 1)) (buf ! offset))))"
  by (simp add: get_i32_def decode_simps)

section \<open>The readers fit the interface\<close>

text \<open>A reader flushes, asks, waits and decodes.\<close>

lemma tws_reader_shapes:
  "tws_read_basic_info p st l =
    (case tws_read_response p 35 (tws_send_read_request p 0x9000 15 (serial_flush l)) of
      (ok, buf, l') \<Rightarrow> if ok then map_option (\<lambda>s. (True, s, l')) (tws_decode_basic buf st)
        else Some (False, st, l'))"
  "tws_read_capacity_info p st l =
    (case tws_read_response p 13 (tws_send_read_request p 0x9028 4 (serial_flush l)) of
      (ok, buf, l') \<Rightarrow> if ok then map_option (\<lambda>s. (True, s, l')) (tws_decode_capacity buf st)
        else Some (False, st, l'))"
  "tws_read_io_state p st l =
    (case tws_read_response p 9 (tws_send_read_request p REG_IO_CONTROL 2
        (serial_flush (usleep 50000 l))) of
      (ok, buf, l') \<Rightarrow> if ok then map_option (\<lambda>s. (True, s, l')) (tws_decode_io buf st)
        else Some (False, st, l'))"
  by (simp_all add: tws_read_basic_info_def tws_read_capacity_info_def tws_read_io_state_def)

lemma tws_basic_reader: "group_reader (tws_read_basic_info p) copy_basic"
proof (rule group_readerI [OF tws_reader_shapes(1)])
  show "\<exists>f. (\<forall>st. tws_decode_basic buf st = Some (f st)) \<and>
      (\<forall>st y. f (copy_basic st y) = copy_basic (f st) y) \<and> (\<forall>st. cycles (f st) = cycles st)"
    if "length buf = 35" for buf
    using that by (intro exI [of _ "\<lambda>st. the (tws_decode_basic buf st)"])
      (simp add: tws_decode_basic_def decode_simps copy_defs)
qed (auto dest: modbus_query simp: port_simps)

text \<open>The guard keeps the divisor of the capacity from being zero.\<close>

lemma percentage_guard: "dlit (1/1000) < ddiv (of_int (uint pc)) 100 \<longleftrightarrow> pc \<noteq> 0" for pc :: u16
proof
  assume "pc \<noteq> 0"
  then have n: "1 \<le> uint pc" using uint_ge_0 [of pc] by (metis antisym_conv3 int_one_le_iff_zero_less linorder_not_less uint_0_iff)
  have "of_int (uint pc) - of_int (uint pc) / 2 ^ 53 \<le> ddiv (of_int (uint pc)) (of_int 100) * of_int 100"
    by (rule ddiv_scaled_bounds) simp_all
  then have "of_int (uint pc) * (1 - 1 / 2 ^ 53) \<le> ddiv (of_int (uint pc)) 100 * 100"
    by (simp add: algebra_simps)
  moreover have "1 * (1 - 1 / 2 ^ 53) \<le> of_int (uint pc) * (1 - 1 / 2 ^ 53 :: rat)"
  proof (rule mult_right_mono)
    show "1 \<le> (of_int (uint pc) :: rat)" using n by (metis of_int_1 of_int_le_iff)
  qed simp
  ultimately have "1/200 \<le> ddiv (of_int (uint pc)) 100" by simp
  moreover have "dlit (1/1000) \<le> 1/1000 + 1/1000 / 2 ^ 53"
    unfolding dlit_def by (rule rnd_bounds) simp
  ultimately show "dlit (1/1000) < ddiv (of_int (uint pc)) 100" by simp
next
  assume "dlit (1/1000) < ddiv (of_int (uint pc)) 100"
  moreover have "0 < dlit (1/1000)" unfolding dlit_def by (rule rnd_pos) simp_all
  ultimately show "pc \<noteq> 0" by auto
qed

lemma guarded_capacity:
  "ddiv_checked chg (if ddiv (of_int (uint pc)) 100 > dlit (1/1000) then ddiv (of_int (uint pc)) 100 else 1) =
    Some (ddiv chg (if ddiv (of_int (uint pc)) 100 > dlit (1/1000) then ddiv (of_int (uint pc)) 100 else 1))"
  for pc :: u16
proof -
  have "0 \<le> dlit (1/1000)" by (simp add: dlit_def rnd_nonneg)
  then show ?thesis by (auto simp: ddiv_checked_def)
qed

lemma tws_capacity_reader: "group_reader (tws_read_capacity_info p) copy_capacity"
proof (rule group_readerI [OF tws_reader_shapes(2)])
  show "\<exists>f. (\<forall>st. tws_decode_capacity buf st = Some (f st)) \<and>
      (\<forall>st y. f (copy_capacity st y) = copy_capacity (f st) y) \<and> (\<forall>st. cycles (f st) = cycles st)"
    if "length buf = 13" for buf
    using that by (intro exI [of _ "\<lambda>st. the (tws_decode_capacity buf st)"])
      (simp add: tws_decode_capacity_def decode_simps copy_defs Let_def guarded_capacity
        del: of_int_uint if_split)
qed (auto dest: modbus_query simp: port_simps)

lemma tws_io_reader: "group_reader (tws_read_io_state p) copy_io"
proof (rule group_readerI [OF tws_reader_shapes(3)])
  show "\<exists>f. (\<forall>st. tws_decode_io buf st = Some (f st)) \<and>
      (\<forall>st y. f (copy_io st y) = copy_io (f st) y) \<and> (\<forall>st. cycles (f st) = cycles st)"
    if "length buf = 9" for buf
    using that by (intro exI [of _ "\<lambda>st. the (tws_decode_io buf st)"])
      (simp add: tws_decode_io_def decode_simps copy_defs)
qed (auto dest: modbus_query simp: port_simps)

interpretation tws: fieldwise_protocol
  "tws_read_basic_info p" "tws_read_capacity_info p" "tws_read_io_state p" for p
  by (intro fieldwise_protocol.intro tws_basic_reader tws_capacity_reader tws_io_reader)

section \<open>What a reply means\<close>

definition tws_reply :: "u8 \<Rightarrow> u16 list \<Rightarrow> bytes" where
  "tws_reply dev regs = modbus_reply dev (le_registers regs)"

lemma tws_reply_u16:
  "i < length regs \<Longrightarrow> get_u16 (tws_reply dev regs) (3 + 2 * i) = Some (regs ! i)"
  using modbus_reply_nth [of "2 * i" "le_registers regs" dev]
    modbus_reply_nth [of "Suc (2 * i)" "le_registers regs" dev]
  by (simp add: get_u16_Some tws_reply_def registers_nth)

lemma tws_reply_u32:
  "i + 1 < length regs \<Longrightarrow>
    get_u32 (tws_reply dev regs) (3 + 2 * i) = Some (join32 (regs ! (i + 1)) (regs ! i))"
  using tws_reply_u16 [of i regs dev] tws_reply_u16 [of "i + 1" regs dev]
  by (simp add: get_u32_def join32_def add.commute)

lemma tws_reply_registers:
  "i < length regs \<Longrightarrow> k = 3 + 2 * i \<Longrightarrow> get_u16 (tws_reply dev regs) k = Some (regs ! i)"
  "Suc i < length regs \<Longrightarrow> k = 3 + 2 * i \<Longrightarrow>
    get_u32 (tws_reply dev regs) k = Some (join32 (regs ! Suc i) (regs ! i))"
  "Suc i < length regs \<Longrightarrow> k = 3 + 2 * i \<Longrightarrow>
    get_i32 (tws_reply dev regs) k = Some (sint (join32 (regs ! Suc i) (regs ! i)))"
  using tws_reply_u16 [of i regs dev] tws_reply_u32 [of i regs dev]
  by (auto simp: get_i32_def)

lemma tws_query_answered:
  assumes "0 \<le> fd l" "take n (arriving l) = tws_reply dev regs" "n = 2 * length regs + 5"
  shows "\<exists>l'. tws_read_response p n (tws_send_read_request p a k (serial_flush l)) =
    (True, tws_reply dev regs, l')"
  using modbus_query_answered [of "serial_flush l" n dev "le_registers regs" p a k] assms
  by (simp add: port_simps tws_reply_def arriving_def)

definition tws_basic_of_registers :: "u16 list \<Rightarrow> battery_status \<Rightarrow> battery_status" where
  "tws_basic_of_registers r st = st\<lparr>work_state := r ! 0,
     voltage := ddiv (of_int (uint (join32 (r ! 3) (r ! 2)))) 1000,
     current := ddiv (of_int (sint (join32 (r ! 5) (r ! 4)))) 1000,
     max_cell_voltage := ddiv (of_int (uint (r ! 6))) 1000,
     min_cell_voltage := ddiv (of_int (uint (r ! 7))) 1000,
     temperature := of_int (uint (r ! 8) - 40),
     protect_status := join32 (r ! 13) (r ! 12)\<rparr>"

lemma tws_decode_basic_reply:
  assumes "length r = 15"
  shows "tws_decode_basic (tws_reply dev r) st = Some (tws_basic_of_registers r st)"
proof -
  have t: "fsub (of_int (uint (r ! 8))) 40 = of_int (uint (r ! 8) - 40)"
  proof -
    have "\<bar>uint (r ! 8) - 40\<bar> < 16777216"
      using uint_u16_less [of "r ! 8"] uint_ge_0 [of "r ! 8"] by linarith
    then show ?thesis using fsub_of_int [of "uint (r ! 8)" 40] by simp
  qed
  show ?thesis
    using assms t by (simp add: tws_decode_basic_def tws_basic_of_registers_def
        tws_reply_registers(1) [where i = 0] tws_reply_registers(2) [where i = 2]
        tws_reply_registers(3) [where i = 4] tws_reply_registers(1) [where i = 6]
        tws_reply_registers(1) [where i = 7] tws_reply_registers(1) [where i = 8]
        tws_reply_registers(2) [where i = 12])
qed

text \<open>C18. When the pack answers the basic-information request with fifteen registers, in any
  split into reads, the reader succeeds and the record holds exactly the documented register
  map; the fields outside the map keep their values.\<close>

theorem tws_basic_info_of_reply:
  assumes "0 \<le> fd l" "length regs = 15" "take 35 (arriving l) = tws_reply dev regs"
  shows "\<exists>l'. tws_read_basic_info p st l = Some (True, tws_basic_of_registers regs st, l')"
proof -
  obtain l' where "tws_read_response p 35 (tws_send_read_request p 0x9000 15 (serial_flush l)) =
      (True, tws_reply dev regs, l')"
    using tws_query_answered assms by fastforce
  then show ?thesis
    by (simp add: tws_read_basic_info_def tws_decode_basic_reply [OF assms(2)])
qed

definition tws_demo_regs :: "u16 list" where
  "tws_demo_regs = [1, 0, 48000, 0, 65036, 65535, 3720, 3701, 65, 0, 0, 0, 2, 0, 0]"

theorem tws_basic_info_of_reply_witness:
  "\<exists>l'. tws_read_basic_info demo_protocol zero_status (byte_line (tws_reply 1 tws_demo_regs)) =
     Some (True, tws_basic_of_registers tws_demo_regs zero_status, l')"
proof (rule tws_basic_info_of_reply)
  show "0 \<le> fd (byte_line (tws_reply 1 tws_demo_regs))" by simp
  show "length tws_demo_regs = 15" by (simp add: tws_demo_regs_def)
  show "take 35 (arriving (byte_line (tws_reply 1 tws_demo_regs))) = tws_reply 1 tws_demo_regs"
    by (simp add: tws_reply_def tws_demo_regs_def)
qed

text \<open>A capacity reply sets the state of charge, the health and the remaining charge from the
  registers; the full capacity is the charge divided by the state of charge, or the charge itself
  exactly when the reported percentage is zero, so the division never has a zero divisor.\<close>

theorem tws_capacity_info_of_reply:
  assumes "0 \<le> fd l" "length r = 4" "take 13 (arriving l) = tws_reply dev r"
  shows "\<exists>l'. tws_read_capacity_info p st l = Some (True,
    (let pct = ddiv (of_int (uint (r ! 0))) 100;
         chg = ddiv (of_int (uint (join32 (r ! 3) (r ! 2)))) 1000
     in st\<lparr>percentage := pct, soh := r ! 1, charge := chg,
           capacity := ddiv chg (if r ! 0 = 0 then 1 else pct)\<rparr>), l')"
proof -
  obtain l' where "tws_read_response p 13 (tws_send_read_request p 0x9028 4 (serial_flush l)) =
      (True, tws_reply dev r, l')"
    using tws_query_answered assms by fastforce
  moreover have "(if r ! 0 = 0 then 1 else x) = (if dlit (1/1000) < ddiv (of_int (uint (r ! 0))) 100 then x else 1)"
    for x :: double
    using percentage_guard [of "r ! 0"] by simp
  ultimately show ?thesis using assms(2)
    by (simp add: tws_read_capacity_info_def tws_decode_capacity_def Let_def guarded_capacity
      tws_reply_registers(1) [where i = 0] tws_reply_registers(1) [where i = 1]
      tws_reply_registers(2) [where i = 2] del: of_int_uint if_split)
qed

theorem tws_capacity_info_of_reply_witness:
  "\<exists>l'. tws_read_capacity_info demo_protocol zero_status
      (byte_line (tws_reply 1 [85, 99, 20000, 0])) = Some (True,
    (let pct = ddiv (of_int (uint ([85, 99, 20000, 0] ! 0 :: u16))) 100;
         chg = ddiv (of_int (uint (join32 ([85, 99, 20000, 0] ! 3) ([85, 99, 20000, 0] ! 2)))) 1000
     in zero_status\<lparr>percentage := pct, soh := [85, 99, 20000, 0] ! 1, charge := chg,
           capacity := ddiv chg (if [85, 99, 20000, 0] ! 0 = (0 :: u16) then 1 else pct)\<rparr>), l')"
  by (rule tws_capacity_info_of_reply [where dev = 1]) (simp_all add: tws_reply_def)

lemma io_mask: "w AND 0x0A = 0x0A \<longleftrightarrow> bit w 1 \<and> bit w 3" for w :: u32
proof -
  have "(0x0A :: u32) = 2 ^ 1 OR 2 ^ 3" by simp
  then have bits: "bit (0x0A :: u32) n \<longleftrightarrow> n = 1 \<or> n = 3" for n
    by (simp only: bit_or_iff bit_exp_iff) auto
  show ?thesis
  proof
    assume "w AND 0x0A = 0x0A"
    then have "bit (w AND 0x0A) n = bit (0x0A :: u32) n" for n by simp
    from this [of 1] this [of 3] show "bit w 1 \<and> bit w 3"
      by (simp only: bit_and_iff bits) simp
  next
    assume "bit w 1 \<and> bit w 3"
    then show "w AND 0x0A = 0x0A"
      by (intro bit_word_eqI) (auto simp only: bit_and_iff bits)
  qed
qed

text \<open>An IO-state reply sets the IO word, and the pack counts as powered exactly when its bits
  1 and 3 (pre-discharge and discharge switch) are both set.\<close>

theorem tws_io_state_of_reply:
  assumes "0 \<le> fd l" "length r = 2" "take 9 (arriving l) = tws_reply dev r"
  shows "\<exists>l'. tws_read_io_state p st l = Some (True,
    st\<lparr>io_state := join32 (r ! 1) (r ! 0),
      power_on := (if bit (r ! 0) 1 \<and> bit (r ! 0) 3 then 1 else 0)\<rparr>, l')"
proof -
  have "arriving (usleep 50000 l) = arriving l" by (simp add: arriving_def port_simps)
  with assms obtain l' where "tws_read_response p 9 (tws_send_read_request p REG_IO_CONTROL 2
      (serial_flush (usleep 50000 l))) = (True, tws_reply dev r, l')"
    using tws_query_answered [of "usleep 50000 l" 9 dev r] by (fastforce simp: port_simps)
  then show ?thesis using assms(2)
    by (simp add: tws_read_io_state_def tws_decode_io_def tws_reply_registers(2) [where i = 0]
      io_mask bit_join32)
qed

theorem tws_io_state_of_reply_witness:
  "\<exists>l'. tws_read_io_state demo_protocol zero_status (byte_line (tws_reply 1 [0x0B, 0])) =
    Some (True, zero_status\<lparr>io_state := join32 ([0x0B, 0] ! 1) ([0x0B, 0] ! 0),
      power_on := (if bit ([0x0B, 0] ! 0 :: u16) 1 \<and> bit ([0x0B, 0] ! 0 :: u16) 3 then 1 else 0)\<rparr>, l')"
  by (rule tws_io_state_of_reply [where dev = 1]) (simp_all add: tws_reply_def)

section \<open>The discharge switch\<close>

definition tws_single_write :: "u8 \<Rightarrow> bool \<Rightarrow> bytes" where
  "tws_single_write dev enable =
     crc_frame [dev, FUNC_WRITE_SINGLE, 0x90, 0x14, 0, if enable then 3 else 1]"

definition tws_multi_write :: "u8 \<Rightarrow> bool \<Rightarrow> bytes" where
  "tws_multi_write dev enable =
     crc_frame [dev, FUNC_WRITE_MULTI, 0x90, 0x14, 0, 1, 2, 0, if enable then 3 else 1]"

lemma tws_discharge_frames:
  "crc_frame [dev, FUNC_WRITE_SINGLE, ucast (drop_bit 8 REG_IO_CONTROL), ucast REG_IO_CONTROL,
     ucast (drop_bit 8 (if enable then 3 else 1 :: u16)), ucast (if enable then 3 else 1 :: u16)] =
     tws_single_write dev enable"
  "crc_frame [dev, FUNC_WRITE_MULTI, ucast (drop_bit 8 REG_IO_CONTROL), ucast REG_IO_CONTROL,
     0, 1, 2, ucast (drop_bit 8 (if enable then 3 else 1 :: u16)), ucast (if enable then 3 else 1 :: u16)] =
     tws_multi_write dev enable"
proof -
  have "(ucast REG_IO_CONTROL :: u8) = 0x14" by simp
  then show
    "crc_frame [dev, FUNC_WRITE_SINGLE, ucast (drop_bit 8 REG_IO_CONTROL), ucast REG_IO_CONTROL,
       ucast (drop_bit 8 (if enable then 3 else 1 :: u16)), ucast (if enable then 3 else 1 :: u16)] =
       tws_single_write dev enable"
    "crc_frame [dev, FUNC_WRITE_MULTI, ucast (drop_bit 8 REG_IO_CONTROL), ucast REG_IO_CONTROL,
       0, 1, 2, ucast (drop_bit 8 (if enable then 3 else 1 :: u16)), ucast (if enable then 3 else 1 :: u16)] =
       tws_multi_write dev enable"
    by (simp_all only: tws_single_write_def tws_multi_write_def) (cases enable; simp)+
qed

text \<open>Switching the discharge output sends the checksummed single-register write; only when its
  confirmation is missing or bad does it send the multi-register write with the same value. On an
  open port that accepts writes these are the only frames sent, and a confirmed first write is
  reported as success.\<close>

theorem tws_set_discharge_output_frames:
  assumes "writes_ok l" and "tws_set_discharge_output p enable l = (ok, l')"
  shows "if good_response 8 (take 8 (arriving_for (timeout_ms p) l))
    then ok = True \<and> txlog l' = txlog l @ [tws_single_write (dev_addr p) enable]
    else txlog l' = txlog l @ [tws_single_write (dev_addr p) enable, tws_multi_write (dev_addr p) enable]"
proof -
  let ?w = "(serial_flush l)\<lparr>txlog := txlog l @ [tws_single_write (dev_addr p) enable]\<rparr>"
  obtain ok1 b1 l1 where r1: "tws_read_response p 8 ?w = (ok1, b1, l1)" by (metis surj_pair)
  note f1 = tws_read_response_fields [OF r1]
  have open_l: "0 \<le> fd l" "writes l = []" using assms(1) by (auto simp: writes_ok_def)
  have ready: "ready_bytes_for (timeout_ms p) ?w = arriving_for (timeout_ms p) l"
    using open_l by (simp add: arriving_for_def ready_bytes_for_def ready_bytes_def port_simps)
  have ok1: "ok1 \<longleftrightarrow> good_response 8 (take 8 (arriving_for (timeout_ms p) l))"
    using tws_read_response_iff(1) [OF r1] open_l
    unfolding ready by (simp add: serial_is_open_def port_simps)
  have w1: "snd (write_raw (tws_single_write (dev_addr p) enable) (serial_flush l)) = ?w"
    using assms(1) by (simp add: port_simps)
  let ?l2 = "serial_flush (usleep 50000 l1)"
  have ok2: "writes_ok ?l2" using f1 open_l by (simp add: writes_ok_def port_simps)
  let ?w2 = "?l2\<lparr>txlog := txlog l1 @ [tws_multi_write (dev_addr p) enable]\<rparr>"
  have w2: "snd (write_raw (tws_multi_write (dev_addr p) enable) ?l2) = ?w2"
    using ok2 by (simp add: port_simps)
  obtain okb bb lb where r2: "tws_read_response p 8 ?w2 = (okb, bb, lb)" by (metis surj_pair)
  note f2 = tws_read_response_fields [OF r2]
  have "tws_set_discharge_output p enable l = (if ok1 then (True, l1) else (okb, lb))"
    unfolding tws_set_discharge_output_def Let_def crc_trailer tws_discharge_frames w1 r1
      case_prod_conv w2 r2 by simp
  with assms(2) ok1 f1 f2 show ?thesis by (auto simp: port_simps split: if_splits)
qed

theorem tws_set_discharge_output_frames_witness:
  "if good_response 8 (take 8 (arriving_for (timeout_ms demo_protocol) (byte_line (tws_single_write 1 True))))
    then fst (tws_set_discharge_output demo_protocol True (byte_line (tws_single_write 1 True))) = True \<and>
      txlog (snd (tws_set_discharge_output demo_protocol True (byte_line (tws_single_write 1 True)))) =
        txlog (byte_line (tws_single_write 1 True)) @ [tws_single_write (dev_addr demo_protocol) True]
    else txlog (snd (tws_set_discharge_output demo_protocol True (byte_line (tws_single_write 1 True)))) =
      txlog (byte_line (tws_single_write 1 True)) @
      [tws_single_write (dev_addr demo_protocol) True, tws_multi_write (dev_addr demo_protocol) True]"
  by (rule tws_set_discharge_output_frames) (simp_all add: writes_ok_def)

end
