(* ===== verification/Gf_Protocol.thy ===== *)
theory Gf_Protocol
  imports Modbus_Link Reader_Interface
begin

text \<open>
  The GF485 battery protocol, \<open>src/drivers/gf485/protocol.cpp\<close>: Modbus with big-endian
  registers, 32-bit values with the low word first, and no IO state.
\<close>

unbundle bit_operations_syntax

section \<open>Big-endian registers\<close>

definition gf_get_u16_be :: "bytes \<Rightarrow> nat \<Rightarrow> u16 option" where
  "gf_get_u16_be buf offset = do {
     hi \<leftarrow> byte_at buf offset;
     lo \<leftarrow> byte_at buf (offset + 1);
     Some (push_bit 8 (ucast hi) OR ucast lo)
   }"

definition gf_get_i16_be :: "bytes \<Rightarrow> nat \<Rightarrow> int option" where
  "gf_get_i16_be buf offset = map_option sint (gf_get_u16_be buf offset)"

definition gf_get_u32_be :: "bytes \<Rightarrow> nat \<Rightarrow> u32 option" where
  "gf_get_u32_be buf offset = do {
     lo \<leftarrow> gf_get_u16_be buf offset;
     hi \<leftarrow> gf_get_u16_be buf (offset + 2);
     Some (ucast lo OR push_bit 16 (ucast hi))
   }"

section \<open>Write multiple registers\<close>

definition gf_write_frame :: "protocol \<Rightarrow> u16 \<Rightarrow> u16 list \<Rightarrow> bytes" where
  "gf_write_frame p start_addr values =
     (let count = word_of_nat (length values) :: u16;
          data_bytes = unat count * 2;
          frame = [dev_addr p, FUNC_WRITE_MULTI, ucast (drop_bit 8 start_addr), ucast start_addr,
                   ucast (drop_bit 8 count), ucast count, word_of_nat data_bytes] @
                  concat (map (\<lambda>v. [ucast (drop_bit 8 v), ucast v]) (take (unat count) values));
          crc = gf_calculate_crc frame
      in frame @ [ucast (crc AND 0xFF), ucast (drop_bit 8 crc)])"

definition gf_write_multiple_registers ::
    "protocol \<Rightarrow> u16 \<Rightarrow> u16 list \<Rightarrow> link \<Rightarrow> bool \<times> link" where
  "gf_write_multiple_registers p start_addr values l =
     (let l = usleep 10000 (gf_flush l);
          l = snd (write_raw (gf_write_frame p start_addr values) l);
          (ok, resp, l) = gf_read_response p 8 l
      in (ok, l))"

section \<open>The readers\<close>

definition gf_decode_basic :: "bytes \<Rightarrow> battery_status \<Rightarrow> battery_status option" where
  "gf_decode_basic buf status = do {
     v \<leftarrow> gf_get_u16_be buf 3;
     i \<leftarrow> gf_get_i16_be buf 5;
     t \<leftarrow> gf_get_u16_be buf 41;
     ps \<leftarrow> gf_get_u32_be buf 21;
     ws \<leftarrow> gf_get_u16_be buf 11;
     mx \<leftarrow> gf_get_u16_be buf 35;
     mn \<leftarrow> gf_get_u16_be buf 37;
     Some (status\<lparr>voltage := ddiv (of_int (uint v)) 100,
       current := ddiv (of_int i) 100,
       temperature := dsub (of_int (uint t)) (dlit (27315/100)),
       protect_status := ps,
       work_state := ws,
       max_cell_voltage := ddiv (of_int (uint mx)) 1000,
       min_cell_voltage := ddiv (of_int (uint mn)) 1000\<rparr>)
   }"

definition gf_read_basic_info ::
    "protocol \<Rightarrow> battery_status \<Rightarrow> link \<Rightarrow> (bool \<times> battery_status \<times> link) option" where
  "gf_read_basic_info p status l =
     (let l = usleep 10000 (gf_flush l);
          l = gf_send_read_request p 114 20 l;
          (ok, buf, l) = gf_read_response p 45 l
      in if \<not> ok then Some (False, status, l)
         else map_option (\<lambda>s. (True, s, l)) (gf_decode_basic buf status))"

definition gf_read_version_info ::
    "protocol \<Rightarrow> battery_status \<Rightarrow> link \<Rightarrow> (bool \<times> battery_status \<times> link) option" where
  "gf_read_version_info p status l =
     (let l = usleep 10000 (gf_flush l);
          l = gf_send_read_request p 1 2 l;
          (ok, buf, l) = gf_read_response p 9 l
      in if \<not> ok then Some (False, status, l)
         else do {
           sw \<leftarrow> gf_get_u16_be buf 3;
           hw \<leftarrow> gf_get_u16_be buf 5;
           let status = status\<lparr>sw_version := sw, hw_version := hw\<rparr>;
           let l = gf_flush (usleep 50000 l);
           let l = gf_send_read_request p 117 1 l;
           let (ok, buf, l) = gf_read_response p 7 l;
           status \<leftarrow> (if ok then map_option (\<lambda>v. status\<lparr>soh := v\<rparr>) (gf_get_u16_be buf 3)
                       else Some status);
           let l = gf_flush (usleep 50000 l);
           let l = gf_send_read_request p 129 1 l;
           let (ok, buf, l) = gf_read_response p 7 l;
           status \<leftarrow> (if ok then map_option (\<lambda>v. status\<lparr>cycles := ucast v\<rparr>) (gf_get_u16_be buf 3)
                       else Some status);
           Some (True, status, l)
         })"

definition gf_decode_capacity :: "bytes \<Rightarrow> battery_status \<Rightarrow> battery_status option" where
  "gf_decode_capacity buf status = do {
     pc \<leftarrow> gf_get_u16_be buf 3;
     sh \<leftarrow> gf_get_u16_be buf 5;
     ch \<leftarrow> gf_get_u16_be buf 23;
     ca \<leftarrow> gf_get_u16_be buf 27;
     de \<leftarrow> gf_get_u16_be buf 25;
     Some (status\<lparr>percentage := ddiv (of_int (uint pc)) 100,
       soh := sh,
       charge := ddiv (of_int (uint ch)) 100,
       capacity := ddiv (of_int (uint ca)) 100,
       design_capacity := ddiv (of_int (uint de)) 100\<rparr>)
   }"

definition gf_read_capacity_info ::
    "protocol \<Rightarrow> battery_status \<Rightarrow> link \<Rightarrow> (bool \<times> battery_status \<times> link) option" where
  "gf_read_capacity_info p status l =
     (let l = usleep 10000 (gf_flush l);
          l = gf_send_read_request p 116 14 l;
          (ok, buf, l) = gf_read_response p 33 l
      in if \<not> ok then Some (False, status, l)
         else map_option (\<lambda>s. (True, s, l)) (gf_decode_capacity buf status))"

definition gf_read_io_state ::
    "battery_status \<Rightarrow> link \<Rightarrow> (bool \<times> battery_status \<times> link) option" where
  "gf_read_io_state status l = Some (False, status, l)"

definition gf_read_serial_number ::
    "protocol \<Rightarrow> bytes \<Rightarrow> link \<Rightarrow> (bool \<times> bytes \<times> link) option" where
  "gf_read_serial_number p sn l =
     (let l = usleep 10000 (gf_flush l);
          l = gf_send_read_request p 100 12 l;
          (ok, buf, l) = gf_read_response p 29 l
      in if \<not> ok then Some (False, sn, l)
         else map_option (\<lambda>cs. (True, takeWhile (\<lambda>c. c \<noteq> 0) cs, l))
                (those (map (\<lambda>i. byte_at buf (3 + i)) [0..<24])))"

definition gf_set_discharge_output :: "bool \<Rightarrow> link \<Rightarrow> bool \<times> link" where
  "gf_set_discharge_output enable l = (False, l)"

section \<open>Register reads are in bounds\<close>

lemma gf_get_u16_Some [decode_simps]:
  "offset + 1 < length buf \<Longrightarrow>
    gf_get_u16_be buf offset = Some (join16 (buf ! offset) (buf ! (offset + 1)))"
  by (simp add: gf_get_u16_be_def byte_at_def join16_def)

lemma gf_get_i16_Some [decode_simps]:
  "offset + 1 < length buf \<Longrightarrow>
    gf_get_i16_be buf offset = Some (sint (join16 (buf ! offset) (buf ! (offset + 1))))"
  by (simp add: gf_get_i16_be_def decode_simps)

lemma gf_get_u32_Some [decode_simps]:
  "offset + 3 < length buf \<Longrightarrow>
    gf_get_u32_be buf offset = Some (join32 (join16 (buf ! (offset + 2)) (buf ! (offset + 3)))
      (join16 (buf ! offset) (buf ! (offset + 1))))"
  by (simp add: gf_get_u32_be_def decode_simps join32_def eval_nat_numeral)

section \<open>The readers fit the interface\<close>

lemmas gf_as_tws = gf_read_response_eq gf_send_read_request_eq gf_flush_def

lemma gf_reader_shapes:
  "gf_read_basic_info p st l =
    (case tws_read_response p 45 (tws_send_read_request p 114 20 (usleep 10000 (serial_flush l))) of
      (ok, buf, l') \<Rightarrow> if ok then map_option (\<lambda>s. (True, s, l')) (gf_decode_basic buf st)
        else Some (False, st, l'))"
  "gf_read_capacity_info p st l =
    (case tws_read_response p 33 (tws_send_read_request p 116 14 (usleep 10000 (serial_flush l))) of
      (ok, buf, l') \<Rightarrow> if ok then map_option (\<lambda>s. (True, s, l')) (gf_decode_capacity buf st)
        else Some (False, st, l'))"
  by (simp_all add: gf_read_basic_info_def gf_read_capacity_info_def gf_as_tws Let_def split: prod.split)

lemma gf_basic_reader: "group_reader (gf_read_basic_info p) copy_basic"
proof (rule group_readerI [OF gf_reader_shapes(1)])
  show "\<exists>f. (\<forall>st. gf_decode_basic buf st = Some (f st)) \<and>
      (\<forall>st y. f (copy_basic st y) = copy_basic (f st) y) \<and> (\<forall>st. cycles (f st) = cycles st)"
    if "length buf = 45" for buf
    using that by (intro exI [of _ "\<lambda>st. the (gf_decode_basic buf st)"])
      (simp add: gf_decode_basic_def decode_simps copy_defs)
qed (auto dest: modbus_query simp: port_simps)

lemma gf_capacity_reader: "group_reader (gf_read_capacity_info p) copy_capacity"
proof (rule group_readerI [OF gf_reader_shapes(2)])
  show "\<exists>f. (\<forall>st. gf_decode_capacity buf st = Some (f st)) \<and>
      (\<forall>st y. f (copy_capacity st y) = copy_capacity (f st) y) \<and> (\<forall>st. cycles (f st) = cycles st)"
    if "length buf = 33" for buf
    using that by (intro exI [of _ "\<lambda>st. the (gf_decode_capacity buf st)"])
      (simp add: gf_decode_capacity_def decode_simps copy_defs)
qed (auto dest: modbus_query simp: port_simps)

lemma gf_io_reader: "group_reader gf_read_io_state copy_io"
proof unfold_locales
  fix l :: link
  show "\<exists>ok f l'. (\<forall>st. gf_read_io_state st l = Some (ok, if ok then f st else st, l')) \<and>
       (\<forall>st y. f (copy_io st y) = copy_io (f st) y) \<and> (\<forall>st. cycles (f st) = cycles st) \<and>
       (ok \<longrightarrow> 0 \<le> fd l) \<and> fd l' = fd l \<and> opens l' = opens l"
    by (intro exI [of _ False] exI [of _ "\<lambda>st. st"] exI [of _ l]) (simp add: gf_read_io_state_def)
qed simp

interpretation gf: fieldwise_protocol
  "gf_read_basic_info p" "gf_read_capacity_info p" gf_read_io_state for p
  by (intro fieldwise_protocol.intro gf_basic_reader gf_capacity_reader gf_io_reader)

section \<open>What a reply means\<close>

definition gf_reply :: "u8 \<Rightarrow> u16 list \<Rightarrow> bytes" where
  "gf_reply dev regs = modbus_reply dev (be_registers regs)"

lemma gf_reply_u16:
  "i < length regs \<Longrightarrow> gf_get_u16_be (gf_reply dev regs) (3 + 2 * i) = Some (regs ! i)"
  using modbus_reply_nth [of "2 * i" "be_registers regs" dev]
    modbus_reply_nth [of "Suc (2 * i)" "be_registers regs" dev]
  by (simp add: gf_get_u16_Some gf_reply_def registers_nth)

lemma gf_reply_u32:
  "i + 1 < length regs \<Longrightarrow>
    gf_get_u32_be (gf_reply dev regs) (3 + 2 * i) = Some (join32 (regs ! (i + 1)) (regs ! i))"
  using gf_reply_u16 [of i regs dev] gf_reply_u16 [of "i + 1" regs dev]
  by (simp add: gf_get_u32_be_def join32_def add.commute)

lemma gf_reply_registers:
  "i < length regs \<Longrightarrow> k = 3 + 2 * i \<Longrightarrow> gf_get_u16_be (gf_reply dev regs) k = Some (regs ! i)"
  "i < length regs \<Longrightarrow> k = 3 + 2 * i \<Longrightarrow>
    gf_get_i16_be (gf_reply dev regs) k = Some (sint (regs ! i))"
  "Suc i < length regs \<Longrightarrow> k = 3 + 2 * i \<Longrightarrow>
    gf_get_u32_be (gf_reply dev regs) k = Some (join32 (regs ! Suc i) (regs ! i))"
  using gf_reply_u16 [of i regs dev] gf_reply_u32 [of i regs dev]
  by (auto simp: gf_get_i16_be_def)

lemma gf_query_answered:
  assumes "0 \<le> fd l" "take n (arriving l) = gf_reply dev regs" "n = 2 * length regs + 5"
  shows "\<exists>l'. gf_read_response p n (gf_send_read_request p a k (usleep 10000 (gf_flush l))) =
    (True, gf_reply dev regs, l')"
  using modbus_query_answered [of "usleep 10000 (serial_flush l)" n dev "be_registers regs" p a k] assms
  by (simp add: port_simps gf_reply_def arriving_def gf_as_tws)

definition gf_basic_of_registers :: "u16 list \<Rightarrow> battery_status \<Rightarrow> battery_status" where
  "gf_basic_of_registers r st = st\<lparr>
     voltage := ddiv (of_int (uint (r ! 0))) 100, current := ddiv (of_int (sint (r ! 1))) 100,
     temperature := dsub (of_int (uint (r ! 19))) (dlit (27315/100)),
     protect_status := join32 (r ! 10) (r ! 9), work_state := r ! 4,
     max_cell_voltage := ddiv (of_int (uint (r ! 16))) 1000,
     min_cell_voltage := ddiv (of_int (uint (r ! 17))) 1000\<rparr>"

definition gf_capacity_of_registers :: "u16 list \<Rightarrow> battery_status \<Rightarrow> battery_status" where
  "gf_capacity_of_registers c st = st\<lparr>
     percentage := ddiv (of_int (uint (c ! 0))) 100, soh := c ! 1,
     charge := ddiv (of_int (uint (c ! 10))) 100, capacity := ddiv (of_int (uint (c ! 12))) 100,
     design_capacity := ddiv (of_int (uint (c ! 11))) 100\<rparr>"

text \<open>C19. When the GF pack answers the requests for registers 114 to 133 and 116 to 129, the two
  readers succeed and fill the record from the documented registers: voltage, current and
  capacities in hundredths, cell extremes in thousandths, temperature from kelvin, and the 32-bit
  protection word with its low half in the lower register.\<close>

theorem gf_infos_of_reply:
  assumes "0 \<le> fd l" "length r = 20" "take 45 (arriving l) = gf_reply dev r"
    and "0 \<le> fd m" "length c = 14" "take 33 (arriving m) = gf_reply dev c"
  shows "\<exists>l' m'. gf_read_basic_info p st l = Some (True, gf_basic_of_registers r st, l') \<and>
    gf_read_capacity_info p st m = Some (True, gf_capacity_of_registers c st, m')"
proof -
  obtain l' m' where
    "gf_read_response p 45 (gf_send_read_request p 114 20 (usleep 10000 (gf_flush l))) =
      (True, gf_reply dev r, l')"
    "gf_read_response p 33 (gf_send_read_request p 116 14 (usleep 10000 (gf_flush m))) =
      (True, gf_reply dev c, m')"
    using gf_query_answered [of l 45 dev r] gf_query_answered [of m 33 dev c] assms by fastforce
  then show ?thesis using assms(2,5)
    by (simp add: gf_read_basic_info_def gf_decode_basic_def gf_read_capacity_info_def
      gf_basic_of_registers_def gf_capacity_of_registers_def
      gf_decode_capacity_def gf_reply_registers(1) [where i = 0] gf_reply_registers(2) [where i = 1]
      gf_reply_registers(1) [where i = 19] gf_reply_registers(3) [where i = 9]
      gf_reply_registers(1) [where i = 4] gf_reply_registers(1) [where i = 16]
      gf_reply_registers(1) [where i = 17] gf_reply_registers(1) [where i = 1]
      gf_reply_registers(1) [where i = 10] gf_reply_registers(1) [where i = 11]
      gf_reply_registers(1) [where i = 12])
qed

definition gf_demo_basic :: "u16 list" where
  "gf_demo_basic = [4800, 65036, 85, 99, 1, 0, 0, 0, 0, 2, 0, 0, 0, 0, 0, 0, 3720, 3701, 0, 298]"

definition gf_demo_capacity :: "u16 list" where
  "gf_demo_capacity = [85, 99, 0, 0, 0, 0, 0, 0, 0, 0, 1700, 2000, 1990, 12]"

theorem gf_infos_of_reply_witness:
  "\<exists>l' m'. gf_read_basic_info demo_protocol zero_status (byte_line (gf_reply 3 gf_demo_basic)) =
      Some (True, gf_basic_of_registers gf_demo_basic zero_status, l') \<and>
    gf_read_capacity_info demo_protocol zero_status (byte_line (gf_reply 3 gf_demo_capacity)) =
      Some (True, gf_capacity_of_registers gf_demo_capacity zero_status, m')"
  by (rule gf_infos_of_reply [where dev = 3])
    (simp_all add: gf_reply_def gf_demo_basic_def gf_demo_capacity_def)

end
