(* ===== verification/Scud_Crc.thy ===== *)
theory Scud_Crc
  imports Byte_Crc
begin

text \<open>
  \<open>ScudBmsProtocol::crc16_ccitt\<close> of \<open>src/drivers/scud485/scud_bms_driver.cpp\<close>: the byte-wise
  routine, shown to be CRC-16/XMODEM (polynomial 0x1021, initial value 0).
\<close>

unbundle bit_operations_syntax

section \<open>The routine\<close>

definition scud_crc_step :: "u16 \<Rightarrow> u8 \<Rightarrow> u16" where
  "scud_crc_step crc b =
     (let crc = drop_bit 8 crc OR push_bit 8 crc;
          crc = crc XOR ucast b;
          crc = crc XOR drop_bit 4 (crc AND 0xFF);
          crc = crc XOR push_bit 4 (push_bit 8 crc);
          crc = crc XOR push_bit 1 (push_bit 4 (crc AND 0xFF))
      in crc)"

definition crc16_ccitt :: "bytes \<Rightarrow> u16" where
  "crc16_ccitt bs = foldl scud_crc_step 0 bs"

section \<open>The bit-serial reference\<close>

definition crc_bit :: "u16 \<Rightarrow> u16 \<Rightarrow> u16" where
  "crc_bit poly c = (if bit c 15 then push_bit 1 c XOR poly else push_bit 1 c)"

definition crc_byte :: "u16 \<Rightarrow> u16 \<Rightarrow> u8 \<Rightarrow> u16" where
  "crc_byte poly c b = (crc_bit poly ^^ 8) (c XOR push_bit 8 (ucast b))"

definition crc16_msb_first :: "u16 \<Rightarrow> bytes \<Rightarrow> u16" where
  "crc16_msb_first poly bs = foldl (crc_byte poly) 0 bs"

lemma crc_bit_additive: "additive (crc_bit poly)"
  by (rule additiveI) (auto simp: crc_bit_def bit_simps intro!: bit_word_eqI)

lemma crc_bits_additive: "additive (crc_bit poly ^^ 8)"
  by (rule additive_funpow [OF crc_bit_additive])

text \<open>The byte-wise step on a zero byte is additive and agrees with eight bit steps.\<close>

lemma swap_bytes_xor: "drop_bit 8 c OR push_bit 8 c = drop_bit 8 c XOR push_bit 8 c" for c :: u16
  by (rule bit_word_eqI) (auto simp: bit_simps dest: bit_imp_le_length)

lemma scud_crc_step_0_additive: "additive (\<lambda>c. scud_crc_step c 0)"
proof -
  let ?f1 = "\<lambda>c :: u16. drop_bit 8 c XOR push_bit 8 c"
  let ?f2 = "\<lambda>c :: u16. c XOR drop_bit 4 (c AND 0xFF)"
  let ?f3 = "\<lambda>c :: u16. c XOR push_bit 4 (push_bit 8 c)"
  let ?f4 = "\<lambda>c :: u16. c XOR push_bit 1 (push_bit 4 (c AND 0xFF))"
  have step: "(\<lambda>c. scud_crc_step c 0) = (\<lambda>c. ?f4 (?f3 (?f2 (?f1 c))))"
    unfolding scud_crc_step_def Let_def swap_bytes_xor by (simp only: unsigned_0 xor.right_neutral)
  have f1: "additive ?f1" and f2: "additive ?f2" and f3: "additive ?f3" and f4: "additive ?f4"
    by (intro additive_intros)+
  show ?thesis
    unfolding step by (rule additive_comp [OF f4 additive_comp [OF f3 additive_comp [OF f2 f1]]])
qed

lemma scud_crc_step_0: "scud_crc_step c 0 = (crc_bit 0x1021 ^^ 8) c"
proof (rule additive_ext [OF scud_crc_step_0_additive crc_bits_additive])
  have "\<forall>k<16. scud_crc_step (2 ^ k) 0 = (crc_bit 0x1021 ^^ 8) (2 ^ k)"
    unfolding all_less_16 by (simp add: funpow_8 crc_bit_def scud_crc_step_def)
  then show "scud_crc_step (2 ^ k) 0 = (crc_bit 0x1021 ^^ 8) (2 ^ k)" if "k < 16" for k
    using that by blast
qed

lemma scud_crc_step_shift: "scud_crc_step c b = scud_crc_step (c XOR push_bit 8 (ucast b)) 0"
proof -
  have "(drop_bit 8 c OR push_bit 8 c) XOR ucast b =
    drop_bit 8 (c XOR push_bit 8 (ucast b)) OR push_bit 8 (c XOR push_bit 8 (ucast b))"
    by (rule bit_word_eqI) (auto simp: bit_simps dest: bit_imp_le_length)
  then show ?thesis
    unfolding scud_crc_step_def Let_def by (simp only: unsigned_0 xor.right_neutral)
qed

lemma scud_crc_step_reference: "scud_crc_step c b = crc_byte 0x1021 c b"
  by (simp only: scud_crc_step_shift [of c b] scud_crc_step_0 crc_byte_def)

section \<open>The laws of a byte-wise checksum\<close>

lemma crc_bit_kernel: "crc_bit 0x1021 x = 0 \<Longrightarrow> x = 0"
proof -
  assume zero: "crc_bit 0x1021 x = 0"
  have "bit x 15 \<Longrightarrow> bit (crc_bit 0x1021 x) 0"
    by (simp only: crc_bit_def if_True bit_xor_iff bit_push_bit_iff) simp
  with zero have msb: "\<not> bit x 15" by auto
  with zero have shift: "push_bit 1 x = 0" by (simp add: crc_bit_def)
  have "\<not> bit x n" if n: "n < 15" for n
  proof -
    have "bit (push_bit 1 x) (Suc n) = bit x n"
      using n unfolding bit_push_bit_iff by simp
    then show ?thesis unfolding shift by simp
  qed
  with msb have "n < 16 \<Longrightarrow> \<not> bit x n" for n by (cases "n = 15") auto
  then show "x = 0" by (intro bit_word_eqI) simp
qed

lemma crc_bits_inject: "(crc_bit 0x1021 ^^ n) x = (crc_bit 0x1021 ^^ n) y \<Longrightarrow> x = y"
proof (induction n)
  case (Suc n)
  then have "crc_bit 0x1021 ((crc_bit 0x1021 ^^ n) x) = crc_bit 0x1021 ((crc_bit 0x1021 ^^ n) y)"
    by simp
  then have "(crc_bit 0x1021 ^^ n) x = (crc_bit 0x1021 ^^ n) y"
    by (rule additive_injective [OF crc_bit_additive, rotated]) (rule crc_bit_kernel)
  then show ?case by (rule Suc.IH)
qed simp

lemma push_ucast_inject: "push_bit 8 (ucast a :: u16) = push_bit 8 (ucast b) \<Longrightarrow> a = b" for a b :: u8
proof (rule bit_word_eqI)
  fix n assume eq: "push_bit 8 (ucast a :: u16) = push_bit 8 (ucast b)" and n: "n < LENGTH(8)"
  have "bit (push_bit 8 (ucast a :: u16)) (n + 8) = bit (push_bit 8 (ucast b :: u16)) (n + 8)"
    by (simp only: eq)
  with n show "bit a n = bit b n" by (simp add: bit_simps)
qed

lemma crc_bits_small: "(crc_bit 0x1021 ^^ 8) (take_bit 8 x) = push_bit 8 x"
proof -
  let ?f = "\<lambda>x. (crc_bit 0x1021 ^^ 8) (take_bit 8 x)"
  have "additive ?f"
    by (rule additiveI) (simp only: take_bit_xor additiveD [OF crc_bits_additive])
  moreover have "additive (\<lambda>x. push_bit 8 x)" by (intro additive_intros)
  moreover have "?f (2 ^ k) = push_bit 8 (2 ^ k)" if "k < 16" for k
  proof -
    have low: "take_bit 8 (2 ^ k :: u16) = (if k < 8 then 2 ^ k else 0)"
      by (rule bit_word_eqI) (auto simp: bit_simps)
    have high: "push_bit 8 (2 ^ k :: u16) = (if k < 8 then push_bit 8 (2 ^ k) else 0)"
      using that by (intro bit_word_eqI) (auto simp: bit_simps)
    have "(crc_bit 0x1021 ^^ 8) 1 = 0x100" "(crc_bit 0x1021 ^^ 8) 2 = 0x200"
      "(crc_bit 0x1021 ^^ 8) 4 = 0x400" "(crc_bit 0x1021 ^^ 8) 8 = 0x800"
      "(crc_bit 0x1021 ^^ 8) 16 = 0x1000" "(crc_bit 0x1021 ^^ 8) 32 = 0x2000"
      "(crc_bit 0x1021 ^^ 8) 64 = 0x4000" "(crc_bit 0x1021 ^^ 8) 128 = 0x8000"
      by (simp_all add: funpow_8 crc_bit_def)
    moreover have "k < 8 \<longrightarrow> k \<in> {0, 1, 2, 3, 4, 5, 6, 7}" by (auto simp: eval_nat_numeral less_Suc_eq)
    ultimately have "k < 8 \<longrightarrow> (crc_bit 0x1021 ^^ 8) (2 ^ k) = push_bit 8 (2 ^ k)"
      by (auto simp del: funpow.simps)
    then show ?thesis
      unfolding low by (subst high) (simp add: additive_0 [OF crc_bits_additive] del: funpow.simps)
  qed
  ultimately show ?thesis by (rule additive_ext)
qed

text \<open>The low byte of the checksum of a single byte determines the byte: among the 256 values
  of the byte table only the first has a zero low byte.\<close>

lemma crc_byte_basis:
  "(crc_bit 0x1021 ^^ 8) 0x0100 = 0x1021" "(crc_bit 0x1021 ^^ 8) 0x0200 = 0x2042"
  "(crc_bit 0x1021 ^^ 8) 0x0400 = 0x4084" "(crc_bit 0x1021 ^^ 8) 0x0800 = 0x8108"
  "(crc_bit 0x1021 ^^ 8) 0x1000 = 0x1231" "(crc_bit 0x1021 ^^ 8) 0x2000 = 0x2462"
  "(crc_bit 0x1021 ^^ 8) 0x4000 = 0x48C4" "(crc_bit 0x1021 ^^ 8) 0x8000 = 0x9188"
  by (simp_all add: funpow_8 crc_bit_def)

lemma push_basis:
  "push_bit 8 (2 ^ 0) = (0x0100 :: u16)" "push_bit 8 (2 ^ 1) = (0x0200 :: u16)"
  "push_bit 8 (2 ^ 2) = (0x0400 :: u16)" "push_bit 8 (2 ^ 3) = (0x0800 :: u16)"
  "push_bit 8 (2 ^ 4) = (0x1000 :: u16)" "push_bit 8 (2 ^ 5) = (0x2000 :: u16)"
  "push_bit 8 (2 ^ 6) = (0x4000 :: u16)" "push_bit 8 (2 ^ 7) = (0x8000 :: u16)"
  by simp_all

lemma upt_8: "[0..<8] = [0, 1, 2, 3, 4, 5, 6, 7 :: nat]"
  by (simp add: upt_rec)

lemma crc_byte_table:
  "map (\<lambda>i. (crc_bit 0x1021 ^^ 8) (push_bit 8 (word_of_nat i))) [0..<2 ^ 8] =
    double_table [0] [0x1021, 0x2042, 0x4084, 0x8108, 0x1231, 0x2462, 0x48C4, 0x9188]"
proof -
  have "additive (\<lambda>x. (crc_bit 0x1021 ^^ 8) (push_bit 8 x))"
    by (rule additive_comp [OF crc_bits_additive]) (intro additive_intros)
  note table = additive_table [OF this, of 8]
  have "map (\<lambda>j. (crc_bit 0x1021 ^^ 8) (push_bit 8 (2 ^ j))) [0..<8] =
    [0x1021, 0x2042, 0x4084, 0x8108, 0x1231, 0x2462, 0x48C4, 0x9188]"
    by (simp only: upt_8 list.map push_basis crc_byte_basis)
  with table show ?thesis by simp
qed

lemma crc_low_byte: "lo_byte ((crc_bit 0x1021 ^^ 8) (push_bit 8 (ucast d))) = 0 \<Longrightarrow> d = 0"
  for d :: u8
proof -
  let ?T = "map (\<lambda>i. (crc_bit 0x1021 ^^ 8) (push_bit 8 (word_of_nat i))) [0..<2 ^ 8]"
  assume low: "lo_byte ((crc_bit 0x1021 ^^ 8) (push_bit 8 (ucast d))) = 0"
  have "list_all (\<lambda>x. lo_byte x \<noteq> 0) (tl ?T)"
    unfolding crc_byte_table by (simp add: lo_byte_def)
  then have "lo_byte (?T ! Suc i) \<noteq> 0" if "Suc i < 256" for i
    using that by (simp add: list_all_length nth_tl del: funpow.simps)
  moreover have "lo_byte (?T ! unat d) = 0"
    using low by (subst nth_map) (simp_all add: nth_upt del: funpow.simps of_nat_unat, simp del: funpow.simps)
  ultimately have "unat d = 0" using unat_u8_less [of d] by (cases "unat d") auto
  then show "d = 0" by (simp add: unat_eq_zero)
qed

lemma scud_step_eq:
  "scud_crc_step c b = scud_crc_step c' b' \<longleftrightarrow> c XOR push_bit 8 (ucast b) = c' XOR push_bit 8 (ucast b')"
  unfolding scud_crc_step_reference crc_byte_def by (metis crc_bits_inject)

lemma scud_step_xor:
  "scud_crc_step c a XOR scud_crc_step c a' = (crc_bit 0x1021 ^^ 8) (push_bit 8 (ucast (a XOR a')))"
proof -
  have "push_bit 8 (ucast (a XOR a')) = (c XOR push_bit 8 (ucast a)) XOR (c XOR push_bit 8 (ucast a'))"
    by (rule bit_word_eqI) (auto simp: bit_simps)
  then show ?thesis
    unfolding scud_crc_step_reference crc_byte_def by (simp only: additiveD [OF crc_bits_additive])
qed

lemma lo_byte_push_xor: "lo_byte (push_bit 8 x XOR push_bit 8 y) = 0"
  by (rule bit_word_eqI) (auto simp: lo_byte_def bit_simps)

interpretation xmodem: byte_crc scud_crc_step
proof unfold_locales
  show "c = c'" if "scud_crc_step c b = scud_crc_step c' b" for c c' b
    using that unfolding scud_step_eq by (metis bit.xor_left_self xor.commute)
  show byte: "b = b'" if "scud_crc_step c b = scud_crc_step c b'" for c b b'
    using that unfolding scud_step_eq by (metis bit.xor_left_self push_ucast_inject)
  show "a = a' \<and> b = b'"
    if eq: "scud_crc_step (scud_crc_step c a) b = scud_crc_step (scud_crc_step c a') b'" for c a b a' b'
  proof -
    have "x XOR p = y XOR q \<Longrightarrow> x XOR y = p XOR q" for x y p q :: u16
      by (metis bit.xor_left_self xor.commute xor.assoc)
    with eq have "scud_crc_step c a XOR scud_crc_step c a' = push_bit 8 (ucast b) XOR push_bit 8 (ucast b')"
      unfolding scud_step_eq [of "scud_crc_step c a"] by blast
    then have "lo_byte ((crc_bit 0x1021 ^^ 8) (push_bit 8 (ucast (a XOR a')))) = 0"
      unfolding scud_step_xor by (simp only: lo_byte_push_xor)
    then have "a XOR a' = 0" by (rule crc_low_byte)
    then have "a = a'" by (metis bit.xor_left_self xor.right_neutral)
    with eq byte show ?thesis by blast
  qed
qed

section \<open>Which checksum it is\<close>

text \<open>The source comments name the polynomial 0x1201; the routine computes 0x1021, as its
  equivalence to CRC-16/XMODEM requires. The two differ already on one byte.\<close>

lemma crc_fold_msb_first: "foldl scud_crc_step c bs = foldl (crc_byte 0x1021) c bs"
  by (induction bs arbitrary: c) (simp_all add: scud_crc_step_reference)

lemma documented_polynomial_differs: "crc16_ccitt [1] \<noteq> crc16_msb_first 0x1201 [1]"
proof -
  have "crc16_ccitt [1] = 0x1021" by (simp add: crc16_ccitt_def scud_crc_step_def)
  moreover have "crc16_msb_first 0x1201 [1] = 0x1201"
    by (simp add: crc16_msb_first_def crc_byte_def funpow_8 crc_bit_def)
  ultimately show ?thesis by simp
qed

text \<open>C23. The byte-wise routine of the SCUD driver computes the bit-serial CRC-16/XMODEM
  (polynomial 0x1021, most significant bit first, initial value 0) of every message, and not the
  checksum with the polynomial 0x1201 that the comments name.\<close>

theorem crc16_ccitt_is_xmodem:
  "crc16_ccitt bs = crc16_msb_first 0x1021 bs \<and> crc16_ccitt \<noteq> crc16_msb_first 0x1201"
proof
  show "crc16_ccitt bs = crc16_msb_first 0x1021 bs"
    by (simp add: crc16_ccitt_def crc16_msb_first_def crc_fold_msb_first)
  show "crc16_ccitt \<noteq> crc16_msb_first 0x1201"
    using documented_polynomial_differs by metis
qed

end
