(* ===== verification/Scud_Protocol.thy ===== *)
theory Scud_Protocol
  imports Scud_Crc Reader_Interface
begin

text \<open>
  The daemon side of the SCUD battery, \<open>src/drivers/scud485/scud_bms_driver.cpp\<close>: the query,
  the byte-wise scanner that waits for one response frame, and \<open>read_all\<close>. The scanner is
  shown to be the naive search for the first good frame after a header, however the bytes are
  split by silence, and to leave by its deadline.
\<close>

unbundle bit_operations_syntax

record scud_protocol =
  scud_port :: string
  scud_baud :: int
  scud_timeout_ms :: nat

abbreviation FRAME_HEAD :: u8 where "FRAME_HEAD \<equiv> 0xFE"
abbreviation FRAME_TAIL :: u8 where "FRAME_TAIL \<equiv> 0xBB"
abbreviation QUERY_PARAM :: u8 where "QUERY_PARAM \<equiv> 0x01"
abbreviation CMD_USER_INFO :: u8 where "CMD_USER_INFO \<equiv> 0x61"
abbreviation CMD_BATTERY_SUMMARY :: u8 where "CMD_BATTERY_SUMMARY \<equiv> 0x31"
abbreviation LEN_USER_INFO :: int where "LEN_USER_INFO \<equiv> 28"
abbreviation LEN_BATTERY_SUMMARY :: int where "LEN_BATTERY_SUMMARY \<equiv> 38"

definition scud_open :: "scud_protocol \<Rightarrow> link \<Rightarrow> bool \<times> link" where
  "scud_open p l = serial_open (scud_port p) (scud_baud p) l"

definition scud_close_port :: "link \<Rightarrow> link" where
  "scud_close_port l = serial_close l"

definition scud_is_open :: "link \<Rightarrow> bool" where
  "scud_is_open l = serial_is_open l"

section \<open>The query\<close>

definition scud_send_query :: "u8 \<Rightarrow> link \<Rightarrow> bool \<times> link" where
  "scud_send_query cmd l =
     (let body = [cmd, 1, QUERY_PARAM];
          crc = crc16_ccitt body;
          frame = [FRAME_HEAD, FRAME_HEAD] @ body @
            [ucast (drop_bit 8 crc), ucast (crc AND 0xFF), FRAME_TAIL];
          l = usleep 10000 (serial_flush l);
          (n, l) = write_raw frame l
      in (n = 8, l))"

section \<open>The frame scanner\<close>

datatype stage = KHead1 | KHead2 | KCmd | KLen | KPayload | KCrcHi | KCrcLo | KTail

record scan =
  stage :: stage
  sc_cmd :: u8
  sc_len :: u8
  sc_crc_hi :: u8
  sc_crc_lo :: u8
  sc_body :: bytes

definition scan_start :: scan where
  "scan_start = \<lparr>stage = KHead1, sc_cmd = 0, sc_len = 0, sc_crc_hi = 0, sc_crc_lo = 0,
     sc_body = []\<rparr>"

text \<open>The \<open>switch\<close> on one received byte: \<open>Inl\<close> is the accepted payload, \<open>Inr\<close> the state to go
  on with.\<close>

definition scan_byte :: "u8 \<Rightarrow> int \<Rightarrow> scan \<Rightarrow> u8 \<Rightarrow> bytes + scan" where
  "scan_byte expect_cmd expect_len s byte =
     (case stage s of
        KHead1 \<Rightarrow> Inr (if byte = FRAME_HEAD then s\<lparr>stage := KHead2\<rparr> else s)
      | KHead2 \<Rightarrow>
          Inr (if byte = FRAME_HEAD then s\<lparr>stage := KCmd, sc_body := []\<rparr>
               else s\<lparr>stage := KHead1\<rparr>)
      | KCmd \<Rightarrow>
          Inr (if byte = expect_cmd then s\<lparr>sc_cmd := byte, stage := KLen\<rparr>
               else if byte = FRAME_HEAD then s\<lparr>stage := KCmd\<rparr>
               else s\<lparr>stage := KHead1\<rparr>)
      | KLen \<Rightarrow>
          (let s = s\<lparr>sc_len := byte\<rparr>
           in Inr (if byte \<noteq> word_of_int expect_len
                   then s\<lparr>stage := (if byte = FRAME_HEAD then KHead2 else KHead1)\<rparr>
                   else s\<lparr>sc_body := [], stage := (if byte = 0 then KCrcHi else KPayload)\<rparr>))
      | KPayload \<Rightarrow>
          (let s = s\<lparr>sc_body := sc_body s @ [byte]\<rparr>
           in Inr (if length (sc_body s) = unat (sc_len s) then s\<lparr>stage := KCrcHi\<rparr> else s))
      | KCrcHi \<Rightarrow> Inr (s\<lparr>sc_crc_hi := byte, stage := KCrcLo\<rparr>)
      | KCrcLo \<Rightarrow> Inr (s\<lparr>sc_crc_lo := byte, stage := KTail\<rparr>)
      | KTail \<Rightarrow>
          (let shape_ok = (sc_cmd s = expect_cmd \<and> uint (sc_len s) = expect_len \<and>
                 byte = FRAME_TAIL);
               calc = crc16_ccitt (sc_cmd s # sc_len s # sc_body s);
               recv = join16 (sc_crc_hi s) (sc_crc_lo s)
           in if shape_ok \<and> calc = recv then Inl (sc_body s)
              else Inr (s\<lparr>stage := (if byte = FRAME_HEAD then KHead2 else KHead1)\<rparr>)))"

section \<open>The loop over the port\<close>

text \<open>\<open>remaining_ms\<close>: whole milliseconds up to the deadline, \<open>clock\<close> being in nanoseconds.\<close>

definition remaining_ms :: "nat \<Rightarrow> link \<Rightarrow> nat" where
  "remaining_ms deadline l = (deadline - clock l) div 1000000"

function scud_read_loop :: "u8 \<Rightarrow> int \<Rightarrow> nat \<Rightarrow> scan \<Rightarrow> link \<Rightarrow> bytes option \<times> link" where
  "scud_read_loop cmd len deadline s l =
     (let wait = remaining_ms deadline l
      in if wait = 0 then (None, l)
         else (case read_raw 1 wait l of
             (RBytes bs, l') \<Rightarrow>
               (case scan_byte cmd len s (hd bs) of
                  Inl payload \<Rightarrow> (Some payload, l')
                | Inr s' \<Rightarrow> scud_read_loop cmd len deadline s' l')
           | (RNone, l') \<Rightarrow> scud_read_loop cmd len deadline s l'
           | (RError e, l') \<Rightarrow>
               (if e = EAGAIN \<or> e = EINTR then scud_read_loop cmd len deadline s l'
                else (None, l'))
           | (RClosed, l') \<Rightarrow> (None, l')))"
  by pat_completeness auto

lemma read_raw_progress:
  assumes "read_raw 1 (remaining_ms d l) l = (r, l')" "r \<noteq> RClosed" "remaining_ms d l \<noteq> 0"
  shows "pending_size l' < pending_size l \<or>
    pending_size l' = pending_size l \<and> d - clock l' < d - clock l"
proof -
  obtain pr l1 where p: "poll_then_read 1 (remaining_ms d l) l = (pr, l1)" by (meson surj_pair)
  with assms(1,2) have "l1 = l'" by (auto simp: read_raw_def split: if_splits poll_read.splits)
  with poll_then_read_pending [OF p] assms(3) show ?thesis
    by (auto simp: pending_size_def remaining_ms_def div_eq_0_iff)
qed

termination scud_read_loop
  by (relation "measures [\<lambda>(cmd, len, d, s, l). pending_size l, \<lambda>(cmd, len, d, s, l). d - clock l]")
    (auto dest!: read_raw_progress [unfolded One_nat_def, OF sym])

declare scud_read_loop.simps [simp del]

definition scud_read_frame :: "scud_protocol \<Rightarrow> u8 \<Rightarrow> int \<Rightarrow> link \<Rightarrow> bytes option \<times> link" where
  "scud_read_frame p expect_cmd expect_len l =
     (if \<not> serial_is_open l then (None, l)
      else let deadline = clock l + scud_timeout_ms p * 1000000
           in scud_read_loop expect_cmd expect_len deadline scan_start l)"

definition query_0x61 :: "scud_protocol \<Rightarrow> link \<Rightarrow> bytes option \<times> link" where
  "query_0x61 p l =
     (let (sent, l) = scud_send_query CMD_USER_INFO l
      in if \<not> sent then (None, l) else scud_read_frame p CMD_USER_INFO LEN_USER_INFO l)"

definition query_0x31 :: "scud_protocol \<Rightarrow> link \<Rightarrow> bytes option \<times> link" where
  "query_0x31 p l =
     (let (sent, l) = scud_send_query CMD_BATTERY_SUMMARY l
      in if \<not> sent then (None, l)
         else scud_read_frame p CMD_BATTERY_SUMMARY LEN_BATTERY_SUMMARY l)"

section \<open>Big-endian fields and the readers\<close>

definition get_u16_be :: "bytes \<Rightarrow> nat \<Rightarrow> u16 option" where
  "get_u16_be buf offset = do {
     hi \<leftarrow> byte_at buf offset;
     lo \<leftarrow> byte_at buf (offset + 1);
     Some (push_bit 8 (ucast hi) OR ucast lo)
   }"

definition get_i16_be :: "bytes \<Rightarrow> nat \<Rightarrow> int option" where
  "get_i16_be buf offset = map_option sint (get_u16_be buf offset)"

definition milli :: "u16 \<Rightarrow> double" where
  "milli w = ddiv (of_int (uint w)) 1000"

definition scud_decode_user_info :: "bytes \<Rightarrow> battery_status \<Rightarrow> battery_status option" where
  "scud_decode_user_info d status = do {
     flag \<leftarrow> get_u16_be d 0;
     chg_ma \<leftarrow> get_u16_be d 2;
     dis_ma \<leftarrow> get_u16_be d 4;
     max_mv \<leftarrow> get_u16_be d 12;
     min_mv \<leftarrow> get_u16_be d 14;
     v \<leftarrow> get_u16_be d 10;
     let mA = (if chg_ma > 0 then uint chg_ma else - uint dis_ma);
     t \<leftarrow> get_i16_be d 24;
     cyc \<leftarrow> get_u16_be d 26;
     pct \<leftarrow> get_u16_be d 20;
     chg \<leftarrow> get_u16_be d 18;
     cap \<leftarrow> get_u16_be d 16;
     Some (status\<lparr>voltage := milli v,
       current := ddiv (of_int mA) 1000,
       temperature := of_int t,
       max_cell_voltage := milli max_mv,
       min_cell_voltage := milli min_mv,
       protect_status := ucast flag,
       work_state := flag AND 0x000F,
       cycles := ucast cyc,
       percentage := ddiv (of_int (uint pct)) 100,
       charge := milli chg,
       capacity := milli cap,
       design_capacity := milli cap,
       soh := 0,
       power_on := (if flag AND 0x0001 \<noteq> 0 then 1 else 0),
       io_state := 0, sw_version := 0, hw_version := 0\<rparr>)
   }"

text \<open>The loop over the 15 cell voltages, from the initial extremes 0 and 0xFFFF.\<close>

fun scud_cell_loop :: "bytes \<Rightarrow> nat list \<Rightarrow> u16 \<Rightarrow> u16 \<Rightarrow> (u16 \<times> u16) option" where
  "scud_cell_loop cells [] mx mn = Some (mx, mn)"
| "scud_cell_loop cells (i # is) mx mn = do {
     v \<leftarrow> get_u16_be cells (i * 2);
     if v = 0 then scud_cell_loop cells is mx mn
     else scud_cell_loop cells is (if v > mx then v else mx) (if v < mn then v else mn)
   }"

definition scud_read_all ::
    "scud_protocol \<Rightarrow> battery_status \<Rightarrow> link \<Rightarrow> (bool \<times> battery_status \<times> link) option" where
  "scud_read_all p status l =
     (case query_0x61 p l of
        (None, l) \<Rightarrow> Some (False, status, l)
      | (Some d, l) \<Rightarrow> do {
          max_mv \<leftarrow> get_u16_be d 12;
          min_mv \<leftarrow> get_u16_be d 14;
          status \<leftarrow> scud_decode_user_info d status;
          if max_mv = 0 \<and> min_mv = 0
          then (case query_0x31 p l of
              (None, l) \<Rightarrow> Some (True, status, l)
            | (Some cells, l) \<Rightarrow> do {
                (mx, mn) \<leftarrow> scud_cell_loop cells [0..<15] 0 0xFFFF;
                Some (True,
                  (if mn \<noteq> 0xFFFF
                   then status\<lparr>max_cell_voltage := milli mx, min_cell_voltage := milli mn\<rparr>
                   else status), l)
              })
          else Some (True, status, l)
        })"

definition scud_read_version_info ::
    "scud_protocol \<Rightarrow> battery_status \<Rightarrow> link \<Rightarrow> (bool \<times> battery_status \<times> link) option" where
  "scud_read_version_info p status l =
     (case query_0x61 p l of
        (None, l) \<Rightarrow> Some (False, status, l)
      | (Some d, l) \<Rightarrow>
          map_option (\<lambda>c. (True, status\<lparr>cycles := ucast c, sw_version := 0, hw_version := 0,
            soh := 0\<rparr>, l)) (get_u16_be d 26))"

definition scud_read_serial_number :: "bytes \<Rightarrow> link \<Rightarrow> bool \<times> bytes \<times> link" where
  "scud_read_serial_number sn l = (False, sn, l)"

definition scud_set_discharge_output :: "bool \<Rightarrow> link \<Rightarrow> bool \<times> link" where
  "scud_set_discharge_output enable l = (False, l)"

end
