(* ===== verification/Scud_Frames.thy ===== *)
theory Scud_Frames
  imports Scud_Protocol
begin

text \<open>
  The frame scanner as a function on byte streams. First the state machine of \<open>read_frame\<close> is
  shown equal to \<open>hunt\<close>, the same algorithm with the states of the scanner removed: find the
  header, check the bytes behind it, and go on behind them when they are no frame. What this
  algorithm finds is then stated against the positions of the good frames and of the headers in
  the stream: a good frame is found unless a header that begins no frame stands in the \<open>n + 5\<close>
  bytes before it. The loop over the port consumes exactly the bytes the scanner needs, whatever
  silence and retries lie between them.
\<close>

unbundle bit_operations_syntax

section \<open>Streams\<close>

fun scan_stream :: "u8 \<Rightarrow> int \<Rightarrow> scan \<Rightarrow> bytes \<Rightarrow> (bytes \<times> bytes) option" where
  "scan_stream c n s [] = None"
| "scan_stream c n s (b # bs) =
     (case scan_byte c n s b of Inl payload \<Rightarrow> Some (payload, bs) | Inr s' \<Rightarrow> scan_stream c n s' bs)"

text \<open>The bytes behind the first occurrence of the header.\<close>

fun after_header :: "u8 \<Rightarrow> nat \<Rightarrow> bytes \<Rightarrow> bytes option" where
  "after_header c n [] = None"
| "after_header c n (b # bs) =
     (if take 4 (b # bs) = [FRAME_HEAD, FRAME_HEAD, c, word_of_nat n] then Some (drop 4 (b # bs))
      else after_header c n bs)"

lemma after_header_length: "after_header c n bs = Some rest \<Longrightarrow> length rest < length bs"
  by (induction bs) (auto split: if_splits simp: less_SucI)

definition scud_trailer :: "u8 \<Rightarrow> bytes \<Rightarrow> bytes" where
  "scud_trailer c payload =
     (let crc = crc16_ccitt (c # word_of_nat (length payload) # payload)
      in [hi_byte crc, lo_byte crc, FRAME_TAIL])"

definition scud_frame :: "u8 \<Rightarrow> bytes \<Rightarrow> bytes" where
  "scud_frame c payload =
     [FRAME_HEAD, FRAME_HEAD, c, word_of_nat (length payload)] @ payload @ scud_trailer c payload"

text \<open>The algorithm of the scanner without its states. After a header that no frame follows, it goes on
  with the byte in the place of the tail, so what lies between is lost.\<close>

function hunt :: "u8 \<Rightarrow> nat \<Rightarrow> bytes \<Rightarrow> (bytes \<times> bytes) option" where
  "hunt c n bs =
     (case after_header c n bs of
        None \<Rightarrow> None
      | Some rest \<Rightarrow>
          if length rest < n + 3 then None
          else if take 3 (drop n rest) = scud_trailer c (take n rest)
          then Some (take n rest, drop (n + 3) rest)
          else hunt c n (drop (n + 2) rest))"
  by pat_completeness auto
termination
  by (relation "measure (\<lambda>(c, n, bs). length bs)") (auto dest: after_header_length)

declare hunt.simps [simp del]

section \<open>The state machine is this algorithm\<close>

text \<open>What the scanner has matched of the header in each of the four states of the header.\<close>

fun matched :: "u8 \<Rightarrow> stage \<Rightarrow> bytes option" where
  "matched c KHead1 = Some []"
| "matched c KHead2 = Some [FRAME_HEAD]"
| "matched c KCmd = Some [FRAME_HEAD, FRAME_HEAD]"
| "matched c KLen = Some [FRAME_HEAD, FRAME_HEAD, c]"
| "matched c _ = None"

lemma scan_payload:
  assumes "stage s = KPayload" "length (sc_body s) + k = unat (sc_len s)" "0 < k"
  shows "scan_stream c n s bs =
    (if length bs < k then None
     else scan_stream c n (s\<lparr>sc_body := sc_body s @ take k bs, stage := KCrcHi\<rparr>) (drop k bs))"
  using assms
proof (induction bs arbitrary: s k)
  case (Cons b bs)
  let ?s = "s\<lparr>sc_body := sc_body s @ [b]\<rparr>"
  show ?case
  proof (cases "k = 1")
    case True
    with Cons.prems show ?thesis by (simp add: scan_byte_def Let_def)
  next
    case False
    with Cons.prems have k: "0 < k - 1" "length (sc_body ?s) + (k - 1) = unat (sc_len ?s)" by simp_all
    from Cons.prems False have "scan_byte c n s b = Inr ?s" by (simp add: scan_byte_def Let_def)
    moreover have "scan_stream c n ?s bs =
      (if length bs < k - 1 then None
       else scan_stream c n (?s\<lparr>sc_body := sc_body ?s @ take (k - 1) bs, stage := KCrcHi\<rparr>)
         (drop (k - 1) bs))"
      using Cons.prems k by (intro Cons.IH) simp_all
    ultimately show ?thesis
      using Cons.prems(3) by (cases k) auto
  qed
qed simp

lemma scan_trailer:
  assumes "stage s = KCrcHi" "sc_cmd s = c" "sc_len s = word_of_nat n" "n < 256"
    "length (sc_body s) = n"
  shows "scan_stream c (int n) s bs =
    (case bs of
       h # l # t # rest \<Rightarrow>
         if [h, l, t] = scud_trailer c (sc_body s) then Some (sc_body s, rest)
         else scan_stream c (int n) (s\<lparr>sc_crc_hi := h, sc_crc_lo := l,
           stage := (if t = FRAME_HEAD then KHead2 else KHead1)\<rparr>) rest
     | _ \<Rightarrow> None)"
proof -
  have len: "uint (word_of_nat n :: u8) = int n"
    using assms(4) by (simp add: unsigned_of_nat take_bit_nat_eq_self_iff flip: nat_uint_eq)
  have crc: "crc = join16 h l \<longleftrightarrow> h = hi_byte crc \<and> l = lo_byte crc" for crc h l
    by (metis hi_byte_join16 lo_byte_join16 join16_bytes)
  show ?thesis
    using assms len
    by (cases bs; cases "tl bs"; cases "tl (tl bs)")
      (auto simp: scan_byte_def Let_def scud_trailer_def crc)
qed

lemma hunt_skip:
  "take 4 (b # bs) \<noteq> [FRAME_HEAD, FRAME_HEAD, c, word_of_nat n] \<Longrightarrow> hunt c n (b # bs) = hunt c n bs"
  by (simp only: hunt.simps [of c n "b # bs"] hunt.simps [of c n bs] after_header.simps if_False)

lemma hunt_short: "length bs < 4 \<Longrightarrow> hunt c n bs = None"
proof -
  assume "length bs < 4"
  then have "after_header c n bs = None" by (induction bs) auto
  then show ?thesis by (simp add: hunt.simps)
qed

lemma hunt_header:
  "hunt c n (FRAME_HEAD # FRAME_HEAD # c # word_of_nat n # bs) =
    (if length bs < n + 3 then None
     else if take 3 (drop n bs) = scud_trailer c (take n bs)
     then Some (take n bs, drop (n + 3) bs)
     else hunt c n (drop (n + 2) bs))"
  by (subst hunt.simps) simp

lemma too_short:
  "length xs < 3 \<Longrightarrow> (case xs of h # l # t # rest \<Rightarrow> f h l t rest | _ \<Rightarrow> None) = None"
  by (auto split: list.split)

lemma scan_frame:
  assumes "0 < n" "n < 256" "stage s = KPayload" "sc_body s = []" "sc_cmd s = c"
    "sc_len s = word_of_nat n"
    and IH: "\<And>s' pre' rest. length rest < length bs \<Longrightarrow> matched c (stage s') = Some pre' \<Longrightarrow>
      (stage s' = KLen \<longrightarrow> sc_cmd s' = c) \<Longrightarrow> scan_stream c (int n) s' rest = hunt c n (pre' @ rest)"
  shows "scan_stream c (int n) s bs = hunt c n (FRAME_HEAD # FRAME_HEAD # c # word_of_nat n # bs)"
proof -
  have len: "unat (sc_len s) = n"
    using assms by (simp add: unsigned_of_nat take_bit_nat_eq_self_iff)
  let ?s = "s\<lparr>sc_body := take n bs, stage := KCrcHi\<rparr>"
  show ?thesis
  proof (cases "length bs < n + 3")
    case short: True
    show ?thesis
    proof (cases "length bs < n")
      case False
      then have "scan_stream c (int n) s bs = scan_stream c (int n) ?s (drop n bs)"
        using assms len by (simp add: scan_payload [where k = n])
      also have "\<dots> = None"
        using short False assms by (subst scan_trailer) (simp_all add: too_short)
      finally show ?thesis using short by (simp add: hunt_header)
    qed (use assms len short in \<open>simp add: scan_payload [where k = n] hunt_header\<close>)
  next
    case False
    then obtain h l t rest where split: "drop n bs = h # l # t # rest"
      by (cases "drop n bs"; cases "tl (drop n bs)"; cases "tl (tl (drop n bs))")
        (auto dest: arg_cong [where f = length])
    have rest: "length rest < length bs" "drop (n + 3) bs = rest" "drop (n + 2) bs = t # rest"
      using arg_cong [OF split, of length] arg_cong [OF split, of "drop 3"]
        arg_cong [OF split, of "drop 2"] by (simp_all add: add.commute)
    have tail: "hunt c n (t # rest) = hunt c n rest" if "t \<noteq> FRAME_HEAD"
      using that by (intro hunt_skip) simp
    have "scan_stream c (int n) s bs = scan_stream c (int n) ?s (drop n bs)"
      using assms len False by (simp add: scan_payload [where k = n])
    also have "\<dots> = (if [h, l, t] = scud_trailer c (take n bs) then Some (take n bs, rest)
        else hunt c n (t # rest))"
      using False assms tail by (subst scan_trailer) (simp_all add: split IH rest(1))
    finally show ?thesis
      using False by (simp add: hunt_header split rest del: add_2_eq_Suc')
  qed
qed

lemma scan_hunt:
  assumes "0 < n" "n < 256" "c \<noteq> FRAME_HEAD" "matched c (stage s) = Some pre"
    "stage s = KLen \<longrightarrow> sc_cmd s = c"
  shows "scan_stream c (int n) s bs = hunt c n (pre @ bs)"
  using assms(4,5)
proof (induction bs arbitrary: s pre rule: length_induct)
  case (1 bs)
  note IH = "1.IH" [rule_format]
  show ?case
  proof (cases bs)
    case Nil
    with "1.prems" show ?thesis by (cases "stage s") (auto simp: hunt_short)
  next
    case (Cons b bs')
    then have len: "length bs' < length bs" by simp
    have step: "stage s' = KHead1 \<Longrightarrow> scan_stream c (int n) s' bs' = hunt c n bs'"
      "stage s' = KHead2 \<Longrightarrow> scan_stream c (int n) s' bs' = hunt c n (FRAME_HEAD # bs')"
      "stage s' = KCmd \<Longrightarrow> scan_stream c (int n) s' bs' = hunt c n (FRAME_HEAD # FRAME_HEAD # bs')"
      "stage s' = KLen \<Longrightarrow> sc_cmd s' = c \<Longrightarrow>
        scan_stream c (int n) s' bs' = hunt c n (FRAME_HEAD # FRAME_HEAD # c # bs')" for s'
      using IH [OF len, of s' "[]"] IH [OF len, of s' "[FRAME_HEAD]"]
        IH [OF len, of s' "[FRAME_HEAD, FRAME_HEAD]"] IH [OF len, of s' "[FRAME_HEAD, FRAME_HEAD, c]"]
      by simp_all
    show ?thesis
    proof (cases "stage s")
      case KHead1
      with "1.prems" show ?thesis
        by (cases "b = FRAME_HEAD") (auto simp: Cons scan_byte_def hunt_skip step)
    next
      case KHead2
      with "1.prems" show ?thesis
        by (cases "b = FRAME_HEAD") (auto simp: Cons scan_byte_def hunt_skip step)
    next
      case KCmd
      with "1.prems" assms(3) show ?thesis
        by (cases "b = FRAME_HEAD"; cases "b = c") (auto simp: Cons scan_byte_def hunt_skip step)
    next
      case KLen
      show ?thesis
      proof (cases "b = word_of_nat n")
        case True
        let ?s = "s\<lparr>sc_len := b, sc_body := [], stage := KPayload\<rparr>"
        have "(word_of_nat n :: u8) \<noteq> 0"
          using assms(1,2) by (simp add: word_of_nat_eq_0_iff nat_dvd_not_less)
        then have "scan_stream c (int n) s bs = scan_stream c (int n) ?s bs'"
          using KLen True by (simp add: Cons scan_byte_def Let_def)
        also have "\<dots> = hunt c n (FRAME_HEAD # FRAME_HEAD # c # word_of_nat n # bs')"
          using assms "1.prems" KLen True len by (intro scan_frame IH) auto
        finally show ?thesis using "1.prems" KLen True by (auto simp: Cons simp del: scan_stream.simps)
      next
        case False
        with KLen "1.prems" assms(3) show ?thesis
          by (cases "b = FRAME_HEAD") (auto simp: Cons scan_byte_def Let_def hunt_skip step)
      qed
    qed (use "1.prems" in auto)
  qed
qed

lemma scan_start_hunt:
  "0 < n \<Longrightarrow> n < 256 \<Longrightarrow> c \<noteq> FRAME_HEAD \<Longrightarrow> scan_stream c (int n) scan_start bs = hunt c n bs"
  using scan_hunt [of n c scan_start "[]" bs] by (simp add: scan_start_def)

section \<open>What the scanner finds\<close>

text \<open>The specification: at which positions of a stream a good frame with a payload of \<open>n\<close> bytes
  stands, and at which a header that begins no good frame.\<close>

definition header_at :: "u8 \<Rightarrow> nat \<Rightarrow> bytes \<Rightarrow> nat \<Rightarrow> bool" where
  "header_at c n bs i \<longleftrightarrow> take 4 (drop i bs) = [FRAME_HEAD, FRAME_HEAD, c, word_of_nat n]"

definition good_frame_at :: "u8 \<Rightarrow> nat \<Rightarrow> bytes \<Rightarrow> nat \<Rightarrow> bool" where
  "good_frame_at c n bs i \<longleftrightarrow> i + n + 7 \<le> length bs \<and>
     take (n + 7) (drop i bs) = scud_frame c (take n (drop (i + 4) bs))"

definition stale_header_at :: "u8 \<Rightarrow> nat \<Rightarrow> bytes \<Rightarrow> nat \<Rightarrow> bool" where
  "stale_header_at c n bs i \<longleftrightarrow> header_at c n bs i \<and> \<not> good_frame_at c n bs i"

text \<open>A stale header stands less than the length of a frame, its tail not counted, before \<open>i\<close>.\<close>

definition swallowed :: "u8 \<Rightarrow> nat \<Rightarrow> bytes \<Rightarrow> nat \<Rightarrow> bool" where
  "swallowed c n bs i \<longleftrightarrow> (\<exists>j < i. i < j + n + 6 \<and> stale_header_at c n bs j)"

lemma length_scud_frame [simp]: "length (scud_frame c payload) = length payload + 7"
  by (simp add: scud_frame_def scud_trailer_def Let_def)

lemma at_shift:
  "header_at c n (xs @ ys) (length xs + i) = header_at c n ys i"
  "good_frame_at c n (xs @ ys) (length xs + i) = good_frame_at c n ys i"
  "stale_header_at c n (xs @ ys) (length xs + i) = stale_header_at c n ys i"
  by (simp_all add: header_at_def good_frame_at_def stale_header_at_def add.assoc)

lemma good_frame_header: "good_frame_at c n bs i \<Longrightarrow> header_at c n bs i"
proof -
  assume good: "good_frame_at c n bs i"
  have "take 4 (drop i bs) = take 4 (take (n + 7) (drop i bs))" by simp
  also have "\<dots> = take 4 (scud_frame c (take n (drop (i + 4) bs)))"
    using good unfolding good_frame_at_def by metis
  also have "\<dots> = [FRAME_HEAD, FRAME_HEAD, c, word_of_nat n]"
  proof -
    have "min (length bs - (i + 4)) n = n" using good by (auto simp: good_frame_at_def)
    then show ?thesis by (simp add: scud_frame_def)
  qed
  finally show ?thesis by (simp add: header_at_def)
qed

lemma good_frame_at_start:
  "good_frame_at c n (FRAME_HEAD # FRAME_HEAD # c # word_of_nat n # bs) 0 \<longleftrightarrow>
    n + 3 \<le> length bs \<and> take 3 (drop n bs) = scud_trailer c (take n bs)"
proof (cases "n + 3 \<le> length bs")
  case True
  then have "take (n + 3) bs = take n bs @ take 3 (drop n bs)" by (simp add: take_add)
  with True show ?thesis by (simp add: good_frame_at_def scud_frame_def eval_nat_numeral)
qed (simp add: good_frame_at_def)

lemma after_header_None: "after_header c n bs = None \<Longrightarrow> \<not> header_at c n bs i"
proof (induction bs arbitrary: i)
  case (Cons b bs)
  then show ?case by (cases i) (auto simp: header_at_def split: if_splits)
qed (simp add: header_at_def)

lemma after_header_Some:
  "after_header c n bs = Some rest \<Longrightarrow>
    \<exists>pre. bs = pre @ FRAME_HEAD # FRAME_HEAD # c # word_of_nat n # rest \<and>
      (\<forall>i < length pre. \<not> header_at c n bs i)"
proof (induction bs)
  case (Cons b bs)
  show ?case
  proof (cases "take 4 (b # bs) = [FRAME_HEAD, FRAME_HEAD, c, word_of_nat n]")
    case True
    then have "b # bs = FRAME_HEAD # FRAME_HEAD # c # word_of_nat n # drop 4 (b # bs)"
      using append_take_drop_id [of 4 "b # bs"] by simp
    with True Cons.prems show ?thesis by (intro exI [of _ "[]"]) simp
  next
    case False
    with Cons obtain pre where "bs = pre @ FRAME_HEAD # FRAME_HEAD # c # word_of_nat n # rest"
      "\<forall>i < length pre. \<not> header_at c n bs i" by auto
    with False show ?thesis
      by (intro exI [of _ "b # pre"]) (auto simp: header_at_def less_Suc_eq_0_disj)
  qed
qed simp

lemma header_split:
  assumes "after_header c n bs = Some rest"
  obtains pre where "bs = (pre @ [FRAME_HEAD, FRAME_HEAD, c, word_of_nat n]) @ rest"
    "\<forall>i < length pre. \<not> header_at c n bs i"
    "header_at c n bs (length pre)"
    "good_frame_at c n bs (length pre) \<longleftrightarrow>
      n + 3 \<le> length rest \<and> take 3 (drop n rest) = scud_trailer c (take n rest)"
proof -
  obtain pre where pre: "bs = pre @ FRAME_HEAD # FRAME_HEAD # c # word_of_nat n # rest"
    "\<forall>i < length pre. \<not> header_at c n bs i"
    using after_header_Some [OF assms] by blast
  show thesis
    using pre at_shift [of c n pre "FRAME_HEAD # FRAME_HEAD # c # word_of_nat n # rest" 0]
    by (intro that [of pre]) (simp_all add: good_frame_at_start header_at_def)
qed

lemma hunt_too_short: "length bs < n + 7 \<Longrightarrow> hunt c n bs = None"
  by (subst hunt.simps) (auto dest!: after_header_Some split: option.split)

lemma hunt_finds:
  "case hunt c n bs of
     None \<Rightarrow> \<forall>i. good_frame_at c n bs i \<longrightarrow> swallowed c n bs i
   | Some (d, rest) \<Rightarrow> \<exists>pre. bs = pre @ scud_frame c d @ rest \<and> length d = n \<and>
       (\<forall>i < length pre. good_frame_at c n bs i \<longrightarrow> swallowed c n bs i)"
proof (induction c n bs rule: hunt.induct)
  case (1 c n bs)
  show ?case
  proof (cases "after_header c n bs")
    case None
    then show ?thesis by (subst hunt.simps) (auto dest: after_header_None good_frame_header)
  next
    case (Some rest)
    obtain pre where pre: "bs = (pre @ [FRAME_HEAD, FRAME_HEAD, c, word_of_nat n]) @ rest"
      "\<forall>i < length pre. \<not> header_at c n bs i" "header_at c n bs (length pre)"
      "good_frame_at c n bs (length pre) \<longleftrightarrow>
        n + 3 \<le> length rest \<and> take 3 (drop n rest) = scud_trailer c (take n rest)"
      using header_split [OF Some] by blast
    consider (short) "length rest < n + 3"
      | (good) "n + 3 \<le> length rest" "take 3 (drop n rest) = scud_trailer c (take n rest)"
      | (stale) "n + 3 \<le> length rest" "take 3 (drop n rest) \<noteq> scud_trailer c (take n rest)"
      by linarith
    then show ?thesis
    proof cases
      case short
      have "\<not> good_frame_at c n bs i" for i
        using pre(2) good_frame_header [of c n bs i] arg_cong [OF pre(1), of length] short
        by (cases "i < length pre") (auto simp: good_frame_at_def)
      with Some short show ?thesis by (subst hunt.simps) simp
    next
      case good
      have "rest = take n rest @ take 3 (drop n rest) @ drop (n + 3) rest"
        by (metis append_take_drop_id drop_drop add.commute)
      then have "bs = pre @ scud_frame c (take n rest) @ drop (n + 3) rest"
        using good pre(1) by (simp add: scud_frame_def)
      with Some good pre(2) good_frame_header show ?thesis
        by (subst hunt.simps) (auto intro!: exI [of _ pre])
    next
      case stale
      let ?front = "pre @ [FRAME_HEAD, FRAME_HEAD, c, word_of_nat n] @ take (n + 2) rest" and
        ?tl = "drop (n + 2) rest"
      have bs: "bs = ?front @ ?tl" using pre(1) by simp
      have len: "length ?front = length pre + n + 6" using stale by simp
      have hunt: "hunt c n bs = hunt c n ?tl"
        using Some stale by (subst hunt.simps) simp
      have st: "stale_header_at c n bs (length pre)"
        using pre stale by (simp add: stale_header_at_def)
      have sw: "swallowed c n bs i" if "good_frame_at c n bs i" and
        later: "\<And>k. i = length ?front + k \<Longrightarrow> good_frame_at c n ?tl k \<Longrightarrow> swallowed c n ?tl k" for i
      proof -
        have "\<not> i < length pre" using that pre(2) good_frame_header by blast
        moreover have "i \<noteq> length pre" using that st by (auto simp: stale_header_at_def)
        ultimately consider "length pre < i" "i < length pre + n + 6" | k where "i = length ?front + k"
          using le_Suc_ex [of "length ?front" i] unfolding len by force
        then show ?thesis
        proof cases
          case 1
          with st show ?thesis by (auto simp: swallowed_def)
        next
          case 2
          with that(1) have "good_frame_at c n ?tl k" using at_shift(2) [of c n ?front ?tl k] bs by simp
          with later 2 obtain j where "j < k" "k < j + n + 6" "stale_header_at c n ?tl j"
            by (auto simp: swallowed_def)
          with 2 at_shift(3) [of c n ?front ?tl j] bs show ?thesis
            unfolding swallowed_def by (intro exI [of _ "length ?front + j"]) simp
        qed
      qed
      show ?thesis
      proof (cases "hunt c n ?tl")
        case None
        with "1.IH" [OF Some] stale sw show ?thesis by (simp add: hunt)
      next
        case (Some r)
        obtain d rest' where r: "r = (d, rest')" by (cases r)
        with "1.IH" [OF \<open>after_header c n bs = Some rest\<close>] stale Some obtain pre' where
          p: "?tl = pre' @ scud_frame c d @ rest'" "length d = n"
            "\<forall>i < length pre'. good_frame_at c n ?tl i \<longrightarrow> swallowed c n ?tl i" by auto
        have "bs = (?front @ pre') @ scud_frame c d @ rest'"
          unfolding append_assoc [of ?front pre'] p(1) [symmetric] by (rule bs)
        moreover have "\<forall>i < length (?front @ pre'). good_frame_at c n bs i \<longrightarrow> swallowed c n bs i"
          using p(3) by (auto intro!: sw)
        ultimately have "\<exists>pre. bs = pre @ scud_frame c d @ rest' \<and> length d = n \<and>
            (\<forall>i < length pre. good_frame_at c n bs i \<longrightarrow> swallowed c n bs i)"
          using p(2) by blast
        then show ?thesis by (simp add: hunt Some r del: add_2_eq_Suc')
      qed
    qed
  qed
qed

text \<open>Conversely, a good frame is found when every header before it is stale and stands at least
  \<open>n + 6\<close> bytes before it.\<close>

definition clear_before :: "u8 \<Rightarrow> nat \<Rightarrow> bytes \<Rightarrow> nat \<Rightarrow> bool" where
  "clear_before c n bs i \<longleftrightarrow>
     list_all (\<lambda>j. header_at c n bs j \<longrightarrow> stale_header_at c n bs j \<and> j + n + 6 \<le> i) [0..<i]"

lemma clear_before_iff:
  "clear_before c n bs i \<longleftrightarrow>
    (\<forall>j < i. header_at c n bs j \<longrightarrow> \<not> good_frame_at c n bs j \<and> j + n + 6 \<le> i)"
  by (auto simp: clear_before_def list_all_iff stale_header_at_def)

lemma good_frame_at_frame: "good_frame_at c (length d) (pre @ scud_frame c d @ rest) (length pre)"
  using at_shift(2) [of c "length d" pre "scud_frame c d @ rest" 0]
  by (simp add: good_frame_at_def) (simp add: scud_frame_def)

lemma hunt_clear:
  assumes "clear_before c (length d) (pre @ scud_frame c d @ rest) (length pre)"
  shows "hunt c (length d) (pre @ scud_frame c d @ rest) = Some (d, rest)"
  using assms
proof (induction pre rule: length_induct)
  case (1 pre)
  let ?n = "length d" and ?bs = "pre @ scud_frame c d @ rest"
  have here: "good_frame_at c ?n ?bs (length pre)" by (rule good_frame_at_frame)
  show ?case
  proof (cases "after_header c ?n ?bs")
    case None
    with here show ?thesis by (auto dest: after_header_None good_frame_header)
  next
    case (Some tl)
    obtain p where p: "?bs = (p @ [FRAME_HEAD, FRAME_HEAD, c, word_of_nat ?n]) @ tl"
      "\<forall>i < length p. \<not> header_at c ?n ?bs i" "header_at c ?n ?bs (length p)"
      "good_frame_at c ?n ?bs (length p) \<longleftrightarrow>
        ?n + 3 \<le> length tl \<and> take 3 (drop ?n tl) = scud_trailer c (take ?n tl)"
      using header_split [OF Some] by blast
    have "length p \<le> length pre" using p(2) here good_frame_header by (meson not_less)
    then consider "length p = length pre" | "length p < length pre" by linarith
    then show ?thesis
    proof cases
      case 1
      with p(1) have "p = pre" "tl = d @ scud_trailer c d @ rest"
        by (simp_all add: scud_frame_def append_eq_append_conv)
      moreover have "length (scud_trailer c d) = 3" by (simp add: scud_trailer_def Let_def)
      ultimately show ?thesis using Some by (subst hunt.simps) simp
    next
      case 2
      with "1.prems" p(3) have st: "\<not> good_frame_at c ?n ?bs (length p)"
        "length p + ?n + 6 \<le> length pre" by (auto simp: clear_before_iff)
      let ?front = "take (length p + ?n + 6) pre" and ?pre = "drop (length p + ?n + 6) pre"
      have len: "length tl \<ge> ?n + 3" using st(2) arg_cong [OF p(1), of length] by simp
      have "length p + ?n + 6 = length (p @ [FRAME_HEAD, FRAME_HEAD, c, word_of_nat ?n]) + (?n + 2)"
        by simp
      then have "drop (?n + 2) tl = drop (length p + ?n + 6) ?bs"
        by (simp only: p(1) drop_append diff_add_inverse) simp
      also have "\<dots> = ?pre @ scud_frame c d @ rest" using st(2) by simp
      finally have "hunt c ?n ?bs = hunt c ?n (?pre @ scud_frame c d @ rest)"
        using Some st(1) p(4) len by (subst hunt.simps) simp
      also have "\<dots> = Some (d, rest)"
      proof (rule "1.IH" [rule_format])
        show "length ?pre < length pre" using st(2) by simp
        have split: "?bs = ?front @ (?pre @ scud_frame c d @ rest)" by simp
        have lenf: "length ?front = length p + ?n + 6" using st(2) by simp
        show "clear_before c ?n (?pre @ scud_frame c d @ rest) (length ?pre)"
          unfolding clear_before_iff
        proof (intro allI impI)
          fix j assume j: "j < length ?pre" "header_at c ?n (?pre @ scud_frame c d @ rest) j"
          have "header_at c ?n ?bs (length ?front + j) = header_at c ?n (?pre @ scud_frame c d @ rest) j"
            by (subst split) (rule at_shift)
          with j have "header_at c ?n ?bs (length ?front + j)" "length ?front + j < length pre"
            using lenf by auto
          with "1.prems" have "\<not> good_frame_at c ?n ?bs (length ?front + j)" and
            "length ?front + j + ?n + 6 \<le> length pre" by (auto simp: clear_before_iff)
          moreover have "good_frame_at c ?n ?bs (length ?front + j) =
              good_frame_at c ?n (?pre @ scud_frame c d @ rest) j"
            by (subst split) (rule at_shift)
          ultimately show "\<not> good_frame_at c ?n (?pre @ scud_frame c d @ rest) j \<and> j + ?n + 6 \<le> length ?pre"
            using lenf st(2) by auto
        qed
      qed
      finally show ?thesis .
    qed
  qed
qed

section \<open>The loop over the port\<close>

text \<open>Induction over a run of the loop: \<open>P s l r l'\<close> for the scanner state and the line it
  starts from, its result and the line it leaves.\<close>

lemma scud_loop_induct:
  assumes run: "scud_read_loop c n d s l = (r, l')" and port: "0 \<le> fd l"
    and stop: "\<And>s l. remaining_ms d l = 0 \<Longrightarrow> P s l None l"
    and accept: "\<And>s l b l1 p. poll_then_read 1 (remaining_ms d l) l = (ReadBytes [b], l1) \<Longrightarrow>
      remaining_ms d l \<noteq> 0 \<Longrightarrow> scan_byte c n s b = Inl p \<Longrightarrow> P s l (Some p) l1"
    and feed: "\<And>s l b l1 s' r l'. poll_then_read 1 (remaining_ms d l) l = (ReadBytes [b], l1) \<Longrightarrow>
      remaining_ms d l \<noteq> 0 \<Longrightarrow> scan_byte c n s b = Inr s' \<Longrightarrow> P s' l1 r l' \<Longrightarrow> P s l r l'"
    and wait: "\<And>s l x l1 r l'. poll_then_read 1 (remaining_ms d l) l = (x, l1) \<Longrightarrow>
      remaining_ms d l \<noteq> 0 \<Longrightarrow> (\<And>bs. x \<noteq> ReadBytes bs) \<Longrightarrow> x \<noteq> ReadFailed EIO \<Longrightarrow>
      P s l1 r l' \<Longrightarrow> P s l r l'"
    and fault: "\<And>s l l1. poll_then_read 1 (remaining_ms d l) l = (ReadFailed EIO, l1) \<Longrightarrow>
      remaining_ms d l \<noteq> 0 \<Longrightarrow> P s l None l1"
  shows "P s l r l'"
  using run port
proof (induction l arbitrary: s r l' rule: wf_induct_rule
    [OF wf_measures [of "[pending_size, \<lambda>l. d - clock l]"]])
  case (1 l)
  show ?case
  proof (cases "remaining_ms d l = 0")
    case True
    with "1.prems" show ?thesis by (subst (asm) scud_read_loop.simps) (auto intro: stop)
  next
    case ready: False
    obtain x l1 where poll: "poll_then_read 1 (remaining_ms d l) l = (x, l1)" by (meson surj_pair)
    have read: "read_raw 1 (remaining_ms d l) l = (case x of ReadBytes bs \<Rightarrow> (RBytes bs, l1)
        | ReadFailed e \<Rightarrow> (RError e, l1) | _ \<Rightarrow> (RNone, l1))"
      using "1.prems"(2) poll by (auto simp: read_raw_def split: poll_read.split)
    then obtain y where "read_raw 1 (remaining_ms d l) l = (y, l1)" "y \<noteq> RClosed"
      by (cases x) auto
    then have less: "(l1, l) \<in> measures [pending_size, \<lambda>l. d - clock l]"
      using read_raw_progress [of d l y l1] ready by auto
    have port: "0 \<le> fd l1" using poll_then_read_fields(1) [OF poll] "1.prems"(2) by simp
    note IH = "1.IH" [OF less _ port]
    note loop = "1.prems"(1) [unfolded scud_read_loop.simps [of c n d s l] Let_def read]
    show ?thesis
    proof (cases x)
      case (ReadBytes bs)
      then have "bs = [hd bs]"
        using poll_then_read_bytes [of 1 "remaining_ms d l" l bs l1] poll by (cases bs) auto
      with poll ReadBytes have one: "poll_then_read 1 (remaining_ms d l) l = (ReadBytes [hd bs], l1)"
        by simp
      show ?thesis
      proof (cases "scan_byte c n s (hd bs)")
        case (Inl p)
        with accept [OF one ready Inl] loop ready ReadBytes show ?thesis by simp
      next
        case (Inr s')
        with loop ready ReadBytes show ?thesis by (auto intro: feed [OF one ready Inr] IH)
      qed
    next
      case (ReadFailed e)
      with poll loop ready fault IH wait [OF poll ready] show ?thesis by (cases e) auto
    qed (use poll loop ready IH wait [OF poll ready] in auto)
  qed
qed

section \<open>Time on the line\<close>

definition script_time :: "link \<Rightarrow> nat" where
  "script_time l = sum_list (map snd (script l))"

definition link_fault :: "link \<Rightarrow> bool" where
  "link_fault l \<longleftrightarrow> ReadError EIO \<in> fst ` set (script l)"

lemma poll_then_read_time:
  assumes "poll_then_read n t l = (x, l')"
  shows "clock l' + script_time l' = clock l + script_time l \<and> script_time l' \<le> script_time l \<or>
    rxbuf l' = [] \<and> script l' = []"
  using assms
  by (auto simp: poll_then_read_def script_time_def Let_def
      split: if_splits list.splits prod.splits line_event.splits)

lemma poll_then_read_fault:
  assumes "poll_then_read n t l = (x, l')"
  shows "link_fault l' \<or> x = ReadFailed EIO \<longrightarrow> link_fault l"
  using assms
  by (auto simp: poll_then_read_def link_fault_def Let_def image_iff
      split: if_splits list.splits prod.splits line_event.splits)

section \<open>What the loop consumes\<close>

lemma scan_stream_append:
  "scan_stream c n s xs = Some (p, ys) \<Longrightarrow> scan_stream c n s (xs @ zs) = Some (p, ys @ zs)"
  by (induction c n s xs rule: scan_stream.induct) (auto split: sum.splits)

lemma scud_loop_consumes:
  assumes "scud_read_loop c n d s l = (r, l')" "0 \<le> fd l"
  shows "\<exists>used. incoming l = used @ incoming l' \<and>
    scan_stream c n s used = map_option (\<lambda>p. (p, [])) r"
  using assms
proof (rule scud_loop_induct)
  show "\<exists>used. incoming l = used @ incoming l1 \<and> scan_stream c n s used = map_option (\<lambda>p. (p, [])) (Some p)"
    if "poll_then_read 1 (remaining_ms d l) l = (ReadBytes [b], l1)" "scan_byte c n s b = Inl p"
    for s l b l1 p
    using poll_then_read_incoming [OF that(1)] that(2) by (intro exI [of _ "[b]"]) simp
  show "\<exists>used. incoming l = used @ incoming l' \<and> scan_stream c n s used = map_option (\<lambda>p. (p, [])) r"
    if "poll_then_read 1 (remaining_ms d l) l = (ReadBytes [b], l1)" "scan_byte c n s b = Inr s'"
      "\<exists>used. incoming l1 = used @ incoming l' \<and> scan_stream c n s' used = map_option (\<lambda>p. (p, [])) r"
    for s l b l1 s' r l'
  proof -
    from that(3) obtain used where "incoming l1 = used @ incoming l'"
      "scan_stream c n s' used = map_option (\<lambda>p. (p, [])) r" by blast
    then show ?thesis
      using poll_then_read_incoming [OF that(1)] that(2) by (intro exI [of _ "b # used"]) simp
  qed
  show "\<exists>used. incoming l = used @ incoming l' \<and> scan_stream c n s used = map_option (\<lambda>p. (p, [])) r"
    if "poll_then_read 1 (remaining_ms d l) l = (x, l1)" "\<And>bs. x \<noteq> ReadBytes bs"
      "\<exists>used. incoming l1 = used @ incoming l' \<and> scan_stream c n s used = map_option (\<lambda>p. (p, [])) r"
    for s l x l1 r l'
    using poll_then_read_incoming [OF that(1)] that(2,3) by (cases x) auto
  show "\<exists>used. incoming l = used @ incoming l1 \<and> scan_stream c n s used = map_option (\<lambda>p. (p, [])) None"
    if "poll_then_read 1 (remaining_ms d l) l = (ReadFailed EIO, l1)" for s l l1
    using poll_then_read_incoming [OF that] by (intro exI [of _ "[]"]) simp
qed simp

definition gives_up :: "nat \<Rightarrow> link \<Rightarrow> bytes option \<Rightarrow> link \<Rightarrow> bool" where
  "gives_up d l r l' \<longleftrightarrow> (incoming l = [] \<longrightarrow> incoming l' = []) \<and>
     (r = None \<longrightarrow> \<not> link_fault l \<longrightarrow> remaining_ms d l' = 0 \<and>
       (incoming l' = [] \<or> clock l' \<le> clock l + script_time l))"

lemma gives_up_step:
  assumes poll: "poll_then_read n t l = (x, l1)" and rest: "gives_up d l1 r l'"
  shows "gives_up d l r l'"
proof -
  have none: "incoming l = [] \<longrightarrow> incoming l1 = []"
    using poll_then_read_incoming [OF poll] by (cases x) auto
  have "rxbuf l1 = [] \<and> script l1 = [] \<longrightarrow> incoming l1 = []" by (simp add: incoming_def)
  with none show ?thesis
    using poll_then_read_time [OF poll] poll_then_read_fault [OF poll] rest
    unfolding gives_up_def by auto
qed

lemma scud_loop_gives_up:
  assumes "scud_read_loop c n d s l = (r, l')" "0 \<le> fd l"
  shows "gives_up d l r l'"
  using assms
proof (rule scud_loop_induct)
  show "gives_up d l None l1"
    if "poll_then_read 1 (remaining_ms d l) l = (ReadFailed EIO, l1)" for s l l1
    using poll_then_read_fault [OF that] poll_then_read_incoming [OF that]
    by (simp add: gives_up_def)
  show "gives_up d l (Some p) l1"
    if "poll_then_read 1 (remaining_ms d l) l = (ReadBytes [b], l1)" for s l b l1 p
    using poll_then_read_incoming [OF that] by (simp add: gives_up_def)
next
  show "gives_up d l None l" if "remaining_ms d l = 0" for s l
    using that by (simp add: gives_up_def)
qed (rule gives_up_step, assumption, assumption)+

text \<open>One poll lasts as long as it waits, or as long as the line says.\<close>

definition polls_within :: "nat \<Rightarrow> link \<Rightarrow> bool" where
  "polls_within X l \<longleftrightarrow> (\<forall>e \<in> set (script l). snd e \<le> X)"

lemma poll_then_read_within:
  assumes "poll_then_read n (remaining_ms d l) l = (x, l')" "polls_within X l" "remaining_ms d l \<noteq> 0"
  shows "polls_within X l' \<and> clock l' \<le> d + X"
proof -
  have "clock l < d" "clock l + (d - clock l) div 1000000 * 1000000 \<le> d"
    using assms(3) by (auto simp: remaining_ms_def div_eq_0_iff)
  with assms(1,2) show ?thesis
    by (auto simp: poll_then_read_def polls_within_def remaining_ms_def Let_def
        split: if_splits list.splits prod.splits line_event.splits)
qed

lemma scud_loop_deadline:
  assumes "scud_read_loop c n d s l = (r, l')" "0 \<le> fd l"
  shows "polls_within X l \<longrightarrow> clock l' \<le> max (clock l) (d + X)"
  using assms
proof (rule scud_loop_induct)
  show "polls_within X l \<longrightarrow> clock l' \<le> max (clock l) (d + X)"
    if "poll_then_read 1 (remaining_ms d l) l = (ReadBytes [b], l1)" "remaining_ms d l \<noteq> 0"
      "polls_within X l1 \<longrightarrow> clock l' \<le> max (clock l1) (d + X)" for s l b l1 s' r l'
    using poll_then_read_within [OF that(1) _ that(2)] that(3) by fastforce
  show "polls_within X l \<longrightarrow> clock l' \<le> max (clock l) (d + X)"
    if "poll_then_read 1 (remaining_ms d l) l = (x, l1)" "remaining_ms d l \<noteq> 0"
      "polls_within X l1 \<longrightarrow> clock l' \<le> max (clock l1) (d + X)" for s l x l1 r l'
    using poll_then_read_within [OF that(1) _ that(2)] that(3) by fastforce
  show "polls_within X l \<longrightarrow> clock l1 \<le> max (clock l) (d + X)"
    if "poll_then_read 1 (remaining_ms d l) l = (ReadBytes [b], l1)" "remaining_ms d l \<noteq> 0"
    for s l b l1 p
    using poll_then_read_within [OF that(1) _ that(2)] by fastforce
  show "polls_within X l \<longrightarrow> clock l1 \<le> max (clock l) (d + X)"
    if "poll_then_read 1 (remaining_ms d l) l = (ReadFailed EIO, l1)" "remaining_ms d l \<noteq> 0"
    for s l l1
    using poll_then_read_within [OF that(1) _ that(2)] by fastforce
qed auto

lemma scud_loop_fields:
  assumes "scud_read_loop c n d s l = (r, l')" "0 \<le> fd l"
  shows "fd l' = fd l \<and> opens l' = opens l \<and> writes l' = writes l \<and> txlog l' = txlog l \<and>
    clock l \<le> clock l'"
  using assms by (rule scud_loop_induct) (auto dest: poll_then_read_fields)

lemma scud_loop_complete:
  assumes "0 < n" "n < 256" "c \<noteq> FRAME_HEAD" "0 \<le> fd l" "\<not> link_fault l"
    and time: "clock l + script_time l + 1000000 \<le> dl"
    and frame: "hunt c n (incoming l) = Some (d, rest)"
  shows "\<exists>l'. scud_read_loop c (int n) dl scan_start l = (Some d, l') \<and> incoming l' = rest"
proof -
  obtain r l' where run: "scud_read_loop c (int n) dl scan_start l = (r, l')" by (meson surj_pair)
  from scud_loop_consumes [OF run assms(4)] obtain used where used: "incoming l = used @ incoming l'"
    and scan: "scan_stream c (int n) scan_start used = map_option (\<lambda>p. (p, [])) r" by blast
  have whole: "scan_stream c (int n) scan_start (incoming l) = Some (d, rest)"
    using frame assms(1-3) by (simp add: scan_start_hunt)
  show ?thesis
  proof (cases r)
    case None
    with scud_loop_gives_up [OF run assms(4)] assms(5) have
      "dl - clock l' < 1000000" "incoming l' = [] \<or> clock l' \<le> clock l + script_time l"
      by (auto simp: gives_up_def remaining_ms_def div_eq_0_iff)
    with time have "incoming l' = []" by auto
    with used scan whole None show ?thesis by simp
  next
    case (Some q)
    with scan scan_stream_append [of c "int n" scan_start used q "[]" "incoming l'"] used whole
    show ?thesis using run by simp
  qed
qed

section \<open>The properties of read_frame\<close>

lemma scud_read_frame_hunts:
  assumes "0 < n" "n < 256" "c \<noteq> FRAME_HEAD" "scud_read_frame p c (int n) l = (r, l')"
  shows "\<exists>used. incoming l = used @ incoming l' \<and> hunt c n used = map_option (\<lambda>d. (d, [])) r"
proof (cases "0 \<le> fd l")
  case True
  with assms(4) have "scud_read_loop c (int n) (clock l + scud_timeout_ms p * 1000000) scan_start l =
      (r, l')"
    by (simp add: scud_read_frame_def serial_is_open_def)
  from scud_loop_consumes [OF this True] show ?thesis by (simp add: scan_start_hunt [OF assms(1-3)])
next
  case False
  with assms(4) show ?thesis by (auto simp: scud_read_frame_def serial_is_open_def hunt_short)
qed

lemma scud_read_frame_finds:
  assumes "0 < n" "n < 256" "c \<noteq> FRAME_HEAD" "0 \<le> fd l" "\<not> link_fault l"
    and "script_time l + 1000000 \<le> scud_timeout_ms p * 1000000"
    and "hunt c n (incoming l) = Some (d, rest)"
  shows "\<exists>l'. scud_read_frame p c (int n) l = (Some d, l') \<and> incoming l' = rest"
  using scud_loop_complete [of n c l "clock l + scud_timeout_ms p * 1000000" d rest] assms
  by (simp add: scud_read_frame_def serial_is_open_def)

text \<open>C5. Whatever arrives and however it is spread over polls, timeouts and interrupted reads,
  \<open>read_frame\<close> consumes a prefix of the incoming bytes. When it succeeds, these bytes end with a
  good frame, whose payload it returns. Every other good frame that lies whole within the bytes
  consumed was lost to a header that begins no frame and stands less than \<open>n + 6\<close> bytes before it:
  a failure without such a header means that no good frame was among them. This holds for every
  command byte but 0xFE and every payload length from 1 to 255.\<close>

theorem scud_read_frame_scans:
  assumes "0 < n" "n < 256" "c \<noteq> FRAME_HEAD" "scud_read_frame p c (int n) l = (r, l')"
  shows "\<exists>used. incoming l = used @ incoming l' \<and>
    (\<forall>d. r = Some d \<longrightarrow> length d = n \<and> (\<exists>pre. used = pre @ scud_frame c d)) \<and>
    (\<forall>i. good_frame_at c n used i \<longrightarrow> r \<noteq> None \<and> i + n + 7 = length used \<or>
      (\<exists>j < i. i < j + n + 6 \<and> stale_header_at c n used j))"
proof -
  obtain used where used: "incoming l = used @ incoming l'"
    "hunt c n used = map_option (\<lambda>d. (d, [])) r"
    using scud_read_frame_hunts [OF assms] by blast
  show ?thesis
  proof (cases r)
    case None
    with used hunt_finds [of c n used] show ?thesis
      unfolding swallowed_def by (intro exI [of _ used]) simp
  next
    case (Some d)
    with used hunt_finds [of c n used] obtain pre where pre: "used = pre @ scud_frame c d"
      "length d = n" "\<forall>i < length pre. good_frame_at c n used i \<longrightarrow> swallowed c n used i" by auto
    have "i < length pre \<or> i = length pre" if "good_frame_at c n used i" for i
      using that pre(1,2) by (auto simp: good_frame_at_def)
    then have "\<forall>i. good_frame_at c n used i \<longrightarrow> i + n + 7 = length used \<or> swallowed c n used i"
      using pre by auto
    with Some used(1) pre(1,2) show ?thesis
      unfolding swallowed_def by (intro exI [of _ used]) auto
  qed
qed

text \<open>C6. A good frame that arrives in time is received: when it stands behind any bytes in which no
  header begins a good frame and no header stands less than \<open>n + 6\<close> bytes before it, the line has
  no fault, and all scripted events together take at least a millisecond less than the timeout,
  \<open>read_frame\<close> returns its payload and leaves the bytes behind the frame unread.\<close>

theorem scud_read_frame_receives:
  assumes "0 < length d" "length d < 256" "c \<noteq> FRAME_HEAD" "0 \<le> fd l" "\<not> link_fault l"
    and "script_time l + 1000000 \<le> scud_timeout_ms p * 1000000"
    and "incoming l = pre @ scud_frame c d @ rest"
    and "\<And>j. j < length pre \<Longrightarrow> header_at c (length d) (incoming l) j \<Longrightarrow>
      \<not> good_frame_at c (length d) (incoming l) j \<and> j + length d + 6 \<le> length pre"
  shows "\<exists>l'. scud_read_frame p c (int (length d)) l = (Some d, l') \<and> incoming l' = rest"
proof -
  have "hunt c (length d) (incoming l) = Some (d, rest)"
    using assms(7,8) hunt_clear by (simp add: clear_before_iff)
  with assms(1-6) show ?thesis by (rule scud_read_frame_finds)
qed

text \<open>C33. A header cut off from its frame swallows the good frame behind it: when all that arrives is
  such a header and then a complete good frame, \<open>read_frame\<close> takes the bytes behind the header for
  its payload, finds no valid trailer, and goes on behind them, too late for the frame. It fails,
  whatever the timing. The only exception is a frame that happens to complete the stray header.\<close>

theorem stale_header_swallows_frame:
  assumes "0 < n" "n < 256" "c \<noteq> FRAME_HEAD" "length d = n"
    and "incoming l = [FRAME_HEAD, FRAME_HEAD, c, word_of_nat n] @ scud_frame c d"
    and "stale_header_at c n (incoming l) 0"
  shows "good_frame_at c n (incoming l) 4 \<and> fst (scud_read_frame p c (int n) l) = None"
proof
  show "good_frame_at c n (incoming l) 4"
    using good_frame_at_frame [of c d "[FRAME_HEAD, FRAME_HEAD, c, word_of_nat n]" "[]"]
    by (simp add: assms(4,5) numeral_eq_Suc)
  obtain r l' where run: "scud_read_frame p c (int n) l = (r, l')" by (meson surj_pair)
  obtain used where used: "incoming l = used @ incoming l'"
    "hunt c n used = map_option (\<lambda>d. (d, [])) r"
    using scud_read_frame_hunts [OF assms(1-3) run] by blast
  let ?tl = "scud_frame c d"
  have "\<not> (n + 3 \<le> length ?tl \<and> take 3 (drop n ?tl) = scud_trailer c (take n ?tl))"
    using assms(5,6) good_frame_at_start [of c n ?tl] by (simp add: stale_header_at_def)
  then have "hunt c n (incoming l) = hunt c n (drop (n + 2) ?tl)"
    by (simp add: assms(4,5) hunt_header del: length_drop)
  also have "\<dots> = None"
    by (rule hunt_too_short) (simp add: assms(4))
  finally have "hunt c n (incoming l) = None" .
  moreover have "hunt c n (incoming l) \<noteq> None" if "r = Some q" for q
    using used that scan_stream_append [of c "int n" scan_start used q "[]" "incoming l'"]
    by (simp add: flip: scan_start_hunt [OF assms(1-3)])
  ultimately show "fst (scud_read_frame p c (int n) l) = None" using run by (cases r) auto
qed

text \<open>C22. \<open>read_frame\<close> returns by its deadline: it can overrun the timeout by at most the length
  of one poll on the line.\<close>

theorem scud_read_frame_deadline:
  assumes "polls_within X l" "scud_read_frame p c n l = (r, l')"
  shows "clock l' \<le> clock l + scud_timeout_ms p * 1000000 + X"
proof (cases "0 \<le> fd l")
  case True
  with assms(2) have "scud_read_loop c n (clock l + scud_timeout_ms p * 1000000) scan_start l = (r, l')"
    by (simp add: scud_read_frame_def serial_is_open_def)
  from scud_loop_deadline [OF this True, of X] assms(1) show ?thesis by simp
qed (use assms in \<open>auto simp: scud_read_frame_def serial_is_open_def\<close>)

lemma polls_within_byte_line: "1000 \<le> X \<Longrightarrow> polls_within X (byte_line bs)"
  by (auto simp: polls_within_def)

section \<open>Frames in noise\<close>

lemma after_header_noise:
  assumes "after_header c n (noise @ [FRAME_HEAD, FRAME_HEAD, c]) = None"
  shows "after_header c n (noise @ FRAME_HEAD # FRAME_HEAD # c # word_of_nat n # rest) = Some rest"
  using assms
proof (induction noise)
  case (Cons b noise)
  have "take 4 (b # noise @ FRAME_HEAD # FRAME_HEAD # c # word_of_nat n # rest) =
      take 4 (b # noise @ [FRAME_HEAD, FRAME_HEAD, c])"
    by (cases noise) (auto simp: take_Cons' numeral_eq_Suc)
  with Cons show ?case by (auto split: if_splits)
qed simp

lemma hunt_noise:
  assumes "after_header c (length payload) (noise @ [FRAME_HEAD, FRAME_HEAD, c]) = None"
  shows "hunt c (length payload) (noise @ scud_frame c payload @ rest) = Some (payload, rest)"
proof -
  have "length (scud_trailer c payload) = 3" by (simp add: scud_trailer_def Let_def)
  with after_header_noise [OF assms, of "payload @ scud_trailer c payload @ rest"] show ?thesis
    by (subst hunt.simps) (simp add: scud_frame_def)
qed

definition scud_query_frame :: "u8 \<Rightarrow> bytes" where
  "scud_query_frame cmd = scud_frame cmd [QUERY_PARAM]"

lemma after_header_heads:
  "c \<noteq> FRAME_HEAD \<Longrightarrow> after_header c n (replicate k FRAME_HEAD @ [FRAME_HEAD, FRAME_HEAD, c]) = None"
proof (induction k)
  case (Suc k)
  have "take 4 (replicate (Suc k) FRAME_HEAD @ [FRAME_HEAD, FRAME_HEAD, c]) \<noteq>
      [FRAME_HEAD, FRAME_HEAD, c, word_of_nat n]"
    using Suc.prems by (cases k; cases "k - 1") (auto simp: take_Cons' numeral_eq_Suc)
  with Suc show ?case by simp
qed simp

lemma query_crcs:
  "crc16_ccitt [0x61, 1, 1] = 0x8F4B" "crc16_ccitt [0x31, 1, 1] = 0xD185"
  by (simp_all add: crc16_ccitt_def scud_crc_step_def)

lemma scud_query_frame_eq:
  "scud_query_frame 0x61 = [0xFE, 0xFE, 0x61, 1, 1, 0x8F, 0x4B, 0xBB]"
  "scud_query_frame 0x31 = [0xFE, 0xFE, 0x31, 1, 1, 0xD1, 0x85, 0xBB]"
  by (simp_all add: scud_query_frame_def scud_frame_def scud_trailer_def query_crcs hi_byte_def lo_byte_def)

lemma after_header_echo:
  assumes "c \<noteq> FRAME_HEAD" "n \<noteq> 1" "n < 256" "cmd \<in> {0x61, 0x31}"
  shows "after_header c n (scud_query_frame cmd @ replicate k FRAME_HEAD @
    [FRAME_HEAD, FRAME_HEAD, c]) = None"
proof -
  have "(word_of_nat n :: u8) \<noteq> 1"
  proof
    assume "(word_of_nat n :: u8) = 1"
    then have "unat (word_of_nat n :: u8) = 1" by simp
    moreover have "unat (word_of_nat n :: u8) = n"
      using assms(3) by (simp add: unsigned_of_nat take_bit_nat_eq_self)
    ultimately show False using assms(2) by simp
  qed
  with assms after_header_heads [of c n k] show ?thesis by (auto simp: scud_query_frame_eq)
qed

text \<open>A reply is found behind the echo of one of our own queries and any number of further
  0xFE bytes, odd or even: the search skips the echo, whose command byte is that of the reply,
  and the extra head bytes, and returns the payload of the reply and the bytes behind it.\<close>

theorem reply_found_behind_echo:
  assumes "c \<noteq> FRAME_HEAD" "length payload \<noteq> 1" "length payload < 256" "cmd \<in> {0x61, 0x31}"
  shows "hunt c (length payload) (scud_query_frame cmd @ replicate k FRAME_HEAD @
    scud_frame c payload @ rest) = Some (payload, rest)"
  using hunt_noise [of c payload "scud_query_frame cmd @ replicate k FRAME_HEAD" rest]
    after_header_echo [OF assms(1-4), of k] by simp

theorem reply_found_behind_echo_witness:
  "hunt 0x61 28 (scud_query_frame 0x61 @ replicate 3 FRAME_HEAD @
     scud_frame 0x61 (replicate 28 7) @ [0x00]) = Some (replicate 28 7, [0x00])"
  using reply_found_behind_echo [where c = "0x61" and payload = "replicate 28 7" and cmd = "0x61"
      and k = 3 and rest = "[0x00]"] by simp

section \<open>Corrupted frames\<close>

text \<open>Behind \<open>FE FE\<close> the running checksum, started at 0xFEFE, is zero; the checksum of the frame
  returns it to zero before the tail.\<close>

lemma scud_step_small: "scud_crc_step (scud_crc_step c (hi_byte c)) (lo_byte c) = 0"
proof -
  have "c XOR push_bit 8 (ucast (hi_byte c)) = ucast (lo_byte c)"
    by (rule bit_word_eqI) (auto simp: hi_byte_def lo_byte_def bit_simps)
  then have "scud_crc_step c (hi_byte c) = scud_crc_step (ucast (lo_byte c)) 0"
    by (simp add: scud_step_eq)
  also have "scud_crc_step (ucast b) 0 = push_bit 8 (ucast b)" for b :: u8
  proof -
    have "(ucast b :: u16) = take_bit 8 (ucast b)"
      by (rule bit_word_eqI) (auto simp: bit_simps dest: bit_imp_le_length)
    then show ?thesis by (metis scud_crc_step_0 crc_bits_small)
  qed
  finally have "scud_crc_step c (hi_byte c) XOR push_bit 8 (ucast (lo_byte c)) = 0" by simp
  moreover have "scud_crc_step 0 0 = 0" by (simp add: scud_crc_step_def)
  ultimately show ?thesis using scud_step_eq [of _ "lo_byte c" 0 0] by simp
qed

lemma scud_frame_residue: "foldl scud_crc_step 0xFEFE (scud_frame c p) = scud_crc_step 0 FRAME_TAIL"
proof -
  have "foldl scud_crc_step 0xFEFE [FRAME_HEAD, FRAME_HEAD] = 0" by (simp add: scud_crc_step_def)
  then show ?thesis
    using scud_step_small [of "crc16_ccitt (c # word_of_nat (length p) # p)"]
    by (simp add: scud_frame_def scud_trailer_def Let_def crc16_ccitt_def)
qed

text \<open>C20. No corruption of one byte or of two adjacent bytes turns a good frame into a good frame
  of whatever command and payload.\<close>

theorem corrupted_scud_frame:
  assumes "scud_frame c payload = xs @ [a, b] @ ys" and "(a, b) \<noteq> (a', b')"
  shows "xs @ [a', b'] @ ys \<noteq> scud_frame c' payload'"
proof
  assume "xs @ [a', b'] @ ys = scud_frame c' payload'"
  with assms(1) have "foldl scud_crc_step 0xFEFE (xs @ a # b # ys) =
      foldl scud_crc_step 0xFEFE (xs @ a' # b' # ys)"
    using scud_frame_residue [of c payload] scud_frame_residue [of c' payload'] by simp
  with xmodem.two_bytes [OF assms(2)] show False by blast
qed

theorem corrupted_scud_frame_witness:
  "[0xFE, 0xFE, 0x61] @ [2, 1] @ [0x8F, 0x4B, 0xBB] \<noteq> scud_frame 0x61 [1]"
  using corrupted_scud_frame [where c = "0x61" and payload = "[1]" and xs = "[0xFE, 0xFE, 0x61]" and
      a = 1 and b = 1 and ys = "[0x8F, 0x4B, 0xBB]" and a' = 2 and b' = 1]
    scud_query_frame_eq(1) by (simp add: scud_query_frame_def)

section \<open>Concrete runs\<close>

definition demo_scud :: scud_protocol where
  "demo_scud = \<lparr>scud_port = ''/dev/ttyUSB0'', scud_baud = 9600, scud_timeout_ms = 300\<rparr>"

lemma byte_line_stream [simp]:
  "incoming (byte_line bs) = bs" "script_time (byte_line bs) = 1000 * length bs"
  "\<not> link_fault (byte_line bs)"
proof -
  have "concat (map event_bytes (map (\<lambda>b. (Arrive b [], 1000)) bs)) = bs" by (induction bs) simp_all
  then show "incoming (byte_line bs) = bs" by (simp only: incoming_def byte_line_simps) simp
  show "script_time (byte_line bs) = 1000 * length bs"
    by (simp add: script_time_def comp_def sum_list_triv)
qed (auto simp: link_fault_def)

theorem scud_read_frame_scans_witness:
  "\<exists>used. incoming (byte_line [1, 2]) =
      used @ incoming (snd (scud_read_frame demo_scud 0x61 28 (byte_line [1, 2]))) \<and>
    (\<forall>d. fst (scud_read_frame demo_scud 0x61 28 (byte_line [1, 2])) = Some d \<longrightarrow>
      length d = 28 \<and> (\<exists>pre. used = pre @ scud_frame 0x61 d)) \<and>
    (\<forall>i. good_frame_at 0x61 28 used i \<longrightarrow>
      fst (scud_read_frame demo_scud 0x61 28 (byte_line [1, 2])) \<noteq> None \<and> i + 28 + 7 = length used \<or>
      (\<exists>j < i. i < j + 28 + 6 \<and> stale_header_at 0x61 28 used j))"
proof (rule scud_read_frame_scans)
  show "scud_read_frame demo_scud 0x61 (int 28) (byte_line [1, 2]) =
    (fst (scud_read_frame demo_scud 0x61 28 (byte_line [1, 2])),
     snd (scud_read_frame demo_scud 0x61 28 (byte_line [1, 2])))" by simp
qed simp_all

text \<open>The reply stands behind the echo of the query.\<close>

theorem scud_read_frame_receives_witness:
  "\<exists>l'. scud_read_frame demo_scud 0x61 (int (length (replicate 28 (7 :: u8))))
      (byte_line (scud_query_frame 0x61 @ scud_frame 0x61 (replicate 28 7) @ [0])) =
      (Some (replicate 28 7), l') \<and> incoming l' = [0]"
proof (rule scud_read_frame_receives [where pre = "scud_query_frame 0x61"])
  fix j assume j: "j < length (scud_query_frame 0x61)"
    "header_at 0x61 (length (replicate 28 (7 :: u8)))
      (incoming (byte_line (scud_query_frame 0x61 @ scud_frame 0x61 (replicate 28 7) @ [0]))) j"
  then have "j < 8" by (simp add: scud_query_frame_def)
  then have "j \<in> {0, 1, 2, 3, 4, 5, 6, 7}" by auto
  with j(2) show "\<not> good_frame_at 0x61 (length (replicate 28 (7 :: u8)))
      (incoming (byte_line (scud_query_frame 0x61 @ scud_frame 0x61 (replicate 28 7) @ [0]))) j \<and>
    j + length (replicate 28 (7 :: u8)) + 6 \<le> length (scud_query_frame 0x61)"
    by (auto simp: header_at_def scud_query_frame_eq)
qed (simp_all add: demo_scud_def scud_query_frame_def)

theorem stale_header_swallows_frame_witness:
  "good_frame_at 0x61 28 (incoming (byte_line ([0xFE, 0xFE, 0x61, 0x1C] @ scud_frame 0x61 (replicate 28 7)))) 4 \<and>
   fst (scud_read_frame demo_scud 0x61 (int 28)
     (byte_line ([0xFE, 0xFE, 0x61, 0x1C] @ scud_frame 0x61 (replicate 28 7)))) = None"
proof (rule stale_header_swallows_frame [where d = "replicate 28 7"])
  let ?l = "byte_line ([0xFE, 0xFE, 0x61, 0x1C] @ scud_frame 0x61 (replicate 28 7))"
  have head: "[0xFE, 0xFE, 0x61, 0x1C] @ bs = FRAME_HEAD # FRAME_HEAD # 0x61 # word_of_nat 28 # bs" for bs
    by simp
  have "take 3 (drop 28 (scud_frame 0x61 (replicate 28 7))) = [7, 7, 7]"
    by (simp add: scud_frame_def eval_nat_numeral)
  then show "stale_header_at 0x61 28 (incoming ?l) 0"
    unfolding stale_header_at_def byte_line_stream head good_frame_at_start
    by (simp add: header_at_def scud_trailer_def Let_def)
qed simp_all

theorem scud_read_frame_deadline_witness:
  "clock (snd (scud_read_frame demo_scud 0x61 28 (byte_line [1, 2]))) \<le> 300001000"
  using scud_read_frame_deadline [of 1000 "byte_line [1, 2]" demo_scud "0x61" 28
      "fst (scud_read_frame demo_scud 0x61 28 (byte_line [1, 2]))"
      "snd (scud_read_frame demo_scud 0x61 28 (byte_line [1, 2]))"]
  by (simp add: demo_scud_def polls_within_byte_line)

end
