(* ===== verification/Scud_Telemetry.thy ===== *)
theory Scud_Telemetry
  imports Scud_Frames
begin

text \<open>
  What \<open>ScudBmsProtocol::read_all\<close> makes of the replies: it is a snapshot reader, a user
  information reply fills the record field by field, and a reply without cell extremes is
  completed from the battery summary.
\<close>

unbundle bit_operations_syntax

section \<open>Decoding is in bounds\<close>

lemma get_u16_be_Some [decode_simps]:
  "offset + 1 < length buf \<Longrightarrow>
    get_u16_be buf offset = Some (join16 (buf ! offset) (buf ! (offset + 1)))"
  by (simp add: get_u16_be_def byte_at_def join16_def)

lemma get_i16_be_Some [decode_simps]:
  "offset + 1 < length buf \<Longrightarrow>
    get_i16_be buf offset = Some (sint (join16 (buf ! offset) (buf ! (offset + 1))))"
  by (simp add: get_i16_be_def decode_simps)

lemma get_u16_be_registers:
  "i < length ws \<Longrightarrow> k = 2 * i \<Longrightarrow> get_u16_be (be_registers ws) k = Some (ws ! i)"
  "i < length ws \<Longrightarrow> k = 2 * i \<Longrightarrow> get_i16_be (be_registers ws) k = Some (sint (ws ! i))"
  by (simp_all add: decode_simps registers_nth)

lemma hunt_length: "hunt c n bs = Some (d, rest) \<Longrightarrow> length d = n"
proof (induction c n bs rule: hunt.induct)
  case (1 c n bs)
  from "1.prems" show ?case
    by (subst (asm) hunt.simps) (auto dest: "1.IH" split: option.splits if_splits)
qed

lemma scud_read_frame_contract:
  assumes "scud_read_frame p c (int n) l = (r, l')" "0 < n" "n < 256" "c \<noteq> FRAME_HEAD"
  shows "(\<forall>d. r = Some d \<longrightarrow> length d = n \<and> 0 \<le> fd l) \<and> fd l' = fd l \<and> opens l' = opens l \<and>
    writes l' = writes l"
proof (cases "0 \<le> fd l")
  case True
  then have run: "scud_read_loop c (int n) (clock l + scud_timeout_ms p * 1000000) scan_start l = (r, l')"
    using assms(1) by (simp add: scud_read_frame_def serial_is_open_def)
  from scud_loop_consumes [OF run True] scan_start_hunt [OF assms(2-4)] have
    "\<exists>used. hunt c n used = map_option (\<lambda>p. (p, [])) r" by metis
  then have "\<forall>d. r = Some d \<longrightarrow> length d = n" by (auto dest: hunt_length)
  with scud_loop_fields [OF run True] True show ?thesis by simp
qed (use assms in \<open>auto simp: scud_read_frame_def serial_is_open_def\<close>)

lemma scud_send_query_fields [port_simps]:
  "fd (snd (scud_send_query c l)) = fd l" "opens (snd (scud_send_query c l)) = opens l"
  "script (snd (scud_send_query c l)) = script l"
  "clock (snd (scud_send_query c l)) = clock l + 10000000"
  by (simp_all add: scud_send_query_def Let_def case_prod_beta port_simps)

lemma query_contract:
  "query_0x61 p l = (r, l') \<Longrightarrow>
    (\<forall>d. r = Some d \<longrightarrow> length d = 28 \<and> 0 \<le> fd l) \<and> fd l' = fd l \<and> opens l' = opens l"
  "query_0x31 p l = (r, l') \<Longrightarrow>
    (\<forall>d. r = Some d \<longrightarrow> length d = 38 \<and> 0 \<le> fd l) \<and> fd l' = fd l \<and> opens l' = opens l"
proof -
  obtain s l1 where a: "scud_send_query 0x61 l = (s, l1)" by (meson surj_pair)
  obtain t l2 where b: "scud_send_query 0x31 l = (t, l2)" by (meson surj_pair)
  have f: "fd l1 = fd l" "opens l1 = opens l" "fd l2 = fd l" "opens l2 = opens l"
    using scud_send_query_fields [of "0x61" l] scud_send_query_fields [of "0x31" l] a b by simp_all
  show "query_0x61 p l = (r, l') \<Longrightarrow>
    (\<forall>d. r = Some d \<longrightarrow> length d = 28 \<and> 0 \<le> fd l) \<and> fd l' = fd l \<and> opens l' = opens l"
    using scud_read_frame_contract [of p "0x61" 28 l1 r l'] f
    by (auto simp: query_0x61_def a split: if_splits)
  show "query_0x31 p l = (r, l') \<Longrightarrow>
    (\<forall>d. r = Some d \<longrightarrow> length d = 38 \<and> 0 \<le> fd l) \<and> fd l' = fd l \<and> opens l' = opens l"
    using scud_read_frame_contract [of p "0x31" 38 l2 r l'] f
    by (auto simp: query_0x31_def b split: if_splits)
qed

section \<open>The user information\<close>

text \<open>The record of the fourteen words of a user information reply, as the comments of
  \<open>read_all\<close> document them: flags, charge and discharge current, output voltage, cell extremes,
  full and remaining capacity, state of charge, highest temperature, cycle count.\<close>

definition scud_status_of_words :: "u16 list \<Rightarrow> battery_status \<Rightarrow> battery_status" where
  "scud_status_of_words w st =
     \<lparr>voltage = milli (w ! 5),
      current = ddiv (of_int (if w ! 1 > 0 then uint (w ! 1) else - uint (w ! 2))) 1000,
      temperature = of_int (sint (w ! 12)),
      percentage = ddiv (of_int (uint (w ! 10))) 100,
      charge = milli (w ! 9),
      capacity = milli (w ! 8),
      design_capacity = milli (w ! 8),
      protect_status = ucast (w ! 0),
      work_state = w ! 0 AND 0x000F,
      max_cell_voltage = milli (w ! 6),
      min_cell_voltage = milli (w ! 7),
      serial_number = serial_number st,
      sw_version = 0, hw_version = 0, soh = 0,
      cycles = ucast (w ! 13),
      io_state = 0,
      power_on = (if w ! 0 AND 1 \<noteq> 0 then 1 else 0)\<rparr>"

lemma scud_decode_words:
  assumes "length w = 14"
  shows "scud_decode_user_info (be_registers w) st = Some (scud_status_of_words w st)"
  using assms
  by (simp add: scud_decode_user_info_def scud_status_of_words_def Let_def
      get_u16_be_registers(1) [where i = 0] get_u16_be_registers(1) [where i = 1]
      get_u16_be_registers(1) [where i = 2] get_u16_be_registers(1) [where i = 5]
      get_u16_be_registers(1) [where i = 6] get_u16_be_registers(1) [where i = 7]
      get_u16_be_registers(1) [where i = 8] get_u16_be_registers(1) [where i = 9]
      get_u16_be_registers(1) [where i = 10] get_u16_be_registers(1) [where i = 13]
      get_u16_be_registers(2) [where i = 12])

text \<open>Every payload of even length is a list of big-endian words.\<close>

fun words_of :: "bytes \<Rightarrow> u16 list" where
  "words_of (hi # lo # bs) = join16 hi lo # words_of bs"
| "words_of _ = []"

lemma be_registers_words_of: "even (length bs) \<Longrightarrow> be_registers (words_of bs) = bs"
  by (induction bs rule: words_of.induct) (auto simp: be_registers_def)

lemma payload_words:
  assumes "length d = 2 * k" obtains w where "d = be_registers w" "length w = k"
  using that [of "words_of d"] be_registers_words_of [of d] assms length_registers(2) [of "words_of d"]
  by simp

section \<open>The cell extremes\<close>

definition cell_extremes :: "u16 list \<Rightarrow> u16 \<times> u16" where
  "cell_extremes vs = (Max (insert 0 (set vs)), Min (insert 0xFFFF (set vs - {0})))"

lemma word_max_min:
  "(if mx < v then v else mx) = max v mx" "(if v < mn then v else mn) = min v mn"
  for mx mn v :: u16
  by (auto simp: max_def min_def)

lemma scud_cell_loop_words:
  assumes "\<forall>i \<in> set is. i < length w"
  shows "scud_cell_loop (be_registers w) is mx mn =
    Some (fold max (map ((!) w) is) mx, fold min (filter (\<lambda>v. v \<noteq> 0) (map ((!) w) is)) mn)"
  using assms
proof (induction "is" arbitrary: mx mn)
  case (Cons i js)
  then show ?case
    by (simp add: get_u16_be_registers(1) [where i = i] mult.commute word_max_min)
qed simp

lemma scud_cells_of_words:
  assumes "length w = 19"
  shows "scud_cell_loop (be_registers w) [0..<15] 0 0xFFFF = Some (cell_extremes (take 15 w))"
proof -
  have "map ((!) w) [0..<15] = take 15 w"
    using assms by (intro nth_equalityI) (simp_all del: upt.simps)
  moreover have "\<forall>i \<in> set [0..<15]. i < length w" using assms by simp
  ultimately have "scud_cell_loop (be_registers w) [0..<15] 0 0xFFFF =
      Some (fold max (take 15 w) 0, fold min (filter (\<lambda>v. v \<noteq> 0) (take 15 w)) 0xFFFF)"
    by (simp add: scud_cell_loop_words del: upt.simps)
  also have "fold max (take 15 w) 0 = Max (set (0 # take 15 w))"
    by (rule Max.set_eq_fold [symmetric])
  also have "fold min (filter (\<lambda>v. v \<noteq> 0) (take 15 w)) 0xFFFF =
      Min (set (0xFFFF # filter (\<lambda>v. v \<noteq> 0) (take 15 w)))"
    by (rule Min.set_eq_fold [symmetric])
  also have "set (0xFFFF # filter (\<lambda>v. v \<noteq> 0) (take 15 w)) = insert 0xFFFF (set (take 15 w) - {0})"
    by auto
  finally show ?thesis by (simp add: cell_extremes_def)
qed

section \<open>read_all\<close>

definition backfill :: "u16 list \<Rightarrow> battery_status \<Rightarrow> battery_status" where
  "backfill cells st =
     (let (mx, mn) = cell_extremes (take 15 cells)
      in if mn \<noteq> 0xFFFF then st\<lparr>max_cell_voltage := milli mx, min_cell_voltage := milli mn\<rparr> else st)"

lemma scud_read_all_words:
  assumes "query_0x61 p l = (Some (be_registers w), l1)" "length w = 14"
  shows "scud_read_all p st l =
    (if w ! 6 = 0 \<and> w ! 7 = 0
     then (case query_0x31 p l1 of
         (None, l2) \<Rightarrow> Some (True, scud_status_of_words w st, l2)
       | (Some d, l2) \<Rightarrow> Some (True, backfill (words_of d) (scud_status_of_words w st), l2))
     else Some (True, scud_status_of_words w st, l1))"
proof -
  have dec: "scud_read_all p st l =
    (if w ! 6 = 0 \<and> w ! 7 = 0
     then (case query_0x31 p l1 of
         (None, l2) \<Rightarrow> Some (True, scud_status_of_words w st, l2)
       | (Some cells, l2) \<Rightarrow> do {
           (mx, mn) \<leftarrow> scud_cell_loop cells [0..<15] 0 0xFFFF;
           Some (True, (if mn \<noteq> 0xFFFF then (scud_status_of_words w st)\<lparr>max_cell_voltage := milli mx,
             min_cell_voltage := milli mn\<rparr> else scud_status_of_words w st), l2) })
     else Some (True, scud_status_of_words w st, l1))"
    using assms by (simp add: scud_read_all_def scud_decode_words
        get_u16_be_registers(1) [where i = 6] get_u16_be_registers(1) [where i = 7] del: upt.simps)
  obtain r l2 where q: "query_0x31 p l1 = (r, l2)" by (meson surj_pair)
  show ?thesis
  proof (cases r)
    case (Some d)
    then have "even (length d)" "length d = 38" using query_contract(2) [OF q] by auto
    then obtain "be_registers (words_of d) = d" "length (words_of d) = 19"
      using be_registers_words_of [of d] length_registers(2) [of "words_of d"] by auto
    with scud_cells_of_words [of "words_of d"] show ?thesis
      unfolding dec q Some by (simp add: backfill_def case_prod_beta del: upt.simps)
  qed (simp add: dec q)
qed

lemma scud_snapshot_words:
  "scud_status_of_words w st = (scud_status_of_words w x)\<lparr>serial_number := serial_number st\<rparr>"
  "backfill c (y\<lparr>serial_number := s\<rparr>) = (backfill c y)\<lparr>serial_number := s\<rparr>"
  by (simp_all add: scud_status_of_words_def backfill_def Let_def case_prod_beta)

lemma scud_snapshot_reader: "snapshot_reader (scud_read_all p)"
proof
  fix l
  obtain r l1 where q: "query_0x61 p l = (r, l1)" by (meson surj_pair)
  obtain r2 l2 where q2: "query_0x31 p l1 = (r2, l2)" by (meson surj_pair)
  note c1 = query_contract(1) [OF q] and c2 = query_contract(2) [OF q2]
  let ?P = "\<lambda>ok snap l'. (\<forall>st. scud_read_all p st l =
         Some (ok, if ok then snap\<lparr>serial_number := serial_number st\<rparr> else st, l')) \<and>
       (ok \<longrightarrow> 0 \<le> fd l) \<and> fd l' = fd l \<and> opens l' = opens l"
  show "\<exists>ok snap l'. ?P ok snap l'"
  proof (cases r)
    case None
    with c1 q have "?P False zero_status l1" by (simp add: scud_read_all_def)
    then show ?thesis by blast
  next
    case (Some d)
    with c1 obtain w where w: "d = be_registers w" "length w = 14"
      using payload_words [of d 14] by auto
    note read = scud_read_all_words [OF q [unfolded Some w(1)] w(2)]
    obtain s where st: "\<And>st. scud_status_of_words w st = s\<lparr>serial_number := serial_number st\<rparr>"
      using scud_snapshot_words(1) [of w _ zero_status] by blast
    consider "w ! 6 = 0 \<and> w ! 7 = 0" "r2 = None" | d2 where "w ! 6 = 0 \<and> w ! 7 = 0" "r2 = Some d2"
      | "\<not> (w ! 6 = 0 \<and> w ! 7 = 0)" by (cases r2) auto
    then show ?thesis
    proof cases
      case 1
      then have "?P True s l2" using c1 c2 Some by (auto simp: read q2 st)
      then show ?thesis by blast
    next
      case 2
      then have "?P True (backfill (words_of d2) s) l2"
        using c1 c2 Some by (auto simp: read q2 st scud_snapshot_words(2))
      then show ?thesis by blast
    next
      case 3
      then have "?P True s l1" using c1 Some by (auto simp: read st)
      then show ?thesis by blast
    qed
  qed
qed

interpretation scud: snapshot_reader "scud_read_all p" for p
  by (rule scud_snapshot_reader)

section \<open>The properties of read_all\<close>

text \<open>C14. \<open>read_all\<close> never reads a payload out of bounds and does the following on every line: no
  user information reply, no change; otherwise the record is that of the fourteen words of the
  reply; and exactly when both cell extremes in it are zero, a battery summary that answers
  replaces them by the greatest and the least of the non-zero values among its first fifteen
  words, if one of them is below 0xFFFF. A failing summary does not fail the read.\<close>

theorem scud_read_all_cases:
  "scud_read_all p st l =
     (case query_0x61 p l of
        (None, l1) \<Rightarrow> Some (False, st, l1)
      | (Some d, l1) \<Rightarrow>
          (let w = words_of d; s = scud_status_of_words w st
           in if w ! 6 = 0 \<and> w ! 7 = 0
              then (case query_0x31 p l1 of
                  (None, l2) \<Rightarrow> Some (True, s, l2)
                | (Some c, l2) \<Rightarrow> Some (True, backfill (words_of c) s, l2))
              else Some (True, s, l1)))"
proof -
  obtain r l1 where q: "query_0x61 p l = (r, l1)" by (meson surj_pair)
  show ?thesis
  proof (cases r)
    case None
    with q show ?thesis by (simp add: scud_read_all_def)
  next
    case (Some d)
    with query_contract(1) [OF q] have d: "even (length d)" "length d = 28" by auto
    then have w: "be_registers (words_of d) = d" "length (words_of d) = 14"
      using be_registers_words_of [of d] length_registers(2) [of "words_of d"] by auto
    with q Some have "query_0x61 p l = (Some (be_registers (words_of d)), l1)" by simp
    from scud_read_all_words [OF this w(2)] show ?thesis by (simp add: q Some Let_def)
  qed
qed

text \<open>All or nothing: whether \<open>read_all\<close> succeeds does not depend on the record it is given;
  a failure leaves that record as it is, and a success determines every field but the serial
  number from this round's bytes alone. A closed port never succeeds, and the port is neither
  opened nor closed.\<close>

theorem scud_read_all_all_or_nothing:
  "\<exists>ok snap l'. (\<forall>st. scud_read_all p st l =
       Some (ok, if ok then snap\<lparr>serial_number := serial_number st\<rparr> else st, l')) \<and>
     \<not> (ok \<and> fd l < 0) \<and> fd l' = fd l \<and> opens l' = opens l"
  using scud.snapshot_cases [of p l] by (meson not_less)

text \<open>The bytes that arrive after a flush.\<close>

definition coming :: "link \<Rightarrow> bytes" where
  "coming l = concat (map event_bytes (script l))"

lemma scud_query_answered:
  assumes "writes_ok l" "\<not> link_fault l"
    and "script_time l + 1000000 \<le> scud_timeout_ms p * 1000000"
    and "hunt 0x61 28 (coming l) = Some (d, rest)"
  shows "\<exists>l1. query_0x61 p l = (Some d, l1)"
proof -
  obtain sent l0 where s: "scud_send_query 0x61 l = (sent, l0)" by (meson surj_pair)
  have sent: "sent" "rxbuf l0 = []"
    using s assms(1) by (auto simp: scud_send_query_def Let_def port_simps writes_ok_def)
  have l0: "fd l0 = fd l" "script l0 = script l" "clock l0 = clock l + 10000000"
    using scud_send_query_fields [of "0x61" l] s by simp_all
  with sent have "incoming l0 = coming l" "script_time l0 = script_time l" "\<not> link_fault l0"
    using assms(2) by (simp_all add: incoming_def coming_def script_time_def link_fault_def)
  with assms l0 have "\<exists>l'. scud_read_loop 0x61 (int 28) (clock l0 + scud_timeout_ms p * 1000000)
      scan_start l0 = (Some d, l') \<and> incoming l' = rest"
    by (intro scud_loop_complete) (simp_all add: writes_ok_def)
  then show ?thesis
    using sent assms(1) l0
    by (auto simp: query_0x61_def s scud_read_frame_def serial_is_open_def writes_ok_def)
qed

text \<open>On a line that stays silent the query fails.\<close>

lemma scud_query_silent:
  assumes "coming l = []"
  shows "\<exists>l1. query_0x61 p l = (None, l1)"
proof -
  obtain r l1 where q: "query_0x61 p l = (r, l1)" by (meson surj_pair)
  obtain sent l0 where s: "scud_send_query 0x61 l = (sent, l0)" by (meson surj_pair)
  have "r = None"
  proof (rule ccontr)
    assume r: "r \<noteq> None"
    with query_contract(1) [OF q] have "0 \<le> fd l" by auto
    then have "rxbuf l0 = []"
      using s by (auto simp: scud_send_query_def Let_def port_simps case_prod_beta)
    then have "incoming l0 = []"
      using assms scud_send_query_fields(3) [of "0x61" l] s by (simp add: incoming_def coming_def)
    moreover have "scud_read_frame p 0x61 (int 28) l0 = (r, l1)"
      using q r by (auto simp: query_0x61_def s split: if_splits)
    ultimately show False
      using scud_read_frame_hunts [of 28 "0x61" p l0 r l1] r by (auto simp: hunt_short)
  qed
  with q show ?thesis by blast
qed

text \<open>C7. End to end: when a user information frame with fourteen words of telemetry, not both
  cell extremes zero, arrives in time behind whatever noise that contains no frame header, such
  as the echo of the query, \<open>read_all\<close> succeeds and the record holds exactly that telemetry.\<close>

theorem scud_read_all_of_telemetry:
  assumes "writes_ok l" "\<not> link_fault l"
    and "script_time l + 1000000 \<le> scud_timeout_ms p * 1000000"
    and "coming l = noise @ scud_frame 0x61 (be_registers w) @ rest"
    and "after_header 0x61 28 (noise @ [FRAME_HEAD, FRAME_HEAD, 0x61]) = None"
    and "length w = 14" "w ! 6 \<noteq> 0 \<or> w ! 7 \<noteq> 0"
  shows "\<exists>l'. scud_read_all p st l = Some (True, scud_status_of_words w st, l')"
proof -
  have "hunt 0x61 28 (coming l) = Some (be_registers w, rest)"
    using hunt_noise [of "0x61" "be_registers w" noise rest] assms(4-6) by simp
  from scud_query_answered [OF assms(1-3) this] obtain l1 where
    q: "query_0x61 p l = (Some (be_registers w), l1)" by blast
  from scud_read_all_words [OF q assms(6)] assms(7) show ?thesis by auto
qed

definition demo_words :: "u16 list" where
  "demo_words = [0x0003, 0, 1500, 0, 0, 48123, 3712, 3698, 20000, 15000, 75, 0, 31, 120]"

lemma coming_byte_line [simp]: "coming (byte_line bs) = bs"
proof -
  have "concat (map event_bytes (map (\<lambda>b. (Arrive b [], 1000)) bs)) = bs" by (induction bs) simp_all
  then show ?thesis by (simp only: coming_def byte_line_simps)
qed

theorem scud_read_all_of_telemetry_witness:
  "\<exists>l'. scud_read_all demo_scud zero_status
      (byte_line (scud_query_frame 0x61 @ scud_frame 0x61 (be_registers demo_words) @ [])) =
    Some (True, scud_status_of_words demo_words zero_status, l')"
proof (rule scud_read_all_of_telemetry)
  show "after_header 0x61 28 (scud_query_frame 0x61 @ [FRAME_HEAD, FRAME_HEAD, 0x61]) = None"
    using after_header_echo [where k = 0 and c = "0x61" and n = 28 and cmd = "0x61"] by simp
qed (simp_all add: writes_ok_def demo_words_def demo_scud_def scud_query_frame_def)

end
