(* ===== verification/Daemon.thy ===== *)
theory Daemon
  imports Daemon_Loop Tws_Protocol Gf_Protocol Scud_Telemetry
begin

text \<open>
  \<open>run_daemon\<close> for the three serial protocols of \<open>src/bms_daemon.cpp\<close>: SCUD485 publishes
  snapshots (\<open>publishes_snapshots\<close>), TWS and GF carry fields forward.
\<close>

section \<open>The three instances of the template\<close>

definition scud_phase :: "scud_protocol \<Rightarrow> phase" where
  "scud_phase p = snapshot_phase (scud_read_all p)"

definition tws_phase :: "protocol \<Rightarrow> phase" where
  "tws_phase p = legacy_phase (tws_read_basic_info p) (tws_read_capacity_info p) (tws_read_io_state p)"

definition gf_phase :: "protocol \<Rightarrow> phase" where
  "gf_phase p = legacy_phase (gf_read_basic_info p) (gf_read_capacity_info p) gf_read_io_state"

lemma scud_loop: "daemon_loop (scud_phase p) (scud_open p) scud_close_port"
  unfolding scud_phase_def
  by (intro daemon_loop.intro snapshot_reader.snapshot_daemon_phase [OF scud_snapshot_reader] serial_port_ops)
    (simp_all add: scud_open_def scud_close_port_def)

lemma tws_loop: "daemon_loop (tws_phase p) (tws_open p) tws_close_port"
  unfolding tws_phase_def
  by (intro daemon_loop.intro fieldwise_protocol.legacy_daemon_phase [OF tws.fieldwise_protocol_axioms] serial_port_ops)
    (simp_all add: tws_open_def tws_close_port_def)

lemma gf_loop: "daemon_loop (gf_phase p) (gf_open p) gf_close_port"
  unfolding gf_phase_def
  by (intro daemon_loop.intro fieldwise_protocol.legacy_daemon_phase [OF gf.fieldwise_protocol_axioms] serial_port_ops)
    (simp_all add: gf_open_def gf_close_port_def)

interpretation scud_d: daemon_loop "scud_phase p" "scud_open p" scud_close_port for p
  by (rule scud_loop)

interpretation tws_d: daemon_loop "tws_phase p" "tws_open p" tws_close_port for p
  by (rule tws_loop)

interpretation gf_d: daemon_loop "gf_phase p" "gf_open p" gf_close_port for p
  by (rule gf_loop)

section \<open>The startup query is total\<close>

lemma tws_version_total: "\<exists>r. tws_read_version_info p st l = Some r"
proof -
  obtain ok1 b1 l1 where r1: "tws_read_response p 9
      (tws_send_read_request p REG_VERSION_SW 2 (serial_flush l)) = (ok1, b1, l1)" by (metis surj_pair)
  obtain ok2 b2 l2 where r2: "tws_read_response p 7
      (tws_send_read_request p REG_SOH 1 (serial_flush (usleep 50000 l1))) = (ok2, b2, l2)"
    by (metis surj_pair)
  obtain ok3 b3 l3 where r3: "tws_read_response p 9
      (tws_send_read_request p REG_CYCLES 2 (serial_flush (usleep 50000 l2))) = (ok3, b3, l3)"
    by (metis surj_pair)
  have "ok1 \<longrightarrow> length b1 = 9" "ok2 \<longrightarrow> length b2 = 7" "ok3 \<longrightarrow> length b3 = 9"
    using r1 r2 r3 by (auto dest: tws_read_response_length)
  then show ?thesis
    by (cases ok1; cases ok2; cases ok3)
      (auto simp: tws_read_version_info_def r1 r2 r3 get_u16_Some get_u32_Some)
qed

lemma gf_version_total: "\<exists>r. gf_read_version_info p st l = Some r"
proof -
  obtain ok1 b1 l1 where r1: "gf_read_response p 9
      (gf_send_read_request p 1 2 (usleep 10000 (gf_flush l))) = (ok1, b1, l1)" by (metis surj_pair)
  obtain ok2 b2 l2 where r2: "gf_read_response p 7
      (gf_send_read_request p 117 1 (gf_flush (usleep 50000 l1))) = (ok2, b2, l2)" by (metis surj_pair)
  obtain ok3 b3 l3 where r3: "gf_read_response p 7
      (gf_send_read_request p 129 1 (gf_flush (usleep 50000 l2))) = (ok3, b3, l3)" by (metis surj_pair)
  have "ok1 \<longrightarrow> length b1 = 9" "ok2 \<longrightarrow> length b2 = 7" "ok3 \<longrightarrow> length b3 = 7"
    using r1 r2 r3 unfolding gf_read_response_eq by (auto dest: tws_read_response_length)
  then show ?thesis
    by (cases ok1; cases ok2; cases ok3)
      (auto simp: gf_read_version_info_def r1 r2 r3 decode_simps Let_def)
qed

lemma scud_version_total: "\<exists>r. scud_read_version_info p st l = Some r"
proof -
  obtain r l1 where q: "query_0x61 p l = (r, l1)" by (meson surj_pair)
  with query_contract(1) [OF q] show ?thesis
    by (cases r) (auto simp: scud_read_version_info_def get_u16_be_Some)
qed

lemma run_daemon_total:
  assumes loop: "daemon_loop phase op cl" and version: "\<And>st l. \<exists>r. ver st l = Some r"
  shows "\<exists>e. run_daemon phase op cl ver junk start envs l = Some e \<and>
    (case e of Shutdown d \<Rightarrow> d_failures d < 5 | _ \<Rightarrow> True)"
proof -
  obtain opened l1 where w: "wait_open op (se_attempts start) l = (opened, l1)" by (metis surj_pair)
  obtain a b l2 where v: "ver junk l1 = Some (a, b, l2)" using version by (metis surj_pair)
  obtain r where r: "daemon_rounds phase op cl envs (initial_daemon l2) = Some r"
    using daemon_loop.rounds_total [OF loop] by blast
  have "d_failures d < 5" if "r = Running d" for d
    using daemon_loop.rounds_failures [OF loop, of envs "initial_daemon l2" d] r that
    by (simp add: initial_daemon_def)
  then show ?thesis
    by (cases r) (auto simp: run_daemon_def w v r)
qed

section \<open>Properties of the daemon\<close>

text \<open>C16. For each of the three protocols, whatever the line delivers and whatever the outside
  does, the daemon never reads a buffer out of bounds, and at every point where a signal can end
  its loop the failure counter is below five.\<close>

theorem daemon_defined:
  "(\<exists>e. run_daemon (scud_phase ps) (scud_open ps) scud_close_port (scud_read_version_info ps)
       junk start envs l = Some e \<and> (case e of Shutdown d \<Rightarrow> d_failures d < 5 | _ \<Rightarrow> True)) \<and>
   (\<exists>e. run_daemon (tws_phase p) (tws_open p) tws_close_port (tws_read_version_info p)
       junk start envs l = Some e \<and> (case e of Shutdown d \<Rightarrow> d_failures d < 5 | _ \<Rightarrow> True)) \<and>
   (\<exists>e. run_daemon (gf_phase p) (gf_open p) gf_close_port (gf_read_version_info p)
       junk start envs l = Some e \<and> (case e of Shutdown d \<Rightarrow> d_failures d < 5 | _ \<Rightarrow> True))"
  by (intro conjI run_daemon_total scud_loop tws_loop gf_loop scud_version_total tws_version_total
      gf_version_total)

text \<open>What a round delivers: every client whose write succeeds gets one copy of the record.\<close>

definition deliveries ::
    "(int \<Rightarrow> write_outcome) \<Rightarrow> battery_status \<Rightarrow> int list \<Rightarrow> (int \<times> nat \<times> battery_status) list" where
  "deliveries w st cs = concat (map (\<lambda>c. case w c of Wrote n \<Rightarrow> [(c, n, st)] | _ \<Rightarrow> []) cs)"

text \<open>C9. A round of the SCUD daemon in which no client has closed its end: when the query fails,
  nothing is sent, the record and the clients stay as they are and the failure is counted; when it
  succeeds, every client gets at most one copy of a record, that record is this round's reply
  decoded into an empty record, nothing of an earlier round is in it, the clients whose write
  failed are dropped, and a new client is appended behind the others.\<close>

theorem scud_round:
  assumes "\<not> pipe_broken (re_write env) (d_clients d)"
  shows "\<exists>ok s l d'. scud_read_all p zero_status (d_link d) = Some (ok, s, l) \<and>
    daemon_round (scud_phase p) (scud_open p) scud_close_port env d = Some (Running d') \<and>
    d_status d' = (if ok then s else d_status d) \<and>
    d_sent d' = d_sent d @ (if ok then deliveries (re_write env) s (d_clients d) else []) \<and>
    d_clients d' = (if ok then filter (\<lambda>c. re_write env c \<noteq> WriteFails) (d_clients d) else d_clients d) @
      (if re_select env > 0 \<and> re_accept env \<ge> 0 then [re_accept env] else []) \<and>
    (ok \<longrightarrow> d_failures d' = 0)"
proof -
  obtain ok s l where r: "scud_read_all p zero_status (d_link d) = Some (ok, s, l)"
    using scud.snapshot_total by blast
  then have ph: "scud_phase p (d_status d) (d_link d) =
      Some (ok, ok, if ok then s else d_status d, l)"
    by (simp add: scud_phase_def snapshot_phase_def)
  show ?thesis
    using daemon_round_eq [of "scud_phase p" d, OF ph, of "scud_open p" scud_close_port env] r assms
    by (intro exI [of _ ok] exI [of _ s] exI [of _ l]) (cases ok;
      simp add: round_simps broadcast_alive deliveries_def)
qed

definition quiet_env :: round_env where
  "quiet_env = \<lparr>re_write = (\<lambda>c. if c = 7 then WriteFails else Wrote 126), re_select = 1,
     re_accept = 9, re_select_us = 10000\<rparr>"

definition demo_daemon :: "link \<Rightarrow> daemon" where
  "demo_daemon l = (initial_daemon l)\<lparr>d_clients := [5, 7]\<rparr>"

theorem scud_round_witness:
  "\<exists>ok s l d'. scud_read_all demo_scud zero_status (d_link (demo_daemon (byte_line [1]))) = Some (ok, s, l) \<and>
    daemon_round (scud_phase demo_scud) (scud_open demo_scud) scud_close_port quiet_env
      (demo_daemon (byte_line [1])) = Some (Running d') \<and>
    d_status d' = (if ok then s else d_status (demo_daemon (byte_line [1]))) \<and>
    d_sent d' = d_sent (demo_daemon (byte_line [1])) @
      (if ok then deliveries (re_write quiet_env) s (d_clients (demo_daemon (byte_line [1]))) else []) \<and>
    d_clients d' = (if ok then filter (\<lambda>c. re_write quiet_env c \<noteq> WriteFails)
        (d_clients (demo_daemon (byte_line [1]))) else d_clients (demo_daemon (byte_line [1]))) @
      (if re_select quiet_env > 0 \<and> re_accept quiet_env \<ge> 0 then [re_accept quiet_env] else []) \<and>
    (ok \<longrightarrow> d_failures d' = 0)"
  by (rule scud_round)
    (simp add: quiet_env_def demo_daemon_def initial_daemon_def pipe_broken_def)

text \<open>What a round of the SCUD daemon may send: when the reading of its own link succeeds, the record
  read, to clients it serves; when it fails, nothing.\<close>

definition sends_this_reading ::
    "scud_protocol \<Rightarrow> daemon \<Rightarrow> (int \<times> nat \<times> battery_status) list \<Rightarrow> bool" where
  "sends_this_reading p d new \<longleftrightarrow>
     (case scud_read_all p zero_status (d_link d) of
        Some (True, s, l) \<Rightarrow> list_all (\<lambda>(c, n, st). st = s \<and> c \<in> set (d_clients d)) new
      | _ \<Rightarrow> new = [])"

lemma scud_sends_own: "sends_own_record (scud_phase p) d new \<Longrightarrow> sends_this_reading p d new"
  by (cases "scud_read_all p zero_status (d_link d)"; cases new)
    (auto simp: sends_own_record_def sends_this_reading_def scud_phase_def snapshot_phase_def
      list_all_iff split: bool.split)

lemma scud_rounds_trace:
  assumes "daemon_rounds (scud_phase p) (scud_open p) scud_close_port envs d = Some r"
  shows "\<exists>news. d_sent (outcome_state r) = d_sent d @ concat news \<and>
    list_all2 (sends_this_reading p)
      (round_starts (scud_phase p) (scud_open p) scud_close_port envs d) news"
  using scud_d.rounds_trace [OF assms] scud_sends_own by (blast intro: list_all2_mono)

text \<open>Every record a SCUD daemon wrote is the successful reading of the link of one of its rounds.\<close>

lemma scud_sent_was_read:
  assumes "daemon_rounds (scud_phase p) (scud_open p) scud_close_port envs d = Some r"
    and "d_sent d = []" "(c, n, st) \<in> set (d_sent (outcome_state r))"
  shows "\<exists>dk \<in> set (round_starts (scud_phase p) (scud_open p) scud_close_port envs d).
    \<exists>l. scud_read_all p zero_status (d_link dk) = Some (True, st, l) \<and> c \<in> set (d_clients dk)"
proof -
  obtain news where news: "d_sent (outcome_state r) = concat news"
    "list_all2 (sends_this_reading p)
      (round_starts (scud_phase p) (scud_open p) scud_close_port envs d) news"
    using scud_rounds_trace [OF assms(1)] assms(2) by auto
  with assms(3) obtain dk new where "dk \<in> set (round_starts (scud_phase p) (scud_open p) scud_close_port envs d)"
    "sends_this_reading p dk new" "(c, n, st) \<in> set new"
    by (auto simp: list_all2_conv_all_nth in_set_conv_nth) (metis nth_mem)
  then show ?thesis
    by (intro bexI [of _ dk])
      (auto simp: sends_this_reading_def list_all_iff split: option.splits prod.splits bool.splits)
qed

text \<open>C8. Whatever the line and the outside do, the records a SCUD daemon writes fall into one group
  for each round it runs, in the order of the rounds: when \<open>read_all\<close> on the link as that round
  finds it succeeds, every record of the group is exactly the record this call decoded, and is
  written to a client the round began with; when it fails the group is empty. No record is carried
  over from an earlier round and no record mixes two rounds.\<close>

theorem scud_daemon_never_mixes_rounds:
  "\<exists>r news. daemon_rounds (scud_phase p) (scud_open p) scud_close_port envs (initial_daemon l) = Some r \<and>
     d_sent (outcome_state r) = concat news \<and>
     list_all2
       (\<lambda>d new. case scud_read_all p zero_status (d_link d) of
            Some (True, s, l) \<Rightarrow> list_all (\<lambda>(c, n, st). st = s \<and> c \<in> set (d_clients d)) new
          | _ \<Rightarrow> new = [])
       (round_starts (scud_phase p) (scud_open p) scud_close_port envs (initial_daemon l)) news"
proof -
  obtain r where r: "daemon_rounds (scud_phase p) (scud_open p) scud_close_port envs (initial_daemon l) = Some r"
    using scud_d.rounds_total by blast
  from scud_rounds_trace [OF r] obtain news where
    "d_sent (outcome_state r) = concat news"
    "list_all2 (sends_this_reading p)
      (round_starts (scud_phase p) (scud_open p) scud_close_port envs (initial_daemon l)) news"
    by (auto simp: initial_daemon_def)
  with r show ?thesis unfolding sends_this_reading_def by blast
qed

text \<open>C15. The carry-forward loop of TWS and GF: each round reads the three groups as if into an
  empty record, and merges exactly the groups whose read succeeded into the record of the earlier
  rounds, keeping the others. The backfill of the cell extremes after a failed basic read, meant
  for a protocol that now publishes snapshots, has no effect.\<close>

theorem legacy_round_merges:
  "(\<exists>okb b l1 okc c l2 oki i l3.
      tws_read_basic_info p zero_status l = Some (okb, b, l1) \<and>
      tws_read_capacity_info p zero_status (usleep 50000 l1) = Some (okc, c, l2) \<and>
      tws_read_io_state p zero_status l2 = Some (oki, i, l3) \<and>
      tws_phase p st l = Some (okb \<or> okc \<or> oki, oki,
        (if oki then copy_io i else id) ((if okc then copy_capacity c else id)
          ((if okb then copy_basic b else id) st)), l3)) \<and>
   (\<exists>okb b l1 okc c l2.
      gf_read_basic_info p zero_status l = Some (okb, b, l1) \<and>
      gf_read_capacity_info p zero_status (usleep 50000 l1) = Some (okc, c, l2) \<and>
      gf_phase p st l = Some (okb \<or> okc, False,
        (if okc then copy_capacity c else id) ((if okb then copy_basic b else id) st), l2))"
proof
  obtain okb b l1 where 1: "tws_read_basic_info p zero_status l = Some (okb, b, l1)"
    using tws.basic.read_total by blast
  obtain okc c l2 where 2: "tws_read_capacity_info p zero_status (usleep 50000 l1) = Some (okc, c, l2)"
    using tws.cap.read_total by blast
  obtain oki i l3 where 3: "tws_read_io_state p zero_status l2 = Some (oki, i, l3)"
    using tws.io.read_total by blast
  have "tws_phase p st l = Some (okb \<or> okc \<or> oki, oki,
        (if oki then copy_io i else id) ((if okc then copy_capacity c else id)
          ((if okb then copy_basic b else id) st)), l3)"
    unfolding tws_phase_def
    by (rule fieldwise_protocol.legacy_phase_eq [OF tws.fieldwise_protocol_axioms 1 2 3])
  with 1 2 3 show "\<exists>okb b l1 okc c l2 oki i l3.
      tws_read_basic_info p zero_status l = Some (okb, b, l1) \<and>
      tws_read_capacity_info p zero_status (usleep 50000 l1) = Some (okc, c, l2) \<and>
      tws_read_io_state p zero_status l2 = Some (oki, i, l3) \<and>
      tws_phase p st l = Some (okb \<or> okc \<or> oki, oki,
        (if oki then copy_io i else id) ((if okc then copy_capacity c else id)
          ((if okb then copy_basic b else id) st)), l3)" by blast
next
  obtain okb b l1 where 1: "gf_read_basic_info p zero_status l = Some (okb, b, l1)"
    using gf.basic.read_total by blast
  obtain okc c l2 where 2: "gf_read_capacity_info p zero_status (usleep 50000 l1) = Some (okc, c, l2)"
    using gf.cap.read_total by blast
  have 3: "gf_read_io_state zero_status l2 = Some (False, zero_status, l2)"
    by (simp add: gf_read_io_state_def)
  have "gf_phase p st l = Some (okb \<or> okc, False,
        (if okc then copy_capacity c else id) ((if okb then copy_basic b else id) st), l2)"
    unfolding gf_phase_def
    using fieldwise_protocol.legacy_phase_eq [OF gf.fieldwise_protocol_axioms 1 2 3, of st] by simp
  with 1 2 show "\<exists>okb b l1 okc c l2.
      gf_read_basic_info p zero_status l = Some (okb, b, l1) \<and>
      gf_read_capacity_info p zero_status (usleep 50000 l1) = Some (okc, c, l2) \<and>
      gf_phase p st l = Some (okb \<or> okc, False,
        (if okc then copy_capacity c else id) ((if okb then copy_basic b else id) st), l2)" by blast
qed

lemma legacy_phases_keep_cycles:
  "phase_keeps (tws_phase p) (\<lambda>s. cycles s = 0) (\<lambda>s. cycles s = 0)"
  "phase_keeps (gf_phase p) (\<lambda>s. cycles s = 0) (\<lambda>s. cycles s = 0)"
  unfolding phase_keeps_def tws_phase_def gf_phase_def
  using fieldwise_protocol.legacy_cycles [OF tws.fieldwise_protocol_axioms]
    fieldwise_protocol.legacy_cycles [OF gf.fieldwise_protocol_axioms] by blast+

text \<open>C39. A TWS or GF daemon broadcasts a cycle count of zero for ever, whatever the pack replies and
  the clients do: the count is read at startup only, for the console, and the merge copies it from a
  record in which no reader of the loop sets it. So \<open>get_cycles\<close> of a client is zero for a pack of any
  age.\<close>

theorem legacy_daemons_send_no_cycles:
  "(\<exists>r. daemon_rounds (tws_phase p) (tws_open p) tws_close_port envs (initial_daemon l) = Some r \<and>
      list_all (\<lambda>(c, n, s). cycles s = 0) (d_sent (outcome_state r))) \<and>
   (\<exists>r. daemon_rounds (gf_phase p) (gf_open p) gf_close_port envs (initial_daemon l) = Some r \<and>
      list_all (\<lambda>(c, n, s). cycles s = 0) (d_sent (outcome_state r)))"
proof -
  obtain r1 where r1: "daemon_rounds (tws_phase p) (tws_open p) tws_close_port envs (initial_daemon l) = Some r1"
    using tws_d.rounds_total by blast
  obtain r2 where r2: "daemon_rounds (gf_phase p) (gf_open p) gf_close_port envs (initial_daemon l) = Some r2"
    using gf_d.rounds_total by blast
  have start: "cycles (d_status (initial_daemon l)) = 0"
    "\<forall>(c, n, s) \<in> set (d_sent (initial_daemon l)). cycles s = 0"
    by (simp_all add: initial_daemon_def zero_status_def)
  have "list_all (\<lambda>(c, n, s). cycles s = 0) (d_sent (outcome_state r1))"
    "list_all (\<lambda>(c, n, s). cycles s = 0) (d_sent (outcome_state r2))"
    unfolding list_all_iff
    by (rule tws_d.rounds_sent [OF legacy_phases_keep_cycles(1) r1 start],
      rule gf_d.rounds_sent [OF legacy_phases_keep_cycles(2) r2 start])
  with r1 r2 show ?thesis by blast
qed

text \<open>C10. Recovery: as long as no round reads anything, be it that the port is closed or that it is
  open and dead, a daemon of any of the three protocols closes the port and opens it anew after
  every five failed rounds. If the attempts fail as in \<open>fails\<close> and the next one succeeds, then after
  \<open>5 (length fails + 1)\<close> rounds, less those already failed, it works on the descriptor of that
  attempt, no other attempt was made, the failures are counted from zero and nothing was sent.\<close>

theorem daemon_reopens_port:
  assumes "list_all (\<lambda>d. 0 \<le> fd (d_link d) \<longrightarrow> \<not> read_succeeds (phase (d_status d) (d_link d)))
      (round_starts phase op cl envs d)"
    and "(phase, op, cl) \<in> {(scud_phase ps, scud_open ps, scud_close_port),
      (tws_phase p, tws_open p, tws_close_port), (gf_phase p, gf_open p, gf_close_port)}"
    and "d_failures d < 5"
    and "opens (d_link d) = fails @ Opens n # rest" "list_all (\<lambda>e. \<not> open_succeeds e) fails"
    and "length envs = 5 * (length fails + 1) - d_failures d"
  shows "\<exists>d'. daemon_rounds phase op cl envs d = Some (Running d') \<and> fd (d_link d') = int n \<and>
    opens (d_link d') = rest \<and> d_failures d' = 0 \<and> d_status d' = d_status d \<and> d_sent d' = d_sent d"
proof -
  have "daemon_loop phase op cl" using assms(2) scud_loop tws_loop gf_loop by auto
  moreover have "list_all (read_lost phase) (round_starts phase op cl envs d)"
    using assms(1) by (simp add: read_lost_def list_all_iff)
  ultimately show ?thesis using daemon_loop.reopen_liveness assms(3-6) by blast
qed

text \<open>A port that is open and silent, after four failed rounds: the next round opens it anew.\<close>

definition dead_port :: daemon where
  "dead_port = (demo_daemon ((byte_line [])\<lparr>opens := [Opens 4]\<rparr>))\<lparr>d_failures := 4\<rparr>"

lemma dead_port_lost:
  "\<not> read_succeeds (scud_phase demo_scud (d_status dead_port) (d_link dead_port))"
proof -
  have "coming (d_link dead_port) = []"
    by (simp add: dead_port_def demo_daemon_def initial_daemon_def coming_def)
  from scud_query_silent [OF this, of demo_scud] show ?thesis
    by (auto simp: read_succeeds_def scud_phase_def snapshot_phase_def scud_read_all_def)
qed

theorem daemon_reopens_port_witness:
  "fd (d_link dead_port) = 3 \<and>
   (\<exists>d'. daemon_rounds (scud_phase demo_scud) (scud_open demo_scud) scud_close_port [quiet_env] dead_port =
        Some (Running d') \<and> fd (d_link d') = int 4 \<and> opens (d_link d') = [] \<and> d_failures d' = 0 \<and>
      d_status d' = d_status dead_port \<and> d_sent d' = d_sent dead_port)"
proof
  show "fd (d_link dead_port) = 3" by (simp add: dead_port_def demo_daemon_def initial_daemon_def)
  show "\<exists>d'. daemon_rounds (scud_phase demo_scud) (scud_open demo_scud) scud_close_port [quiet_env] dead_port =
        Some (Running d') \<and> fd (d_link d') = int 4 \<and> opens (d_link d') = [] \<and> d_failures d' = 0 \<and>
      d_status d' = d_status dead_port \<and> d_sent d' = d_sent dead_port"
    by (rule daemon_reopens_port [where fails = "[]" and ps = demo_scud and p = demo_protocol])
      (use dead_port_lost in \<open>auto simp: dead_port_def demo_daemon_def initial_daemon_def
        split: option.split outcome.split\<close>)
qed

definition killed :: "outcome option \<Rightarrow> bool" where
  "killed r = (case r of Some (Killed d) \<Rightarrow> True | _ \<Rightarrow> False)"

lemma killed_iff:
  assumes "daemon_loop phase op cl"
  shows "killed (daemon_round phase op cl env d) \<longleftrightarrow>
    read_succeeds (phase (d_status d) (d_link d)) \<and> pipe_broken (re_write env) (d_clients d)"
  using daemon_loop.round_killed [OF assms, of env d]
  by (auto simp: killed_def read_succeeds_def split: option.splits outcome.splits prod.splits)

text \<open>C17. A round ends the daemon exactly when its read succeeds and one of the clients has closed
  its end: the write raises a signal the daemon does not handle. This holds for all three
  protocols.\<close>

theorem broken_pipe_kills_daemon:
  "(killed (daemon_round (scud_phase ps) (scud_open ps) scud_close_port env d) \<longleftrightarrow>
      read_succeeds (scud_phase ps (d_status d) (d_link d)) \<and>
      pipe_broken (re_write env) (d_clients d)) \<and>
   (killed (daemon_round (tws_phase p) (tws_open p) tws_close_port env d) \<longleftrightarrow>
      read_succeeds (tws_phase p (d_status d) (d_link d)) \<and>
      pipe_broken (re_write env) (d_clients d)) \<and>
   (killed (daemon_round (gf_phase p) (gf_open p) gf_close_port env d) \<longleftrightarrow>
      read_succeeds (gf_phase p (d_status d) (d_link d)) \<and>
      pipe_broken (re_write env) (d_clients d))"
  by (intro conjI killed_iff scud_loop tws_loop gf_loop)

end
