(* ===== verification/Record_Types.thy ===== *)
theory Record_Types
  imports Daemon Record_Layout
begin

text \<open>
  What the records of the daemon hold, whatever the line delivers: every double is a normal number
  or zero, so the 126 bytes of a record decode to the same values; the quantities without a sign
  are not negative; the power flag is 0 or 1; and the serial number, which no status reader fills,
  stays empty. Each reader and each phase keeps this type.
\<close>

section \<open>Well-formed records\<close>

definition unsigned_ok :: "double \<Rightarrow> bool" where
  "unsigned_ok x \<longleftrightarrow> double_ok x \<and> 0 \<le> x"

definition record_wf :: "battery_status \<Rightarrow> bool" where
  "record_wf s \<longleftrightarrow> double_ok (current s) \<and> double_ok (temperature s) \<and>
     list_all unsigned_ok [voltage s, percentage s, charge s, capacity s, design_capacity s,
       max_cell_voltage s, min_cell_voltage s] \<and>
     power_on s \<in> {0, 1} \<and> serial_number s = replicate 33 0"

lemma record_wf_ok: "record_wf s \<Longrightarrow> record_ok s"
  by (simp add: record_wf_def record_ok_def unsigned_ok_def)

lemma zero_record_wf: "record_wf zero_status"
  by (simp add: record_wf_def unsigned_ok_def zero_status_def double_ok_def)

section \<open>The quantities of the drivers\<close>

lemma sint_u32_less: "\<bar>sint (w :: u32)\<bar> < 2 ^ 53"
  using sint_ge [of w] sint_lt [of w] by simp

lemma sint_u16_less: "\<bar>sint (w :: u16)\<bar> < 2 ^ 53"
  using sint_ge [of w] sint_lt [of w] by simp

lemma unsigned_ok_scaled:
  assumes "0 \<le> n" "n < 2 ^ 53" "0 < k" "k \<le> 1000"
  shows "unsigned_ok (ddiv (of_int n) (of_int k))"
proof -
  have "\<bar>n\<bar> < 2 ^ 53" using assms(1,2) by simp
  moreover have "0 \<le> ddiv (of_int n) (of_int k)"
    unfolding ddiv_def using assms by (intro rnd_nonneg divide_nonneg_pos) simp_all
  ultimately show ?thesis using double_ok_scaled assms(3,4) by (simp add: unsigned_ok_def)
qed

lemma unsigned_ok_rnd:
  assumes "1 / 2 ^ 100 \<le> y" "y \<le> 2 ^ 100"
  shows "unsigned_ok (rnd 53 y)"
proof -
  have "0 \<le> y" by (rule order_trans [OF _ assms(1)]) simp
  with assms show ?thesis by (simp add: unsigned_ok_def double_ok_rnd rnd_nonneg)
qed

lemma unsigned_ok_words [simp]:
  "unsigned_ok (ddiv (of_int (uint (w :: u16))) 100)" "unsigned_ok (ddiv (of_int (uint w)) 1000)"
  "unsigned_ok (ddiv (of_int (uint (v :: u32))) 1000)"
proof -
  have "uint w < 2 ^ 53" by (rule less_le_trans [OF uint_u16_less]) simp
  then show "unsigned_ok (ddiv (of_int (uint w)) 100)" "unsigned_ok (ddiv (of_int (uint w)) 1000)"
    using unsigned_ok_scaled [of "uint w" 100] unsigned_ok_scaled [of "uint w" 1000] by simp_all
  have "uint v < 2 ^ 53" by (rule less_le_trans [OF uint_u32_less]) simp
  then show "unsigned_ok (ddiv (of_int (uint v)) 1000)"
    using unsigned_ok_scaled [of "uint v" 1000] by simp
qed

lemma double_ok_words [simp]:
  "double_ok (ddiv (of_int (sint (v :: u32))) 1000)" "double_ok (ddiv (of_int (sint (w :: u16))) 100)"
  "double_ok (of_int (sint w))" "double_ok (ddiv (- of_int (uint w)) 1000)"
proof -
  have "\<bar>- uint w\<bar> < 65536" using uint_u16_less [of w] uint_ge_0 [of w] by linarith
  then have "\<bar>- uint w\<bar> < 2 ^ 53" by (rule less_le_trans) simp
  then show "double_ok (ddiv (- of_int (uint w)) 1000)" using double_ok_scaled [of "- uint w" 1000] by simp
qed (use double_ok_scaled [OF sint_u32_less, of 1000 v] double_ok_scaled [OF sint_u16_less, of 100 w]
    double_ok_of_int [OF sint_u16_less] in simp_all)

lemma unsigned_ok_double [simp]: "unsigned_ok x \<Longrightarrow> double_ok x"
  by (simp add: unsigned_ok_def)

text \<open>Celsius from the shifted byte of the TWS pack, and from the tenths of kelvin of the GF pack.\<close>

lemma tws_temperature_ok [simp]: "double_ok (fsub (of_int (uint (w :: u16))) 40)"
proof -
  have "\<bar>uint w - 40\<bar> < 65536" using uint_u16_less [of w] uint_ge_0 [of w] by linarith
  then have "fsub (of_int (uint w)) 40 = of_int (uint w - 40)" "\<bar>uint w - 40\<bar> < 2 ^ 53"
    using fsub_of_int [of "uint w" 40] by simp_all
  then show ?thesis using double_ok_of_int by metis
qed

lemma gf_temperature_ok [simp]: "double_ok (dsub (of_int (uint (w :: u16))) (dlit (5463/20)))"
proof -
  have "\<bar>dlit (5463/20) - 5463/20\<bar> \<le> \<bar>5463/20\<bar> / (2 ^ 53 :: rat)"
    unfolding dlit_def by (rule rnd_error)
  also have "\<dots> \<le> 1/100" by simp
  finally have lit: "273 + 1/10 \<le> dlit (5463/20)" "dlit (5463/20) \<le> 274 - 1/10"
    unfolding abs_le_iff by linarith+
  have "uint w \<le> 273 \<or> 274 \<le> uint w" by linarith
  then have gap: "(of_int (uint w) :: rat) \<le> 273 \<or> 274 \<le> (of_int (uint w) :: rat)"
    by (metis of_int_le_iff of_int_numeral)
  have "uint w \<le> 65536" using uint_u16_less [of w] by linarith
  then have "(of_int (uint w) :: rat) \<le> of_int 65536" "(0 :: rat) \<le> of_int (uint w)"
    by (simp_all only: of_int_le_iff of_int_0_le_iff uint_ge_0)
  with lit gap have "1/10 \<le> \<bar>of_int (uint w) - dlit (5463/20)\<bar>"
    "\<bar>of_int (uint w) - dlit (5463/20)\<bar> \<le> 2 ^ 17" by (auto simp: abs_le_iff)
  then show ?thesis unfolding dsub_def by (intro double_ok_rnd) (auto intro: order_trans)
qed

text \<open>The capacity the TWS reader computes: a charge divided by a percentage that is not zero.\<close>

lemma tws_capacity_ok:
  fixes ch :: u32 and pc :: u16
  shows "unsigned_ok (ddiv (ddiv (of_int (uint ch)) 1000)
    (if ddiv (of_int (uint pc)) 100 > dlit (1/1000) then ddiv (of_int (uint pc)) 100 else 1))"
    (is "unsigned_ok (ddiv ?q ?d)")
proof -
  have one: "1 \<le> uint w" if "w \<noteq> 0" for w :: "'a::len word"
    using that uint_ge_0 [of w] by (metis antisym_conv3 int_one_le_iff_zero_less linorder_not_less uint_0_iff)
  have scaled: "1 / (2 * of_int k) \<le> ddiv (of_int n) (of_int k) \<and> ddiv (of_int n) (of_int k) \<le> 2 ^ 33"
    if "1 \<le> n" "n \<le> 2 ^ 32" "0 < k" for n k
  proof -
    have r: "1 \<le> (of_int n :: rat)" "(of_int n :: rat) \<le> 2 ^ 32" "1 \<le> (of_int k :: rat)"
      using that by (metis of_int_1 of_int_le_iff, metis of_int_le_iff of_int_numeral of_int_power,
        metis of_int_1 of_int_le_iff int_one_le_iff_zero_less)
    note b = ddiv_scaled_bounds [OF that(3), of n]
    have "of_int n - of_int n / 2 ^ 53 \<ge> (1/2 :: rat)" "of_int n + of_int n / 2 ^ 53 \<le> (2 ^ 33 :: rat)"
      using r by simp_all
    with b that have "1/2 \<le> ddiv (of_int n) (of_int k) * of_int k"
      "ddiv (of_int n) (of_int k) * of_int k \<le> 2 ^ 33" by linarith+
    moreover have "ddiv (of_int n) (of_int k) * 1 \<le> ddiv (of_int n) (of_int k) * of_int k"
      using r(3) that unfolding ddiv_def by (intro mult_left_mono rnd_nonneg) simp_all
    ultimately show ?thesis using r(3) by (simp add: field_simps)
  qed
  have d: "1/200 \<le> ?d \<and> ?d \<le> 2 ^ 33"
  proof (cases "pc = 0")
    case False
    have "uint pc \<le> 2 ^ 32" by (rule order_trans [OF less_imp_le [OF uint_u16_less]]) simp
    from scaled [OF one [OF False] this, of 100] percentage_guard [of pc] False show ?thesis by simp
  qed (simp add: dlit_def rnd_nonneg not_less)
  show ?thesis
  proof (cases "ch = 0")
    case True then show ?thesis by (simp add: unsigned_ok_def double_ok_def)
  next
    case False
    have "uint ch \<le> 2 ^ 32" by (rule order_trans [OF less_imp_le [OF uint_u32_less]]) simp
    from scaled [OF one [OF False] this, of 1000] have q: "1/2000 \<le> ?q" "?q \<le> 2 ^ 33" by simp_all
    have "?q / ?d \<le> 2 ^ 33 / (1/200)" "(1/2000) / 2 ^ 33 \<le> ?q / ?d"
      using q d by (intro frac_le; simp)+
    then have "1 / 2 ^ 100 \<le> ?q / ?d" "?q / ?d \<le> 2 ^ 100" by simp_all
    then show ?thesis unfolding ddiv_def [of ?q] by (rule unsigned_ok_rnd)
  qed
qed

section \<open>Every reader keeps the type\<close>

definition keeps_wf :: "reader \<Rightarrow> bool" where
  "keeps_wf read \<longleftrightarrow>
     (\<forall>st l ok st' l'. record_wf st \<longrightarrow> read st l = Some (ok, st', l') \<longrightarrow> record_wf st')"

lemma keeps_wfI:
  assumes shape: "\<And>st l. read st l = (case query l of (ok, buf, l') \<Rightarrow>
      if ok then map_option (\<lambda>s. (True, s, l')) (decode buf st) else Some (False, st, l'))"
    and query: "\<And>l buf l'. query l = (True, buf, l') \<Longrightarrow> length buf = n"
    and decode: "\<And>buf st s. length buf = n \<Longrightarrow> decode buf st = Some s \<Longrightarrow> record_wf st \<Longrightarrow> record_wf s"
  shows "keeps_wf read"
  unfolding keeps_wf_def
proof (intro allI impI)
  fix st l ok st' l' assume "record_wf st" "read st l = Some (ok, st', l')"
  then show "record_wf st'"
    using query [of l] decode by (auto simp: shape split: prod.splits if_splits)
qed

lemma tws_decode_basic_wf:
  assumes "length buf = 35" "tws_decode_basic buf st = Some s" "record_wf st"
  shows "record_wf s"
  using assms by (auto simp: tws_decode_basic_def decode_simps record_wf_def simp del: of_int_uint of_int_sint)

lemma tws_decode_capacity_wf:
  assumes "length buf = 13" "tws_decode_capacity buf st = Some s" "record_wf st"
  shows "record_wf s"
proof -
  obtain sh :: u16 and pc :: u16 and ch :: u32 where "s =
    (let pct = ddiv (of_int (uint pc)) 100; chg = ddiv (of_int (uint ch)) 1000
     in st\<lparr>percentage := pct, soh := sh, charge := chg,
       capacity := ddiv chg (if pct > dlit (1/1000) then pct else 1)\<rparr>)"
    using assms(1,2) by (auto simp: tws_decode_capacity_def decode_simps Let_def guarded_capacity
      simp del: of_int_uint of_int_sint if_split)
  with assms(3) tws_capacity_ok [of ch pc] show ?thesis
    by (simp add: record_wf_def Let_def del: of_int_uint if_split)
qed

lemma tws_decode_io_wf:
  assumes "length buf = 9" "tws_decode_io buf st = Some s" "record_wf st"
  shows "record_wf s"
  using assms by (auto simp: tws_decode_io_def decode_simps record_wf_def simp del: of_int_uint of_int_sint)

lemma gf_decode_basic_wf:
  assumes "length buf = 45" "gf_decode_basic buf st = Some s" "record_wf st"
  shows "record_wf s"
  using assms by (auto simp: gf_decode_basic_def decode_simps record_wf_def simp del: of_int_uint of_int_sint)

lemma gf_decode_capacity_wf:
  assumes "length buf = 33" "gf_decode_capacity buf st = Some s" "record_wf st"
  shows "record_wf s"
  using assms by (auto simp: gf_decode_capacity_def decode_simps record_wf_def simp del: of_int_uint of_int_sint)

lemma tws_readers_keep_wf:
  "keeps_wf (tws_read_basic_info p)" "keeps_wf (tws_read_capacity_info p)"
  "keeps_wf (tws_read_io_state p)"
  by (rule keeps_wfI [OF tws_reader_shapes(1)] keeps_wfI [OF tws_reader_shapes(2)]
        keeps_wfI [OF tws_reader_shapes(3)];
      auto dest: tws_read_response_length tws_decode_basic_wf tws_decode_capacity_wf tws_decode_io_wf)+

lemma gf_readers_keep_wf:
  "keeps_wf (gf_read_basic_info p)" "keeps_wf (gf_read_capacity_info p)" "keeps_wf gf_read_io_state"
  by (rule keeps_wfI [OF gf_reader_shapes(1)] keeps_wfI [OF gf_reader_shapes(2)];
      auto dest: tws_read_response_length gf_decode_basic_wf gf_decode_capacity_wf)+
    (simp add: keeps_wf_def gf_read_io_state_def)

section \<open>Every phase keeps the type\<close>

lemma copies_keep_wf:
  assumes "record_wf raw" "record_wf st"
  shows "record_wf (copy_basic raw st)" "record_wf (copy_capacity raw st)" "record_wf (copy_io raw st)"
  using assms by (auto simp: copy_defs record_wf_def)

context fieldwise_protocol
begin

lemma legacy_phase_wf:
  assumes "keeps_wf read_basic" "keeps_wf read_capacity" "keeps_wf read_io"
  shows "phase_keeps (legacy_phase read_basic read_capacity read_io) record_wf record_wf"
  unfolding phase_keeps_def
proof (intro allI impI)
  fix st l ok b st' l'
  assume st: "record_wf st"
    and ph: "legacy_phase read_basic read_capacity read_io st l = Some (ok, b, st', l')"
  obtain okb x l1 where 1: "read_basic zero_status l = Some (okb, x, l1)"
    using basic.read_total by blast
  obtain okc c l2 where 2: "read_capacity zero_status (usleep 50000 l1) = Some (okc, c, l2)"
    using cap.read_total by blast
  obtain oki i l3 where 3: "read_io zero_status l2 = Some (oki, i, l3)" using io.read_total by blast
  have "record_wf x" "record_wf c" "record_wf i"
    using 1 2 3 assms zero_record_wf unfolding keeps_wf_def by blast+
  with ph st show "record_wf st' \<and> (ok \<longrightarrow> record_wf st')"
    unfolding legacy_phase_eq [OF 1 2 3] by (auto simp: copies_keep_wf)
qed

end

section \<open>The snapshots of the SCUD pack\<close>

lemma scud_words_wf: "record_wf (scud_status_of_words w zero_status)"
  by (simp add: record_wf_def scud_status_of_words_def milli_def zero_status_def
      del: of_int_uint of_int_sint)

lemma backfill_wf: "record_wf st \<Longrightarrow> record_wf (backfill c st)"
  by (simp add: record_wf_def backfill_def Let_def case_prod_beta milli_def del: of_int_uint)

lemma scud_read_all_wf:
  assumes "scud_read_all p zero_status l = Some (True, st, l')"
  shows "record_wf st"
proof -
  obtain r l1 where q: "query_0x61 p l = (r, l1)" by (meson surj_pair)
  show ?thesis
  proof (cases r)
    case None
    with q assms show ?thesis by (simp add: scud_read_all_def)
  next
    case (Some d)
    with query_contract(1) [OF q] obtain w where w: "d = be_registers w" "length w = 14"
      using payload_words [of d 14] by auto
    from assms show ?thesis
      unfolding scud_read_all_words [OF q [unfolded Some w(1)] w(2)]
      by (auto split: if_splits prod.splits option.splits intro: backfill_wf scud_words_wf)
  qed
qed

lemma scud_phase_wf: "phase_keeps (scud_phase p) record_wf record_wf"
  unfolding phase_keeps_def
proof (intro allI impI)
  fix st l ok b st' l' assume "record_wf st" "scud_phase p st l = Some (ok, b, st', l')"
  then show "record_wf st' \<and> (ok \<longrightarrow> record_wf st')"
    by (cases "scud_read_all p zero_status l")
      (auto simp: scud_phase_def snapshot_phase_def split: if_splits dest: scud_read_all_wf)
qed

lemma phases_keep_wf:
  "phase_keeps (scud_phase ps) record_wf record_wf" "phase_keeps (tws_phase p) record_wf record_wf"
  "phase_keeps (gf_phase p) record_wf record_wf"
  by (rule scud_phase_wf)
    (simp_all add: tws_phase_def gf_phase_def tws_readers_keep_wf gf_readers_keep_wf
      fieldwise_protocol.legacy_phase_wf [OF tws.fieldwise_protocol_axioms]
      fieldwise_protocol.legacy_phase_wf [OF gf.fieldwise_protocol_axioms])

end
