(* ===== verification/Socket_Clients.thy ===== *)
theory Socket_Clients
  imports Record_Layout
begin

text \<open>
  The client drivers of the TWS and GF485 batteries, \<open>src/drivers/tws/tws_bms_driver.cpp\<close> and
  \<open>src/drivers/gf485/gf_bms_driver.cpp\<close>: one record per \<open>read\<close>, no freshness. Both classes carry
  their own copy of the reader loop; both are translated and shown to agree.
\<close>

record socket_client =
  sc_fd :: int
  sc_connected :: bool
  sc_cached :: bytes

definition new_socket_client :: socket_client where
  "new_socket_client = \<lparr>sc_fd = -1, sc_connected = False, sc_cached = replicate sizeof_status 0\<rparr>"

text \<open>\<open>poll\<close> returned at most 0, \<open>read\<close> failed, or \<open>read\<close> returned these bytes.\<close>

datatype poll_event = SockSilent | SockError | SockBytes bytes

section \<open>The TWS driver\<close>

definition tws_try_connect :: "int \<Rightarrow> socket_client \<Rightarrow> bool \<times> socket_client" where
  "tws_try_connect s c =
     (if 0 \<le> sc_fd c then (True, c)
      else if s < 0 then (False, c\<lparr>sc_fd := -1\<rparr>)
      else (True, c\<lparr>sc_fd := s, sc_connected := True\<rparr>))"

definition tws_disconnect :: "socket_client \<Rightarrow> socket_client" where
  "tws_disconnect c = c\<lparr>sc_fd := -1, sc_connected := False\<rparr>"

definition destroy_tws_client :: "socket_client \<Rightarrow> socket_client" where
  "destroy_tws_client c = tws_disconnect c"

text \<open>An iteration of \<open>reader_loop\<close>; \<open>read\<close> is asked for \<open>sizeof(wire)\<close> bytes.\<close>

definition tws_reader_iteration :: "int \<Rightarrow> poll_event \<Rightarrow> socket_client \<Rightarrow> socket_client" where
  "tws_reader_iteration s ev c =
     (let (ok, c) = tws_try_connect s c
      in if \<not> ok then c
         else (case ev of
             SockSilent \<Rightarrow> c
           | SockError \<Rightarrow> tws_disconnect c
           | SockBytes bs \<Rightarrow>
               (let w = take sizeof_status bs
                in if length w = sizeof_status then c\<lparr>sc_cached := w\<rparr> else tws_disconnect c)))"

definition tws_view :: "socket_client \<Rightarrow> bms_view" where
  "tws_view c =
     \<lparr>get_voltage = double_member 0 (sc_cached c), get_current = double_member 8 (sc_cached c),
      get_temperature = double_member 16 (sc_cached c),
      get_percentage = double_member 24 (sc_cached c), get_charge = double_member 32 (sc_cached c),
      get_capacity = double_member 40 (sc_cached c),
      get_design_capacity = double_member 48 (sc_cached c),
      get_protect_status = word_of_nat (member 56 4 (sc_cached c)),
      get_work_state = word_of_nat (member 60 2 (sc_cached c)),
      get_max_cell_voltage = double_member 62 (sc_cached c),
      get_min_cell_voltage = double_member 70 (sc_cached c),
      get_soh = word_of_nat (member 115 2 (sc_cached c)),
      get_cycles = word_of_nat (member 117 4 (sc_cached c)),
      get_io_state = word_of_nat (member 121 4 (sc_cached c)),
      is_power_on = ((word_of_nat (member 125 1 (sc_cached c)) :: u8) \<noteq> 0),
      is_connected = sc_connected c, get_data_age_ms = -1\<rparr>"

section \<open>The GF485 driver\<close>

type_synonym gf_client = socket_client

definition new_gf_client :: gf_client where
  "new_gf_client = \<lparr>sc_fd = -1, sc_connected = False, sc_cached = replicate sizeof_status 0\<rparr>"

definition gf_try_connect :: "int \<Rightarrow> socket_client \<Rightarrow> bool \<times> socket_client" where
  "gf_try_connect s c =
     (if 0 \<le> sc_fd c then (True, c)
      else if s < 0 then (False, c\<lparr>sc_fd := -1\<rparr>)
      else (True, c\<lparr>sc_fd := s, sc_connected := True\<rparr>))"

definition gf_disconnect :: "socket_client \<Rightarrow> socket_client" where
  "gf_disconnect c = c\<lparr>sc_fd := -1, sc_connected := False\<rparr>"

definition destroy_gf_client :: "gf_client \<Rightarrow> gf_client" where
  "destroy_gf_client c = gf_disconnect c"

definition gf_reader_iteration :: "int \<Rightarrow> poll_event \<Rightarrow> socket_client \<Rightarrow> socket_client" where
  "gf_reader_iteration s ev c =
     (let (ok, c) = gf_try_connect s c
      in if \<not> ok then c
         else (case ev of
             SockSilent \<Rightarrow> c
           | SockError \<Rightarrow> gf_disconnect c
           | SockBytes bs \<Rightarrow>
               (let w = take sizeof_status bs
                in if length w = sizeof_status then c\<lparr>sc_cached := w\<rparr> else gf_disconnect c)))"

text \<open>The class inherits \<open>get_io_state\<close> and \<open>is_power_on\<close> from \<open>BmsDriver\<close>.\<close>

definition gf_view :: "socket_client \<Rightarrow> bms_view" where
  "gf_view c =
     \<lparr>get_voltage = double_member 0 (sc_cached c), get_current = double_member 8 (sc_cached c),
      get_temperature = double_member 16 (sc_cached c),
      get_percentage = double_member 24 (sc_cached c), get_charge = double_member 32 (sc_cached c),
      get_capacity = double_member 40 (sc_cached c),
      get_design_capacity = double_member 48 (sc_cached c),
      get_protect_status = word_of_nat (member 56 4 (sc_cached c)),
      get_work_state = word_of_nat (member 60 2 (sc_cached c)),
      get_max_cell_voltage = double_member 62 (sc_cached c),
      get_min_cell_voltage = double_member 70 (sc_cached c),
      get_soh = word_of_nat (member 115 2 (sc_cached c)),
      get_cycles = word_of_nat (member 117 4 (sc_cached c)),
      get_io_state = 0, is_power_on = False,
      is_connected = sc_connected c, get_data_age_ms = -1\<rparr>"

section \<open>Runs of the reader\<close>

text \<open>Iterations of the reader, each with the outcome of a connection attempt and of the socket.\<close>

definition tws_run :: "(int \<times> poll_event) list \<Rightarrow> socket_client \<Rightarrow> socket_client" where
  "tws_run evs c = fold (\<lambda>(s, ev). tws_reader_iteration s ev) evs c"

definition gf_run :: "(int \<times> poll_event) list \<Rightarrow> socket_client \<Rightarrow> socket_client" where
  "gf_run evs c = fold (\<lambda>(s, ev). gf_reader_iteration s ev) evs c"

lemma gf_reader_eq: "gf_reader_iteration = tws_reader_iteration"
proof -
  have "gf_try_connect = tws_try_connect" "gf_disconnect = tws_disconnect"
    by (auto simp: fun_eq_iff gf_try_connect_def tws_try_connect_def gf_disconnect_def tws_disconnect_def)
  then show ?thesis by (simp only: fun_eq_iff gf_reader_iteration_def tws_reader_iteration_def) simp
qed

lemma gf_run_eq: "gf_run = tws_run"
  by (intro ext) (simp add: gf_run_def tws_run_def gf_reader_eq)

text \<open>A driver starts and ends unconnected.\<close>

lemma client_lifetime:
  "new_gf_client = new_socket_client" "\<not> sc_connected new_socket_client"
  "\<not> is_connected (tws_view (destroy_tws_client c))" "\<not> is_connected (gf_view (destroy_gf_client c))"
  by (simp_all add: new_gf_client_def new_socket_client_def destroy_tws_client_def tws_disconnect_def
      destroy_gf_client_def gf_disconnect_def tws_view_def gf_view_def)

text \<open>The flag says whether the socket is open, and the cache is always a whole record.\<close>

definition socket_inv :: "battery_status set \<Rightarrow> socket_client \<Rightarrow> bool" where
  "socket_inv S c \<longleftrightarrow> sc_connected c = (0 \<le> sc_fd c) \<and> sc_cached c \<in> encode_status ` S"

text \<open>What one \<open>read\<close> of the socket may yield: a whole record of \<open>S\<close>, or fewer bytes of any
  kind.\<close>

definition read_of :: "battery_status set \<Rightarrow> poll_event \<Rightarrow> bool" where
  "read_of S ev =
     (case ev of SockBytes bs \<Rightarrow> length bs < sizeof_status \<or> bs \<in> encode_status ` S | _ \<Rightarrow> True)"

lemma socket_inv_step:
  assumes "socket_inv S c" "read_of S ev" "\<forall>s \<in> S. record_ok s"
  shows "socket_inv S (tws_reader_iteration s ev c)"
proof -
  have "length bs = sizeof_status" if "bs \<in> encode_status ` S" for bs
    using that assms(3) by (auto simp: record_ok_def)
  with assms(1,2) show ?thesis
    by (auto simp: tws_reader_iteration_def tws_try_connect_def tws_disconnect_def socket_inv_def
        read_of_def Let_def split: poll_event.splits)
qed

lemma socket_inv_run:
  assumes "\<forall>s \<in> S. record_ok s" "socket_inv S c" "\<forall>x \<in> set evs. read_of S (snd x)"
  shows "socket_inv S (tws_run evs c)"
  using assms(2,3) unfolding tws_run_def
proof (induction evs arbitrary: c)
  case (Cons e evs)
  then show ?case using socket_inv_step [OF _ _ assms(1)] by (cases e) simp
qed simp

lemma socket_views_encoded:
  assumes "record_ok st" "sc_cached c = encode_status st"
  shows "tws_view c = view_of_status st (power_on st \<noteq> 0) (sc_connected c) (-1)"
    "gf_view c = (view_of_status st False (sc_connected c) (-1))\<lparr>get_io_state := 0\<rparr>"
proof -
  have "length (serial_number st) = 33" using assms(1) by (simp add: record_ok_def)
  then show "tws_view c = view_of_status st (power_on st \<noteq> 0) (sc_connected c) (-1)"
    "gf_view c = (view_of_status st False (sc_connected c) (-1))\<lparr>get_io_state := 0\<rparr>"
    by (simp_all add: tws_view_def gf_view_def view_of_status_def assms(2)
        encode_double_members [OF assms(1)] encode_word_members
        encode_word_members(6) [unfolded One_nat_def])
qed

text \<open>After any run of the reader of a TWS or GF485 driver, with connections lost and made
  again, torn reads and silence, the getters all show one record: one that a single \<open>read\<close>
  delivered whole, or the zero record of the constructor. A torn read never shows. The drivers
  differ in that the GF485 driver always reports an IO state of 0 and the power off.\<close>

theorem socket_client_shows_one_record:
  assumes "list_all record_ok sts" "list_all (\<lambda>(s, ev). read_of (set sts) ev) evs"
  shows "\<exists>st \<in> set (zero_status # sts).
    tws_view (tws_run evs new_socket_client) =
      view_of_status st (power_on st \<noteq> 0) (0 \<le> sc_fd (tws_run evs new_socket_client)) (-1) \<and>
    gf_view (gf_run evs new_socket_client) =
      (view_of_status st False (0 \<le> sc_fd (gf_run evs new_socket_client)) (-1))\<lparr>get_io_state := 0\<rparr>"
proof -
  let ?S = "set (zero_status # sts)"
  have ok: "\<forall>s \<in> ?S. record_ok s" using assms(1) zero_record_ok by (simp add: list_all_iff)
  have "socket_inv ?S new_socket_client"
    by (auto simp: socket_inv_def new_socket_client_def encode_zero_status)
  moreover have "\<forall>x \<in> set evs. read_of ?S (snd x)"
    using assms(2) by (fastforce simp: list_all_iff read_of_def split: poll_event.splits)
  ultimately have "socket_inv ?S (tws_run evs new_socket_client)"
    by (intro socket_inv_run [OF ok])
  then obtain st where st: "st \<in> ?S" "sc_cached (tws_run evs new_socket_client) = encode_status st"
    "sc_connected (tws_run evs new_socket_client) = (0 \<le> sc_fd (tws_run evs new_socket_client))"
    unfolding socket_inv_def by blast
  with ok have "record_ok st" by blast
  note views = socket_views_encoded [OF this st(2), unfolded st(3)]
  show ?thesis unfolding gf_run_eq using views by (intro bexI [OF _ st(1)]) simp
qed

definition demo_events :: "(int \<times> poll_event) list" where
  "demo_events = [(5, SockSilent), (5, SockBytes (replicate 126 0)), (5, SockBytes [1, 2])]"

theorem socket_client_shows_one_record_witness:
  "\<exists>st \<in> set (zero_status # [zero_status]).
    tws_view (tws_run demo_events new_socket_client) =
      view_of_status st (power_on st \<noteq> 0) (0 \<le> sc_fd (tws_run demo_events new_socket_client)) (-1) \<and>
    gf_view (gf_run demo_events new_socket_client) =
      (view_of_status st False (0 \<le> sc_fd (gf_run demo_events new_socket_client)) (-1))\<lparr>get_io_state := 0\<rparr>"
  by (rule socket_client_shows_one_record)
    (simp_all add: zero_record_ok demo_events_def read_of_def encode_zero_status)

text \<open>Silence never ends a connection of a TWS or GF485 driver: however long the daemon says
  nothing, the driver stays connected and shows the same values, with an age of -1 before and
  after. This is what the freshness of the SCUD driver changes.\<close>

theorem socket_clients_ignore_silence:
  assumes "0 \<le> sc_fd c"
  shows "tws_run (replicate n (s, SockSilent)) c = c \<and> gf_run (replicate n (s, SockSilent)) c = c"
proof -
  have "tws_reader_iteration s SockSilent c = c"
    using assms by (simp add: tws_reader_iteration_def tws_try_connect_def)
  then have "tws_run (replicate n (s, SockSilent)) c = c"
    unfolding tws_run_def by (induction n) simp_all
  then show ?thesis by (simp add: gf_run_eq)
qed

theorem socket_clients_ignore_silence_witness:
  "tws_run (replicate 10000 (4, SockSilent)) (new_socket_client\<lparr>sc_fd := 4, sc_connected := True\<rparr>) =
     new_socket_client\<lparr>sc_fd := 4, sc_connected := True\<rparr> \<and>
   gf_run (replicate 10000 (4, SockSilent)) (new_socket_client\<lparr>sc_fd := 4, sc_connected := True\<rparr>) =
     new_socket_client\<lparr>sc_fd := 4, sc_connected := True\<rparr>"
  by (rule socket_clients_ignore_silence) simp

end
