(* ===== verification/Legacy_Chain.thy ===== *)
theory Legacy_Chain
  imports Record_Types Socket_Clients
begin

text \<open>
  The chain of a TWS or GF485 battery, from the pack to the getters of a client. The daemon merges
  the three groups of a record over its rounds; after each round the record holds, field by field,
  the latest successful reading of each group (\<open>latest_record\<close>). The socket carries whole records;
  the client shows the last one it has read. The client, the daemon's writes and the socket between
  them are a step relation, and what the client holds is an invariant of it.
\<close>

section \<open>Where the fields of a record come from\<close>

text \<open>The record with the basic fields of \<open>b\<close>, the capacity fields of \<open>c\<close>, the IO fields of \<open>i\<close> and
  nothing else, written out.\<close>

definition assembled :: "battery_status \<Rightarrow> battery_status \<Rightarrow> battery_status \<Rightarrow> battery_status" where
  "assembled b c i =
     \<lparr>voltage = voltage b, current = current b, temperature = temperature b,
      percentage = percentage c, charge = charge c, capacity = capacity c,
      design_capacity = design_capacity c, protect_status = protect_status b,
      work_state = work_state b, max_cell_voltage = max_cell_voltage b,
      min_cell_voltage = min_cell_voltage b, serial_number = replicate 33 0, sw_version = 0,
      hw_version = 0, soh = soh c, cycles = cycles b, io_state = io_state i, power_on = power_on i\<rparr>"

text \<open>The three readings of a round that begins with the link \<open>l\<close>, each on the link the one before
  left, each if it succeeds. The code hands one record from read to read; what a read decodes does
  not depend on it (\<open>fieldwise_reader\<close>).\<close>

definition reading :: "(bool \<times> battery_status \<times> link) option \<Rightarrow> battery_status option" where
  "reading r = (case r of Some (True, s, l) \<Rightarrow> Some s | _ \<Rightarrow> None)"

fun link_after :: "(bool \<times> battery_status \<times> link) option \<Rightarrow> link \<Rightarrow> link" where
  "link_after (Some (ok, s, l')) l = l'"
| "link_after None l = l"

definition round_readings ::
    "reader \<Rightarrow> reader \<Rightarrow> reader \<Rightarrow> link \<Rightarrow> battery_status option list" where
  "round_readings rb rc ri l =
     (let basic = rb zero_status l;
          l = usleep 50000 (link_after basic l);
          cap = rc zero_status l;
          l = link_after cap l
      in [reading basic, reading cap, reading (ri zero_status l)])"

text \<open>The newest of a list of readings, the zero record when none succeeded.\<close>

fun newest :: "battery_status option list \<Rightarrow> battery_status" where
  "newest [] = zero_status"
| "newest (r # rs) =
     (if list_all (\<lambda>x. x = None) rs then (case r of None \<Rightarrow> zero_status | Some s \<Rightarrow> s) else newest rs)"

definition latest_record :: "reader \<Rightarrow> reader \<Rightarrow> reader \<Rightarrow> daemon list \<Rightarrow> battery_status" where
  "latest_record rb rc ri ds =
     (let rs = map (\<lambda>d. round_readings rb rc ri (d_link d)) ds
      in assembled (newest (map (\<lambda>r. r ! 0) rs)) (newest (map (\<lambda>r. r ! 1) rs)) (newest (map (\<lambda>r. r ! 2) rs)))"

lemma newest_snoc: "newest (rs @ [r]) = (case r of None \<Rightarrow> newest rs | Some s \<Rightarrow> s)"
  by (induction rs) (auto split: option.split)

lemma latest_record_Nil [simp]: "latest_record rb rc ri [] = zero_status"
  by (simp add: latest_record_def assembled_def zero_status_def)

context fieldwise_protocol
begin

text \<open>A round turns the latest record of the rounds before into the latest record after it.\<close>

lemma legacy_phase_latest:
  assumes "legacy_phase read_basic read_capacity read_io
      (latest_record read_basic read_capacity read_io ds) (d_link d) = Some (ok, b, st, l)"
  shows "st = latest_record read_basic read_capacity read_io (ds @ [d])"
proof -
  obtain okb x l1 where 1: "read_basic zero_status (d_link d) = Some (okb, x, l1)"
    using basic.read_total by blast
  obtain okc c l2 where 2: "read_capacity zero_status (usleep 50000 l1) = Some (okc, c, l2)"
    using cap.read_total by blast
  obtain oki i l3 where 3: "read_io zero_status l2 = Some (oki, i, l3)" using io.read_total by blast
  have r: "round_readings read_basic read_capacity read_io (d_link d) =
      [if okb then Some x else None, if okc then Some c else None, if oki then Some i else None]"
    by (simp add: round_readings_def 1 2 3 Let_def reading_def split: bool.split)
  show ?thesis
    using assms unfolding legacy_phase_eq [OF 1 2 3]
    by (cases okb; cases okc; cases oki)
      (simp_all add: latest_record_def Let_def r newest_snoc assembled_def copy_defs)
qed

lemma legacy_rounds_latest:
  assumes loop: "daemon_loop (legacy_phase read_basic read_capacity read_io) op cl"
    and start: "d_status d = zero_status"
    and k: "k < length (round_starts (legacy_phase read_basic read_capacity read_io) op cl envs d)"
  shows "d_status (round_starts (legacy_phase read_basic read_capacity read_io) op cl envs d ! k) =
    latest_record read_basic read_capacity read_io
      (take k (round_starts (legacy_phase read_basic read_capacity read_io) op cl envs d))"
  using k
proof (induction k)
  case 0
  then show ?case using daemon_loop.starts_first [OF loop, of envs d] start by auto
next
  case (Suc k)
  let ?ph = "legacy_phase read_basic read_capacity read_io"
  let ?ds = "round_starts ?ph op cl envs d"
  obtain ok b st l where ph: "?ph (d_status (?ds ! k)) (d_link (?ds ! k)) = Some (ok, b, st, l)"
    using legacy.phase_cases by blast
  with Suc have "st = latest_record read_basic read_capacity read_io (take k ?ds @ [?ds ! k])"
    by (intro legacy_phase_latest) simp_all
  with daemon_loop.starts_status [OF loop Suc.prems ph] Suc.prems show ?case
    by (simp add: take_Suc_conv_app_nth)
qed

text \<open>Every record sent is the latest record up to one of the rounds, in which a reading succeeded.\<close>

lemma legacy_sent_latest:
  assumes loop: "daemon_loop (legacy_phase read_basic read_capacity read_io) op cl"
    and run: "daemon_rounds (legacy_phase read_basic read_capacity read_io) op cl envs d = Some r"
    and start: "d_status d = zero_status" "d_sent d = []"
    and sent: "(c, n, st) \<in> set (d_sent (outcome_state r))"
  shows "\<exists>k < length (round_starts (legacy_phase read_basic read_capacity read_io) op cl envs d).
    st = latest_record read_basic read_capacity read_io
      (take (Suc k) (round_starts (legacy_phase read_basic read_capacity read_io) op cl envs d))"
proof -
  let ?ph = "legacy_phase read_basic read_capacity read_io"
  let ?ds = "round_starts ?ph op cl envs d"
  obtain news where news: "d_sent (outcome_state r) = concat news"
    "list_all2 (sends_own_record ?ph) ?ds news"
    using daemon_loop.rounds_trace [OF loop run] start(2) by auto
  with sent obtain k where k: "k < length ?ds" "(c, n, st) \<in> set (news ! k)"
    by (auto simp: in_set_conv_nth list_all2_lengthD) (metis list_all2_lengthD nth_mem)
  with news(2) have "sends_own_record ?ph (?ds ! k) (news ! k)" by (simp add: list_all2_nthD)
  then obtain ok b st' l where ph: "?ph (d_status (?ds ! k)) (d_link (?ds ! k)) = Some (ok, b, st', l)"
    and "list_all (\<lambda>(c, n, s). ok \<and> s = st' \<and> c \<in> set (d_clients (?ds ! k))) (news ! k)"
    unfolding sends_own_record_def by blast
  with k(2) have "st = st'" by (auto simp: list_all_iff)
  with ph legacy_rounds_latest [OF loop start(1) k(1)] have
    "st = latest_record read_basic read_capacity read_io (take k ?ds @ [?ds ! k])"
    by (intro legacy_phase_latest) simp
  with k(1) show ?thesis by (auto simp: take_Suc_conv_app_nth)
qed

end

abbreviation tws_starts :: "protocol \<Rightarrow> round_env list \<Rightarrow> daemon \<Rightarrow> daemon list" where
  "tws_starts p \<equiv> round_starts (tws_phase p) (tws_open p) tws_close_port"

abbreviation gf_starts :: "protocol \<Rightarrow> round_env list \<Rightarrow> daemon \<Rightarrow> daemon list" where
  "gf_starts p \<equiv> round_starts (gf_phase p) (gf_open p) gf_close_port"

abbreviation tws_latest :: "protocol \<Rightarrow> daemon list \<Rightarrow> battery_status" where
  "tws_latest p \<equiv> latest_record (tws_read_basic_info p) (tws_read_capacity_info p) (tws_read_io_state p)"

abbreviation gf_latest :: "protocol \<Rightarrow> daemon list \<Rightarrow> battery_status" where
  "gf_latest p \<equiv> latest_record (gf_read_basic_info p) (gf_read_capacity_info p) gf_read_io_state"

lemma tws_sent_latest:
  assumes "d_status d = zero_status" "d_sent d = []"
    and "daemon_rounds (tws_phase p) (tws_open p) tws_close_port envs d = Some r"
  shows "\<forall>(c, n, st) \<in> set (d_sent (outcome_state r)).
    (\<exists>k \<le> length (tws_starts p envs d). st = tws_latest p (take k (tws_starts p envs d))) \<and> record_wf st"
proof clarify
  fix c n st assume sent: "(c, n, st) \<in> set (d_sent (outcome_state r))"
  have "record_wf st"
    using tws_d.rounds_sent [OF phases_keep_wf(2) assms(3)] sent assms(1,2) zero_record_wf by auto
  moreover obtain k where "k < length (tws_starts p envs d)"
    "st = tws_latest p (take (Suc k) (tws_starts p envs d))"
    using fieldwise_protocol.legacy_sent_latest [OF tws.fieldwise_protocol_axioms
      tws_loop [of p, unfolded tws_phase_def] assms(3) [unfolded tws_phase_def] assms(1,2) sent]
    unfolding tws_phase_def by blast
  ultimately show "(\<exists>k \<le> length (tws_starts p envs d). st = tws_latest p (take k (tws_starts p envs d))) \<and> record_wf st"
    by (intro conjI exI [of _ "Suc k"]) simp_all
qed

lemma gf_sent_latest:
  assumes "d_status d = zero_status" "d_sent d = []"
    and "daemon_rounds (gf_phase p) (gf_open p) gf_close_port envs d = Some r"
  shows "\<forall>(c, n, st) \<in> set (d_sent (outcome_state r)).
    (\<exists>k \<le> length (gf_starts p envs d). st = gf_latest p (take k (gf_starts p envs d))) \<and> record_wf st"
proof clarify
  fix c n st assume sent: "(c, n, st) \<in> set (d_sent (outcome_state r))"
  have "record_wf st"
    using gf_d.rounds_sent [OF phases_keep_wf(3) assms(3)] sent assms(1,2) zero_record_wf by auto
  moreover obtain k where "k < length (gf_starts p envs d)"
    "st = gf_latest p (take (Suc k) (gf_starts p envs d))"
    using fieldwise_protocol.legacy_sent_latest [OF gf.fieldwise_protocol_axioms
      gf_loop [of p, unfolded gf_phase_def] assms(3) [unfolded gf_phase_def] assms(1,2) sent]
    unfolding gf_phase_def by blast
  ultimately show "(\<exists>k \<le> length (gf_starts p envs d). st = gf_latest p (take k (gf_starts p envs d))) \<and> record_wf st"
    by (intro conjI exI [of _ "Suc k"]) simp_all
qed

section \<open>The client, the socket and the daemon's writes\<close>

text \<open>\<open>so_queue\<close> holds the bytes the client has not read, \<open>so_log\<close> every write of a daemon to this
  client, over all its connections, newest last: the bytes taken and the record.\<close>

record socket_system =
  so_client :: socket_client
  so_queue :: bytes
  so_log :: "(nat \<times> battery_status) list"

definition start_socket :: socket_system where
  "start_socket = \<lparr>so_client = new_socket_client, so_queue = [], so_log = []\<rparr>"

text \<open>After an iteration of the reader: a closed socket has lost its bytes.\<close>

definition client_did :: "socket_client \<Rightarrow> socket_system \<Rightarrow> socket_system" where
  "client_did c s = (if 0 \<le> sc_fd c then s\<lparr>so_client := c\<rparr> else s\<lparr>so_client := c, so_queue := []\<rparr>)"

lemma client_did_log [simp]: "so_log (client_did c s) = so_log s"
  by (simp add: client_did_def)

text \<open>An iteration connects first, to the descriptor \<open>k\<close> if it succeeds. Then \<open>read\<close> is given what the
  queue holds, up to the size of a record; it fails, or finds the end, when the daemon has gone.\<close>

inductive socket_steps :: "socket_system \<Rightarrow> socket_system \<Rightarrow> bool" where
  daemon_sends: "0 \<le> sc_fd (so_client s) \<Longrightarrow> n \<le> sizeof_status \<Longrightarrow>
    socket_steps s (s\<lparr>so_queue := so_queue s @ take n (encode_status st), so_log := so_log s @ [(n, st)]\<rparr>)"
| client_reads: "0 \<le> sc_fd (so_client s) \<Longrightarrow> so_queue s \<noteq> [] \<Longrightarrow>
    socket_steps s (client_did
      (tws_reader_iteration k (SockBytes (take sizeof_status (so_queue s))) (so_client s))
      (s\<lparr>so_queue := drop sizeof_status (so_queue s)\<rparr>))"
| client_waits: "socket_steps s (client_did (tws_reader_iteration k SockSilent (so_client s)) s)"
| connection_ends: "ev \<in> {SockError, SockBytes []} \<Longrightarrow>
    socket_steps s (client_did (tws_reader_iteration k ev (so_client s)) s)"

inductive socket_reachable :: "socket_system \<Rightarrow> bool" where
  socket_starts: "socket_reachable start_socket"
| socket_continues: "socket_reachable s \<Longrightarrow> socket_steps s s' \<Longrightarrow> socket_reachable s'"

section \<open>What the client holds\<close>

definition whole_writes :: "(nat \<times> battery_status) list \<Rightarrow> bool" where
  "whole_writes ws \<longleftrightarrow> list_all (\<lambda>(n, st). n = sizeof_status \<and> record_ok st) ws"

text \<open>The record shown is one of the log or the zero record, and the unread bytes are records of
  the log.\<close>

definition chain_inv :: "socket_system \<Rightarrow> bool" where
  "chain_inv s \<longleftrightarrow> socket_inv (insert zero_status (snd ` set (so_log s))) (so_client s) \<and>
     (\<exists>sts. set sts \<subseteq> snd ` set (so_log s) \<and> so_queue s = concat (map encode_status sts))"

lemma whole_writes_ok:
  assumes "whole_writes ws" "st \<in> insert zero_status (snd ` set ws)"
  shows "record_ok st"
  using assms zero_record_ok by (auto simp: whole_writes_def list_all_iff)

lemma socket_inv_mono: "socket_inv S c \<Longrightarrow> S \<subseteq> T \<Longrightarrow> socket_inv T c"
  by (auto simp: socket_inv_def)

lemma chain_inv_start: "chain_inv start_socket"
  by (simp add: chain_inv_def start_socket_def socket_inv_def new_socket_client_def encode_zero_status)

lemma chain_inv_iteration:
  assumes "chain_inv s" "whole_writes (so_log s)"
    and "read_of (insert zero_status (snd ` set (so_log s))) ev"
    and "\<exists>sts. set sts \<subseteq> snd ` set (so_log s) \<and> q = concat (map encode_status sts)"
  shows "chain_inv (client_did (tws_reader_iteration k ev (so_client s)) (s\<lparr>so_queue := q\<rparr>))"
proof -
  have "socket_inv (insert zero_status (snd ` set (so_log s))) (tws_reader_iteration k ev (so_client s))"
    using assms whole_writes_ok by (intro socket_inv_step) (auto simp: chain_inv_def)
  with assms(4) show ?thesis by (auto simp: chain_inv_def client_did_def intro: exI [of _ "[]"])
qed

lemma chain_inv_step:
  assumes "socket_steps s s'" "whole_writes (so_log s')" "chain_inv s"
  shows "chain_inv s'"
  using assms
proof (induction rule: socket_steps.induct)
  case (daemon_sends s n st)
  then obtain sts where sts: "set sts \<subseteq> snd ` set (so_log s)" "so_queue s = concat (map encode_status sts)"
    and inv: "socket_inv (insert zero_status (snd ` set (so_log s))) (so_client s)"
    by (auto simp: chain_inv_def)
  from daemon_sends(3) have "n = sizeof_status" "record_ok st" by (simp_all add: whole_writes_def)
  then have "take n (encode_status st) = encode_status st" by (simp add: record_ok_def)
  with sts inv show ?case
    by (auto simp: chain_inv_def intro: socket_inv_mono intro!: exI [of _ "sts @ [st]"])
next
  case (client_reads s k)
  then obtain sts where sts: "set sts \<subseteq> snd ` set (so_log s)" "so_queue s = concat (map encode_status sts)"
    by (auto simp: chain_inv_def)
  with client_reads(2) obtain st rest where st: "sts = st # rest" by (cases sts) auto
  have w: "whole_writes (so_log s)" using client_reads(3) by simp
  with sts(1) st have "length (encode_status st) = sizeof_status"
    using whole_writes_ok [OF w, of st] by (simp add: record_ok_def)
  then have q: "take sizeof_status (so_queue s) = encode_status st"
    "drop sizeof_status (so_queue s) = concat (map encode_status rest)" by (simp_all add: sts st)
  from sts st show ?case unfolding q
    by (intro chain_inv_iteration [OF client_reads(4) w]) (auto simp: read_of_def)
next
  case (client_waits s k)
  then show ?case
    using chain_inv_iteration [of s SockSilent "so_queue s" k]
    by (auto simp: client_did_def read_of_def chain_inv_def split: if_splits)
next
  case (connection_ends ev s k)
  then show ?case
    using chain_inv_iteration [of s ev "so_queue s" k]
    by (auto simp: client_did_def read_of_def chain_inv_def split: if_splits)
qed

lemma whole_writes_earlier:
  "socket_steps s s' \<Longrightarrow> whole_writes (so_log s') \<Longrightarrow> whole_writes (so_log s)"
  by (induction rule: socket_steps.induct) (auto simp: whole_writes_def)

lemma reachable_chain_inv:
  "socket_reachable s \<Longrightarrow> whole_writes (so_log s) \<Longrightarrow> chain_inv s"
  by (induction rule: socket_reachable.induct)
    (auto intro: chain_inv_start chain_inv_step whole_writes_earlier)

lemma chain_view:
  assumes "socket_reachable s" "whole_writes (so_log s)"
  obtains st where "st \<in> insert zero_status (snd ` set (so_log s))"
    "tws_view (so_client s) = view_of_status st (power_on st \<noteq> 0) (0 \<le> sc_fd (so_client s)) (-1)"
    "gf_view (so_client s) =
      (view_of_status st False (0 \<le> sc_fd (so_client s)) (-1))\<lparr>get_io_state := 0\<rparr>"
proof -
  from reachable_chain_inv [OF assms] obtain st where
    st: "st \<in> insert zero_status (snd ` set (so_log s))" "sc_cached (so_client s) = encode_status st"
    "sc_connected (so_client s) = (0 \<le> sc_fd (so_client s))"
    unfolding chain_inv_def socket_inv_def by blast
  note v = socket_views_encoded [OF whole_writes_ok [OF assms(2) st(1)] st(2), unfolded st(3)]
  from st(1) v show thesis by (rule that)
qed

section \<open>End to end\<close>

text \<open>The writes of a daemon's run to a client, as its log records them.\<close>

definition log_of_run :: "outcome \<Rightarrow> (nat \<times> battery_status) list" where
  "log_of_run r = map (\<lambda>(c, n, st). (n, st)) (d_sent (outcome_state r))"

text \<open>A chain in which the daemon runs, every write to the client is taken whole, and the client has
  been sent records of this run only.\<close>

definition legacy_chain :: "outcome option \<Rightarrow> socket_system \<Rightarrow> bool" where
  "legacy_chain run s \<longleftrightarrow> socket_reachable s \<and>
     (case run of None \<Rightarrow> False
      | Some r \<Rightarrow> list_all (\<lambda>(n, st). n = sizeof_status) (so_log s) \<and>
          set (so_log s) \<subseteq> set (log_of_run r))"

lemma legacy_chain_view:
  assumes chain: "legacy_chain (daemon_rounds ph op cl envs d) s"
    and sent: "\<And>r. daemon_rounds ph op cl envs d = Some r \<Longrightarrow>
      \<forall>(c, n, st) \<in> set (d_sent (outcome_state r)). P st \<and> record_wf st"
    and zero: "P zero_status"
  obtains st where "P st" "record_wf st"
    "tws_view (so_client s) = view_of_status st (power_on st \<noteq> 0) (0 \<le> sc_fd (so_client s)) (-1)"
    "gf_view (so_client s) =
      (view_of_status st False (0 \<le> sc_fd (so_client s)) (-1))\<lparr>get_io_state := 0\<rparr>"
proof -
  from chain obtain r where r: "daemon_rounds ph op cl envs d = Some r"
    and s: "socket_reachable s" "list_all (\<lambda>(n, st). n = sizeof_status) (so_log s)"
      "set (so_log s) \<subseteq> set (log_of_run r)"
    by (auto simp: legacy_chain_def split: option.splits)
  have good: "P st \<and> record_wf st" if "st \<in> insert zero_status (snd ` set (so_log s))" for st
    using that s(3) sent [OF r] zero zero_record_wf by (fastforce simp: log_of_run_def)
  have "whole_writes (so_log s)"
    unfolding whole_writes_def list_all_iff
  proof clarify
    fix n st assume mem: "(n, st) \<in> set (so_log s)"
    then have "st \<in> insert zero_status (snd ` set (so_log s))" by (intro insertI2) (rule image_eqI, simp_all)
    from good [OF this] have "record_ok st" by (blast intro: record_wf_ok)
    with mem s(2) show "n = sizeof_status \<and> record_ok st" by (auto simp: list_all_iff)
  qed
  from chain_view [OF s(1) this] obtain st where st:
    "st \<in> insert zero_status (snd ` set (so_log s))"
    and views:
      "tws_view (so_client s) = view_of_status st (power_on st \<noteq> 0) (0 \<le> sc_fd (so_client s)) (-1)"
      "gf_view (so_client s) =
        (view_of_status st False (0 \<le> sc_fd (so_client s)) (-1))\<lparr>get_io_state := 0\<rparr>" .
  from good [OF st] have "P st" "record_wf st" by blast+
  from this views show thesis by (rule that)
qed

text \<open>C3. End to end over the legacy chains, for every line to the pack, every schedule of rounds,
  reads, silence and lost connections: when the daemon's writes are taken whole, a TWS or GF485
  client always shows, in all its getters at once, one well-formed record. It is the record after
  some number \<open>k\<close> of rounds of this run: its basic fields are those of the newest successful basic
  reading among these rounds, its capacity fields those of the newest successful capacity reading,
  its IO fields those of the newest IO reading, each taken on the link of its round, a group never
  read is zero, and nothing else is set. A GF485 client hides the IO group. Unlike the SCUD485 chain
  the groups may come from different rounds, and the record from an earlier connection.\<close>

theorem legacy_end_to_end:
  assumes "d_status d = zero_status" "d_sent d = []"
  shows "(legacy_chain (daemon_rounds (tws_phase p) (tws_open p) tws_close_port envs d) s \<longrightarrow>
     (\<exists>k \<le> length (tws_starts p envs d).
        let st = tws_latest p (take k (tws_starts p envs d))
        in record_wf st \<and> tws_view (so_client s) =
          view_of_status st (power_on st \<noteq> 0) (0 \<le> sc_fd (so_client s)) (-1))) \<and>
   (legacy_chain (daemon_rounds (gf_phase p) (gf_open p) gf_close_port envs d) s \<longrightarrow>
     (\<exists>k \<le> length (gf_starts p envs d).
        let st = gf_latest p (take k (gf_starts p envs d))
        in record_wf st \<and> gf_view (so_client s) =
          (view_of_status st False (0 \<le> sc_fd (so_client s)) (-1))\<lparr>get_io_state := 0\<rparr>))"
proof (intro conjI impI)
  assume chain: "legacy_chain (daemon_rounds (tws_phase p) (tws_open p) tws_close_port envs d) s"
  have zero: "\<exists>k \<le> length (tws_starts p envs d). zero_status = tws_latest p (take k (tws_starts p envs d))"
    by (intro exI [of _ 0]) simp
  from legacy_chain_view [OF chain tws_sent_latest [OF assms] zero]
  show "\<exists>k \<le> length (tws_starts p envs d).
        let st = tws_latest p (take k (tws_starts p envs d))
        in record_wf st \<and> tws_view (so_client s) =
          view_of_status st (power_on st \<noteq> 0) (0 \<le> sc_fd (so_client s)) (-1)"
    unfolding Let_def by blast
next
  assume chain: "legacy_chain (daemon_rounds (gf_phase p) (gf_open p) gf_close_port envs d) s"
  have zero: "\<exists>k \<le> length (gf_starts p envs d). zero_status = gf_latest p (take k (gf_starts p envs d))"
    by (intro exI [of _ 0]) simp
  from legacy_chain_view [OF chain gf_sent_latest [OF assms] zero]
  show "\<exists>k \<le> length (gf_starts p envs d).
        let st = gf_latest p (take k (gf_starts p envs d))
        in record_wf st \<and> gf_view (so_client s) =
          (view_of_status st False (0 \<le> sc_fd (so_client s)) (-1))\<lparr>get_io_state := 0\<rparr>"
    unfolding Let_def by blast
qed

text \<open>A concrete chain: one round in which the pack answers the request for the basic group, and a
  client that connects and reads the record.\<close>

definition shown_system :: "battery_status \<Rightarrow> socket_system" where
  "shown_system st = \<lparr>so_client = \<lparr>sc_fd = 5, sc_connected = True, sc_cached = encode_status st\<rparr>,
     so_queue = [], so_log = [(126, st)]\<rparr>"

lemma shown_reachable:
  assumes "record_ok st"
  shows "socket_reachable (shown_system st)"
proof -
  have len: "length (encode_status st) = 126" using assms by (simp add: record_ok_def)
  let ?c = "new_socket_client\<lparr>sc_fd := 5, sc_connected := True\<rparr>"
  let ?s1 = "start_socket\<lparr>so_client := ?c\<rparr>"
  let ?s2 = "?s1\<lparr>so_queue := encode_status st, so_log := [(126, st)]\<rparr>"
  have "socket_steps start_socket ?s1"
    using client_waits [of start_socket 5]
    by (simp add: tws_reader_iteration_def tws_try_connect_def client_did_def start_socket_def
        new_socket_client_def)
  moreover have "socket_steps ?s1 ?s2"
    using daemon_sends [of ?s1 126 st] len by (simp add: start_socket_def)
  moreover have "socket_steps ?s2 (shown_system st)"
  proof -
    have "encode_status st \<noteq> []" using len by auto
    then show ?thesis
      using client_reads [of ?s2 5] len
      by (simp add: tws_reader_iteration_def tws_try_connect_def client_did_def start_socket_def
          new_socket_client_def shown_system_def Let_def)
  qed
  ultimately show ?thesis by (blast intro: socket_starts socket_continues)
qed

theorem legacy_end_to_end_witness:
  "\<exists>r. \<exists>s :: socket_system. let d = demo_daemon (byte_line (tws_reply 1 tws_demo_regs)) in
     daemon_rounds (tws_phase demo_protocol) (tws_open demo_protocol) tws_close_port [quiet_env] d = Some r \<and>
     d_sent (outcome_state r) \<noteq> [] \<and> so_log s = log_of_run r \<and>
     (\<exists>k \<le> length (tws_starts demo_protocol [quiet_env] d).
        let st = tws_latest demo_protocol (take k (tws_starts demo_protocol [quiet_env] d))
        in record_wf st \<and> tws_view (so_client s) =
          view_of_status st (power_on st \<noteq> 0) (0 \<le> sc_fd (so_client s)) (-1))"
proof -
  let ?l = "byte_line (tws_reply 1 tws_demo_regs)" and ?d = demo_daemon and ?p = demo_protocol
  have len: "length tws_demo_regs = 15" by (simp add: tws_demo_regs_def)
  have line: "0 \<le> fd ?l" "take 35 (arriving ?l) = tws_reply 1 tws_demo_regs"
    "35 = 2 * length tws_demo_regs + 5"
    by (simp, simp add: tws_reply_def tws_demo_regs_def, simp add: len)
  obtain l' where "tws_read_response ?p 35 (tws_send_read_request ?p 0x9000 15 (serial_flush ?l)) =
      (True, tws_reply 1 tws_demo_regs, l')"
    using tws_query_answered [OF line] by blast
  then have 1: "tws_read_basic_info ?p zero_status ?l =
      Some (True, tws_basic_of_registers tws_demo_regs zero_status, l')"
    by (simp add: tws_reader_shapes tws_decode_basic_reply [OF len])
  obtain okc c l2 where 2: "tws_read_capacity_info ?p zero_status (usleep 50000 l') = Some (okc, c, l2)"
    using tws.cap.read_total by blast
  obtain oki i l3 where 3: "tws_read_io_state ?p zero_status l2 = Some (oki, i, l3)"
    using tws.io.read_total by blast
  have d: "d_status (?d x) = zero_status" "d_link (?d x) = x" "d_sent (?d x) = []" for x
    by (simp_all add: demo_daemon_def initial_daemon_def)
  have "tws_phase ?p zero_status ?l = Some (True \<or> okc \<or> oki, oki,
      (if oki then copy_io i else id) ((if okc then copy_capacity c else id)
        ((if True then copy_basic (tws_basic_of_registers tws_demo_regs zero_status) else id) zero_status)), l3)"
    unfolding tws_phase_def
    by (rule fieldwise_protocol.legacy_phase_eq [OF tws.fieldwise_protocol_axioms 1 2 3])
  then obtain st where ph: "tws_phase ?p (d_status (?d ?l)) (d_link (?d ?l)) = Some (True, oki, st, l3)"
    unfolding d simp_thms by blast
  have wf: "record_wf st"
    using phases_keep_wf(2) ph zero_record_wf unfolding phase_keeps_def d by blast
  have alive: "\<not> pipe_broken (re_write quiet_env) (d_clients (?d ?l))"
    by (simp add: quiet_env_def demo_daemon_def initial_daemon_def pipe_broken_def)
  let ?r = "Running (end_of_round quiet_env (published quiet_env oki st l3 (?d ?l)))"
  have run: "daemon_rounds (tws_phase ?p) (tws_open ?p) tws_close_port [quiet_env] (?d ?l) = Some ?r"
    using daemon_round_eq [of "tws_phase ?p", OF ph] alive by simp
  have sent: "d_sent (outcome_state ?r) = [(5, 126, st)]"
    using alive by (simp add: round_simps broadcast_alive)
      (simp add: quiet_env_def demo_daemon_def initial_daemon_def)
  have chain: "legacy_chain (daemon_rounds (tws_phase ?p) (tws_open ?p) tws_close_port [quiet_env] (?d ?l))
      (shown_system st)"
    unfolding run legacy_chain_def using shown_reachable [OF record_wf_ok [OF wf]] sent
    by (simp add: log_of_run_def shown_system_def)
  from legacy_end_to_end [OF d(1) [of ?l] d(3), of ?p "[quiet_env]" "shown_system st"] chain
  have "\<exists>k \<le> length (tws_starts ?p [quiet_env] (?d ?l)).
        let st' = tws_latest ?p (take k (tws_starts ?p [quiet_env] (?d ?l)))
        in record_wf st' \<and> tws_view (so_client (shown_system st)) =
          view_of_status st' (power_on st' \<noteq> 0) (0 \<le> sc_fd (so_client (shown_system st))) (-1)"
    by blast
  moreover have "so_log (shown_system st) = log_of_run ?r"
    unfolding log_of_run_def sent by (simp add: shown_system_def)
  moreover have "d_sent (outcome_state ?r) \<noteq> []" unfolding sent by simp
  ultimately show ?thesis using run unfolding Let_def by blast
qed

end
