(* ===== verification/Cpp_Strings.thy ===== *)
theory Cpp_Strings
  imports Binary64
begin

text \<open>
  The part of the C++ string library that the text protocol of the power board and the command
  line of the daemon use: \<open>find\<close>, \<open>find_first_of\<close>, \<open>substr\<close>, and the conversions \<open>stoi\<close> and
  \<open>stod\<close> with their exceptions.
\<close>

section \<open>Searching\<close>

definition starts_with :: "string \<Rightarrow> string \<Rightarrow> bool" where
  "starts_with key s \<longleftrightarrow> take (length key) s = key"

text \<open>\<open>find\<close>: the first position of the key, or \<open>npos\<close>.\<close>

fun find_str :: "string \<Rightarrow> string \<Rightarrow> nat option" where
  "find_str key [] = (if key = [] then Some 0 else None)"
| "find_str key (c # s) =
     (if starts_with key (c # s) then Some 0 else map_option Suc (find_str key s))"

definition contains :: "string \<Rightarrow> string \<Rightarrow> bool" where
  "contains key s \<longleftrightarrow> find_str key s \<noteq> None"

text \<open>What follows the first occurrence of the key, and the characters up to the first of a set.\<close>

definition after_key :: "string \<Rightarrow> string \<Rightarrow> string option" where
  "after_key key s = map_option (\<lambda>pos. drop (pos + length key) s) (find_str key s)"

definition up_to :: "char set \<Rightarrow> string \<Rightarrow> string" where
  "up_to cs s = takeWhile (\<lambda>c. c \<notin> cs) s"

lemma starts_with_append [simp]: "starts_with key (key @ s)"
  by (simp add: starts_with_def)

lemma starts_with_Nil [simp]: "starts_with [] s"
  by (simp add: starts_with_def)

lemma starts_with_Cons [simp]:
  "starts_with (k # key) [] \<longleftrightarrow> False" "starts_with (k # key) (c # s) \<longleftrightarrow> c = k \<and> starts_with key s"
  by (auto simp: starts_with_def)

lemma find_str_here: "starts_with key s \<Longrightarrow> find_str key s = Some 0"
  by (cases s) (auto simp: starts_with_def)

lemma after_key_here [simp]: "after_key key (key @ s) = Some s"
  by (simp add: after_key_def find_str_here)

lemma after_key_skip:
  "\<not> starts_with key (c # s) \<Longrightarrow> after_key key (c # s) = after_key key s"
  by (cases "find_str key s") (simp_all add: after_key_def)

text \<open>Text without the first character of the key is skipped.\<close>

lemma after_key_append:
  "k \<notin> set u \<Longrightarrow> after_key (k # key) (u @ s) = after_key (k # key) s"
proof (induction u)
  case (Cons c u)
  then have "\<not> starts_with (k # key) (c # u @ s)" by auto
  with Cons show ?case by (simp add: after_key_skip del: starts_with_Cons)
qed simp

text \<open>\<open>find\<close> returns the least position.\<close>

lemma find_str_Some:
  "find_str key s = Some i \<longleftrightarrow>
     i \<le> length s \<and> starts_with key (drop i s) \<and> (\<forall>j < i. \<not> starts_with key (drop j s))"
proof (induction s arbitrary: i)
  case Nil
  then show ?case by (cases key) auto
next
  case (Cons c s)
  then show ?case by (cases i) (auto simp: less_Suc_eq_0_disj)
qed

section \<open>Numerals\<close>

definition is_space :: "char \<Rightarrow> bool" where
  "is_space c \<longleftrightarrow> c \<in> {CHR '' '', CHR 0x09, CHR 0x0A, CHR 0x0B, CHR 0x0C, CHR 0x0D}"

definition digit_value :: "char \<Rightarrow> nat" where
  "digit_value c =
     (let n = of_char c
      in if 48 \<le> n \<and> n < 58 then n - 48
         else if 97 \<le> n \<and> n < 123 then n - 87
         else if 65 \<le> n \<and> n < 91 then n - 55
         else 36)"

abbreviation is_digit :: "nat \<Rightarrow> char \<Rightarrow> bool" where
  "is_digit base c \<equiv> digit_value c < base"

definition digits_value :: "nat \<Rightarrow> string \<Rightarrow> int" where
  "digits_value base = foldl (\<lambda>n c. n * int base + int (digit_value c)) 0"

text \<open>An optional sign: whether it is negative, and the rest.\<close>

fun sign_of :: "string \<Rightarrow> bool \<times> string" where
  "sign_of (CHR ''-'' # s) = (True, s)"
| "sign_of (CHR ''+'' # s) = (False, s)"
| "sign_of s = (False, s)"

definition signed_value :: "bool \<Rightarrow> 'a :: uminus \<Rightarrow> 'a" where
  "signed_value neg x = (if neg then - x else x)"

text \<open>\<open>std::to_string\<close>.\<close>

fun nat_to_string :: "nat \<Rightarrow> string" where
  "nat_to_string n =
     (if n < 10 then [char_of (48 + n)] else nat_to_string (n div 10) @ [char_of (48 + n mod 10)])"

declare nat_to_string.simps [simp del]

definition to_string :: "int \<Rightarrow> string" where
  "to_string i = (if i < 0 then ''-'' @ nat_to_string (nat (- i)) else nat_to_string (nat i))"

datatype conversion_error = Invalid_argument | Out_of_range

text \<open>\<open>std::stoi(s, nullptr, base)\<close> for base 10, and for base 0, where a prefix chooses octal or
  hexadecimal.\<close>

definition has_hex_prefix :: "string \<Rightarrow> bool" where
  "has_hex_prefix s \<longleftrightarrow>
     (case s of c0 # x # d # _ \<Rightarrow> c0 = CHR ''0'' \<and> x \<in> {CHR ''x'', CHR ''X''} \<and> is_digit 16 d | _ \<Rightarrow> False)"

definition stoi :: "nat \<Rightarrow> string \<Rightarrow> conversion_error + int" where
  "stoi base s =
     (let (neg, s) = sign_of (dropWhile is_space s);
          (base, s) =
            (if base = 0 then if has_hex_prefix s then (16, drop 2 s)
                              else if starts_with ''0'' s then (8, s) else (10, s)
             else (base, s));
          ds = takeWhile (is_digit base) s;
          n = signed_value neg (digits_value base ds)
      in if ds = [] then Inl Invalid_argument
         else if n < - (2 ^ 31) \<or> 2 ^ 31 \<le> n then Inl Out_of_range
         else Inr n)"

text \<open>\<open>std::stod\<close> in the C locale: decimal and hexadecimal numerals with exponents, infinities and
  NaN. A result that overflows raises \<open>out_of_range\<close>, and so does one below the normal range.\<close>

datatype cpp_double = Finite double | Infinite bool | Not_a_number

fun exponent_of :: "char set \<Rightarrow> string \<Rightarrow> int" where
  "exponent_of es [] = 0"
| "exponent_of es (c # s) =
     (let (neg, t) = sign_of s; ds = takeWhile (is_digit 10) t
      in if c \<in> es \<and> ds \<noteq> [] then signed_value neg (digits_value 10 ds) else 0)"

text \<open>Digits with an optional point: the integer they form, how many follow the point, and the
  rest.\<close>

definition mantissa_of :: "nat \<Rightarrow> string \<Rightarrow> (int \<times> nat \<times> string) option" where
  "mantissa_of base s =
     (let ip = takeWhile (is_digit base) s; r = dropWhile (is_digit base) s;
          (fp, r) = (if starts_with ''.'' r
                     then (takeWhile (is_digit base) (tl r), dropWhile (is_digit base) (tl r))
                     else ([], r))
      in if ip = [] \<and> fp = [] then None
         else Some (digits_value base (ip @ fp), length fp, r))"

definition lower :: "string \<Rightarrow> string" where
  "lower s = map (\<lambda>c. if c \<in> set ''ABCDEFGHIJKLMNOPQRSTUVWXYZ'' then char_of (of_char c + 32 :: nat) else c) s"

definition unsigned_real :: "string \<Rightarrow> rat option" where
  "unsigned_real s =
     (case (if starts_with ''0x'' s \<or> starts_with ''0X'' s then mantissa_of 16 (drop 2 s) else None) of
        Some (m, k, r) \<Rightarrow>
          Some (of_int m * 2 powi (exponent_of {CHR ''p'', CHR ''P''} r - 4 * int k))
      | None \<Rightarrow>
          (case mantissa_of 10 s of
             Some (m, k, r) \<Rightarrow>
               Some (of_int m * 10 powi (exponent_of {CHR ''e'', CHR ''E''} r - int k))
           | None \<Rightarrow> None))"

definition finite_double :: "rat \<Rightarrow> conversion_error + cpp_double" where
  "finite_double x =
     (let r = rnd 53 x
      in if 2 ^ 1024 \<le> \<bar>r\<bar> \<or> x \<noteq> 0 \<and> \<bar>r\<bar> < 1 / 2 ^ 1022 then Inl Out_of_range else Inr (Finite r))"

definition stod :: "string \<Rightarrow> conversion_error + cpp_double" where
  "stod s =
     (let (neg, s) = sign_of (dropWhile is_space s)
      in if lower (take 3 s) = ''inf'' then Inr (Infinite neg)
         else if lower (take 3 s) = ''nan'' then Inr Not_a_number
         else (case unsigned_real s of
                 Some x \<Rightarrow> finite_double (signed_value neg x)
               | None \<Rightarrow> Inl Invalid_argument))"

section \<open>Plain decimal numerals\<close>

lemma digit_chars: "is_digit 10 c \<longleftrightarrow> c \<in> set ''0123456789''"
proof
  assume "is_digit 10 c"
  then have "48 \<le> (of_char c :: nat) \<and> (of_char c :: nat) < 58"
    by (auto simp: digit_value_def Let_def split: if_splits)
  moreover have "c = char_of (of_char c :: nat)" by simp
  moreover have "n \<in> {48..<58} \<Longrightarrow> char_of n \<in> set ''0123456789''" for n :: nat
  proof -
    assume "n \<in> {48..<58}"
    then have "n = 48 \<or> n = 49 \<or> n = 50 \<or> n = 51 \<or> n = 52 \<or> n = 53 \<or> n = 54 \<or> n = 55 \<or>
        n = 56 \<or> n = 57"
      by simp arith
    then show ?thesis by (elim disjE) (simp_all add: char_of_def bit_iff_odd)
  qed
  ultimately show "c \<in> set ''0123456789''" by (metis atLeastLessThan_iff)
qed (auto simp: digit_value_def Let_def)

definition all_digits :: "string \<Rightarrow> bool" where
  "all_digits ds \<longleftrightarrow> (\<forall>c \<in> set ds. is_digit 10 c)"

definition decimal_text :: "bool \<Rightarrow> string \<Rightarrow> string \<Rightarrow> string" where
  "decimal_text neg ip fp =
     (if neg then ''-'' else []) @ ip @ (if fp = [] then [] else ''.'' @ fp)"

definition decimal_value :: "bool \<Rightarrow> string \<Rightarrow> string \<Rightarrow> rat" where
  "decimal_value neg ip fp = signed_value neg (of_int (digits_value 10 (ip @ fp)) / 10 ^ length fp)"

text \<open>What may follow a numeral in the reports of the board.\<close>

definition ends_numeral :: "string \<Rightarrow> bool" where
  "ends_numeral r \<longleftrightarrow> (case r of [] \<Rightarrow> True | c # _ \<Rightarrow> c \<in> set '',;VA%'')"

lemma takeWhile_digits:
  assumes "all_digits ds" "r = [] \<or> \<not> is_digit 10 (hd r)"
  shows "takeWhile (is_digit 10) (ds @ r) = ds" "dropWhile (is_digit 10) (ds @ r) = r"
proof -
  have "takeWhile (is_digit 10) r = []" "dropWhile (is_digit 10) r = r"
    using assms(2) by (cases r; simp)+
  then show "takeWhile (is_digit 10) (ds @ r) = ds" "dropWhile (is_digit 10) (ds @ r) = r"
    using assms(1) by (simp_all add: all_digits_def)
qed

lemma ends_numeral_hd:
  "ends_numeral r \<Longrightarrow> r = [] \<or> \<not> is_digit 10 (hd r)"
  "ends_numeral r \<Longrightarrow> \<not> starts_with ''.'' r"
  "ends_numeral r \<Longrightarrow> exponent_of {CHR ''e'', CHR ''E''} r = 0"
  by (auto simp: ends_numeral_def digit_chars split: list.splits)

lemma mantissa_decimal:
  assumes "all_digits ip" "all_digits fp" "ip \<noteq> []" "ends_numeral r"
  shows "mantissa_of 10 (ip @ (if fp = [] then [] else ''.'' @ fp) @ r) =
    Some (digits_value 10 (ip @ fp), length fp, r)"
proof (cases "fp = []")
  case True
  with assms takeWhile_digits [OF assms(1) ends_numeral_hd(1) [OF assms(4)]] show ?thesis
    by (simp add: mantissa_of_def ends_numeral_hd)
next
  case False
  have "takeWhile (is_digit 10) (ip @ ''.'' @ fp @ r) = ip"
    "dropWhile (is_digit 10) (ip @ ''.'' @ fp @ r) = ''.'' @ fp @ r"
    using takeWhile_digits [OF assms(1), of "''.'' @ fp @ r"] by (simp_all add: digit_value_def)
  with False assms takeWhile_digits [OF assms(2) ends_numeral_hd(1) [OF assms(4)]] show ?thesis
    by (simp add: mantissa_of_def)
qed

lemma lower_digit:
  "c \<in> set ''0123456789'' \<Longrightarrow> lower (c # u) = c # lower u"
  by (auto simp: lower_def)

lemma stod_decimal:
  assumes "all_digits ip" "all_digits fp" "ip \<noteq> []" "ends_numeral r"
  shows "stod (decimal_text neg ip fp @ r) = finite_double (decimal_value neg ip fp)"
proof -
  let ?t = "ip @ (if fp = [] then [] else ''.'' @ fp) @ r"
  obtain c u where ip: "ip = c # u" using assms(3) by (cases ip) auto
  with assms(1) have c: "c \<in> set ''0123456789''" by (auto simp: all_digits_def digit_chars)
  then have "\<not> is_space c" "sign_of (c # v) = (False, c # v)" for v
    by (auto simp: is_space_def)
  then have sign: "sign_of (dropWhile is_space (decimal_text neg ip fp @ r)) = (neg, ?t)"
    by (simp add: decimal_text_def ip is_space_def [of "CHR ''-''"])
  have "lower (take 3 ?t) \<noteq> ''inf''" "lower (take 3 ?t) \<noteq> ''nan''"
    using c lower_digit [OF c] by (auto simp: ip take_Cons')
  moreover have "\<not> (starts_with ''0x'' ?t \<or> starts_with ''0X'' ?t)"
  proof
    assume x: "starts_with ''0x'' ?t \<or> starts_with ''0X'' ?t"
    then obtain d v where t: "tl ?t = d # v" "d = CHR ''x'' \<or> d = CHR ''X''"
      by (cases "tl ?t") (auto simp: ip)
    from t(1) have "is_digit 10 d \<or> d \<in> set ''.,;VA%''"
      using assms by (cases u; cases fp; cases r) (auto simp: ip all_digits_def ends_numeral_def)
    with t(2) show False by (auto simp: digit_value_def)
  qed
  ultimately show ?thesis
    using mantissa_decimal [OF assms] ends_numeral_hd(3) [OF assms(4)]
    by (simp add: stod_def sign unsigned_real_def decimal_value_def power_int_minus divide_inverse
        del: append_assoc)
qed

lemma finite_double_ok:
  assumes "x = 0 \<or> 1 / 10 ^ 20 \<le> \<bar>x\<bar> \<and> \<bar>x\<bar> \<le> 10 ^ 20"
  shows "finite_double x = Inr (Finite (rnd 53 x))"
proof -
  have "\<bar>rnd 53 x\<bar> < 2 ^ 1024 \<and> (x \<noteq> 0 \<longrightarrow> 1 / 2 ^ 1022 \<le> \<bar>rnd 53 x\<bar>)"
  proof -
    have e: "\<bar>rnd 53 x - x\<bar> \<le> \<bar>x\<bar> / 2" using rnd_error [of 53 x] by (rule order_trans) (simp add: divide_left_mono)
    show ?thesis
    proof (cases "x = 0")
      case False
      with assms have x: "1 / 10 ^ 20 \<le> \<bar>x\<bar>" "\<bar>x\<bar> \<le> 10 ^ 20" by auto
      have "\<bar>rnd 53 x\<bar> \<le> 2 * 10 ^ 20" "1 / (2 * 10 ^ 20) \<le> \<bar>rnd 53 x\<bar>"
        using e x by (simp_all add: abs_if split: if_splits)
      moreover have "(2 * 10 ^ 20 :: rat) < 2 ^ 1024" "(1 / 2 ^ 1022 :: rat) \<le> 1 / (2 * 10 ^ 20)" by simp_all
      ultimately show ?thesis by linarith
    qed simp
  qed
  then show ?thesis by (auto simp: finite_double_def Let_def not_le)
qed

end
