(* ===== verification/Bms_Main.thy ===== *)
theory Bms_Main
  imports Cpp_Strings Can_Socket
begin

text \<open>
  Which battery runs: the command line of the daemon (\<open>main\<close> of \<open>src/bms_daemon.cpp\<close>) and the
  factory of the clients (\<open>BmsDriver::create_bms\<close> of \<open>src/bms_driver.cpp\<close>).
\<close>

section \<open>The command line of the daemon\<close>

text \<open>What \<open>main\<close> starts: a serial daemon with its port, baud rate, timeout, device address and
  socket, the CAN daemon, or the loop that prints the status of the power board.\<close>

datatype launch =
    Serve_tws string int int "8 word" string
  | Serve_gf string int int "8 word" string
  | Serve_scud string int int string
  | Serve_can string string
  | Watch_nrf string
  | Unknown_type string      \<comment> \<open>exit status 1\<close>

text \<open>\<open>(argc > i) ? argv[i] : default\<close>, and with a conversion in base 0.\<close>

definition arg_or :: "string list \<Rightarrow> nat \<Rightarrow> string \<Rightarrow> string" where
  "arg_or argv i dflt = (if i < length argv then argv ! i else dflt)"

definition int_arg_or :: "string list \<Rightarrow> nat \<Rightarrow> int \<Rightarrow> conversion_error + int" where
  "int_arg_or argv i dflt = (if i < length argv then stoi 0 (argv ! i) else Inr dflt)"

definition bms_type :: "string list \<Rightarrow> string" where
  "bms_type argv =
     (if 4 < length argv then argv ! 4
      else if 3 < length argv \<and> argv ! 3 \<in> {''GFCAN'', ''NRF''} then argv ! 3
      else ''TWS'')"

definition bms_main :: "string list \<Rightarrow> conversion_error + launch" where
  "bms_main argv =
     (let port = arg_or argv 1 ''/dev/ttyUSB0''; type = bms_type argv
      in if type = ''GFCAN'' then Inr (Serve_can port (arg_or argv 2 ''/tmp/can_bms.sock''))
         else (case int_arg_or argv 2 115200 of
             Inl e \<Rightarrow> Inl e
           | Inr baud \<Rightarrow>
             (case int_arg_or argv 3 300 of
                Inl e \<Rightarrow> Inl e
              | Inr timeout \<Rightarrow>
                  if type = ''TWS'' then
                    (case int_arg_or argv 5 0x01 of
                       Inl e \<Rightarrow> Inl e
                     | Inr dev_addr \<Rightarrow>
                         Inr (Serve_tws port baud timeout (word_of_int dev_addr) ''/tmp/bms.sock''))
                  else if type = ''GF'' then
                    (case int_arg_or argv 5 0x03 of
                       Inl e \<Rightarrow> Inl e
                     | Inr dev_addr \<Rightarrow>
                         Inr (Serve_gf port baud timeout (word_of_int dev_addr) ''/tmp/gf_bms.sock''))
                  else if type = ''SCUD485'' then
                    Inr (Serve_scud port baud timeout ''/tmp/bms.sock'')
                  else if type = ''GFCAN'' then
                    Inr (Serve_can port (arg_or argv 2 ''/tmp/can_bms.sock''))
                  else if type = ''NRF'' then Inr (Watch_nrf port)
                  else Inr (Unknown_type type))))"

text \<open>The socket a serial daemon serves.\<close>

fun served_socket :: "launch \<Rightarrow> string option" where
  "served_socket (Serve_tws p b t a s) = Some s"
| "served_socket (Serve_gf p b t a s) = Some s"
| "served_socket (Serve_scud p b t s) = Some s"
| "served_socket _ = None"

section \<open>The factory\<close>

datatype driver_choice =
    Tws_client string
  | Gf_client string
  | Gfcan_on string
  | Nrf_on string
  | Scud_client_of string

text \<open>The error is the type name that is not supported.\<close>

definition create_bms :: "string \<Rightarrow> string \<Rightarrow> string + driver_choice" where
  "create_bms name socket_path =
     (let path = (\<lambda>fallback. if socket_path = [] then fallback else socket_path)
      in if name = ''TWS'' then Inr (Tws_client socket_path)
         else if name = ''GF485'' then Inr (Gf_client (path ''/tmp/gf_bms.sock''))
         else if name = ''GFCAN'' then Inr (Gfcan_on (path ''can0''))
         else if name = ''NRF'' then Inr (Nrf_on (path ''/dev/ttyACM0''))
         else if name = ''SCUD485'' then Inr (Scud_client_of (path ''/tmp/bms.sock''))
         else Inl name)"

definition default_socket_path :: string where
  "default_socket_path = ''/tmp/bms.sock''"

fun client_socket :: "driver_choice \<Rightarrow> string option" where
  "client_socket (Tws_client s) = Some s"
| "client_socket (Gf_client s) = Some s"
| "client_socket (Scud_client_of s) = Some s"
| "client_socket _ = None"

section \<open>The arguments\<close>

text \<open>With valid numbers for baud rate and timeout the fifth argument selects the daemon, the device
  address defaults to 1 for TWS and 3 for GF, and any other name is refused; so the daemon calls
  the second battery GF and refuses GF485, its name in the factory. A sixth argument is kept modulo
  256.\<close>

theorem main_selects_daemon:
  assumes "stoi 0 b = Inr baud" "stoi 0 t = Inr timeout" "stoi 0 a = Inr addr"
  shows "bms_main [prog, port, b, t, type] = Inr
      (if type = ''GFCAN'' then Serve_can port b
       else if type = ''TWS'' then Serve_tws port baud timeout 1 ''/tmp/bms.sock''
       else if type = ''GF'' then Serve_gf port baud timeout 3 ''/tmp/gf_bms.sock''
       else if type = ''SCUD485'' then Serve_scud port baud timeout ''/tmp/bms.sock''
       else if type = ''NRF'' then Watch_nrf port
       else Unknown_type type) \<and>
    bms_main [prog, port, b, t, ''TWS'', a] =
      Inr (Serve_tws port baud timeout (word_of_int (addr mod 256)) ''/tmp/bms.sock'') \<and>
    bms_main [prog, port, b, t, ''GF'', a] =
      Inr (Serve_gf port baud timeout (word_of_int (addr mod 256)) ''/tmp/gf_bms.sock'')"
proof -
  have "(word_of_int (addr mod 256) :: 8 word) = word_of_int addr"
    by (simp add: word_of_int_eq_iff take_bit_eq_mod)
  with assms show ?thesis
    by (simp add: bms_main_def bms_type_def arg_or_def int_arg_or_def)
qed

theorem main_selects_daemon_witness:
  "bms_main [''bms_daemon'', ''/dev/ttyS3'', ''19200'', ''0x12C'', ''SCUD485''] =
     Inr (Serve_scud ''/dev/ttyS3'' 19200 300 ''/tmp/bms.sock'') \<and>
   bms_main [''bms_daemon'', ''/dev/ttyS3'', ''19200'', ''0x12C'', ''GF'', ''259''] =
     Inr (Serve_gf ''/dev/ttyS3'' 19200 300 3 ''/tmp/gf_bms.sock'')"
proof -
  have n: "stoi 0 ''19200'' = Inr 19200" "stoi 0 ''0x12C'' = Inr 300" "stoi 0 ''259'' = Inr 259"
    by code_simp+
  from main_selects_daemon [OF n, of "''bms_daemon''" "''/dev/ttyS3''" "''SCUD485''"] show ?thesis
    by simp
qed

lemma served_socket_cases:
  assumes "bms_main [prog, port, b, t, type] = Inr l" "served_socket l = Some s"
  obtains "type = ''TWS''" "s = ''/tmp/bms.sock''" | "type = ''GF''" "s = ''/tmp/gf_bms.sock''"
    | "type = ''SCUD485''" "s = ''/tmp/bms.sock''"
proof -
  have t: "bms_type [prog, port, b, t, x] = x" for x by (simp add: bms_type_def)
  consider "type = ''GFCAN''" | "type = ''TWS''" | "type = ''GF''" | "type = ''SCUD485''" | "type = ''NRF''"
    | "type \<notin> {''GFCAN'', ''TWS'', ''GF'', ''SCUD485'', ''NRF''}" by blast
  then show thesis
  proof cases
    case 2 with assms that(1) show ?thesis by (auto simp: bms_main_def t int_arg_or_def Let_def split: sum.splits)
  next
    case 3 with assms that(2) show ?thesis by (auto simp: bms_main_def t int_arg_or_def Let_def split: sum.splits)
  next
    case 4 with assms that(3) show ?thesis by (auto simp: bms_main_def t int_arg_or_def Let_def split: sum.splits)
  qed (use assms in \<open>auto simp: bms_main_def t int_arg_or_def Let_def split: sum.splits\<close>)
qed

text \<open>A client made with the default path meets the daemon of its type for TWS and SCUD485 only. The
  default is not empty, so the fallbacks of the factory apply to an explicit empty path alone: the
  GF485 client looks for the wrong socket, and GFCAN and NRF take the socket path for an interface
  and a serial port.\<close>

theorem default_clients_and_daemons:
  assumes "bms_main [prog, port, b, t, type] = Inr l" "served_socket l = Some s"
    and "type' = (if type = ''GF'' then ''GF485'' else type)"
  shows "(\<exists>c. create_bms type' [] = Inr c \<and> client_socket c = (if type = ''TWS'' then Some [] else Some s)) \<and>
    (\<exists>c. create_bms type' default_socket_path = Inr c \<and>
       (client_socket c = Some s \<longleftrightarrow> type \<noteq> ''GF'')) \<and>
    create_bms ''GFCAN'' default_socket_path = Inr (Gfcan_on ''/tmp/bms.sock'') \<and>
    create_bms ''NRF'' default_socket_path = Inr (Nrf_on ''/tmp/bms.sock'')"
  using assms(3)
  by (cases rule: served_socket_cases [OF assms(1,2)])
    (simp_all add: create_bms_def default_socket_path_def)

theorem default_clients_and_daemons_witness:
  "create_bms ''GF485'' default_socket_path \<noteq> create_bms ''GF485'' [] \<and>
   (\<exists>c. create_bms ''GF485'' [] = Inr c \<and> client_socket c = Some ''/tmp/gf_bms.sock'')"
proof -
  have n: "stoi 0 ''9600'' = Inr 9600" "stoi 0 ''300'' = Inr 300" by code_simp+
  have "bms_main [''bms_daemon'', ''/dev/ttyUSB0'', ''9600'', ''300'', ''GF''] =
      Inr (Serve_gf ''/dev/ttyUSB0'' 9600 300 3 ''/tmp/gf_bms.sock'')"
    by (simp add: bms_main_def bms_type_def arg_or_def int_arg_or_def n)
  from default_clients_and_daemons [OF this, of "''/tmp/gf_bms.sock''" "''GF485''"] show ?thesis
    by (auto simp: create_bms_def default_socket_path_def)
qed

text \<open>With three arguments only GFCAN can be selected: NRF in the third place is also read as the
  timeout, and the exception of \<open>stoi\<close> is not caught.\<close>

theorem main_three_arguments:
  assumes "stoi 0 b = Inr baud"
  shows "bms_main [prog, port, b, ''NRF''] = Inl Invalid_argument \<and>
    bms_main [prog, port, b, ''GFCAN''] = Inr (Serve_can port b) \<and>
    (stoi 0 t = Inr timeout \<longrightarrow>
      bms_main [prog, port, b, t] = Inr (Serve_tws port baud timeout 1 ''/tmp/bms.sock''))"
proof -
  have n: "stoi 0 ''NRF'' = Inl Invalid_argument" "stoi 0 ''GFCAN'' = Inl Invalid_argument"
    by code_simp+
  with assms show ?thesis
    by (auto simp: bms_main_def bms_type_def arg_or_def int_arg_or_def)
qed

theorem main_three_arguments_witness:
  "bms_main [''bms_daemon'', ''/dev/ttyACM0'', ''115200'', ''NRF''] = Inl Invalid_argument"
proof -
  have "stoi 0 ''115200'' = Inr 115200" by code_simp
  from main_three_arguments [OF this] show ?thesis by blast
qed

end
