(* ===== verification/Daemon_Main.thy ===== *)
theory Daemon_Main
  imports Bms_Main Record_Types
begin

text \<open>
  The serial daemon as a process: the protocol object \<open>main\<close> constructs from the command line, the
  run of \<open>run_daemon\<close> on it, and the destructor that closes the port when the daemon returns.
\<close>

section \<open>Constructors and destructors of the protocols\<close>

definition new_tws_protocol :: "string \<Rightarrow> int \<Rightarrow> int \<Rightarrow> u8 \<Rightarrow> protocol" where
  "new_tws_protocol port baud timeout addr =
     \<lparr>port_name = port, baud_rate = baud, timeout_ms = timeout, dev_addr = addr\<rparr>"

definition new_gf_protocol :: "string \<Rightarrow> int \<Rightarrow> int \<Rightarrow> u8 \<Rightarrow> protocol" where
  "new_gf_protocol port baud timeout addr =
     \<lparr>port_name = port, baud_rate = baud, timeout_ms = timeout, dev_addr = addr\<rparr>"

definition new_scud_protocol :: "string \<Rightarrow> int \<Rightarrow> nat \<Rightarrow> scud_protocol" where
  "new_scud_protocol port baud timeout =
     \<lparr>scud_port = port, scud_baud = baud, scud_timeout_ms = timeout\<rparr>"

text \<open>The destructor runs when \<open>run_daemon\<close> returns; a signal that kills the process leaves the port
  to the kernel.\<close>

fun destroyed :: "(link \<Rightarrow> link) \<Rightarrow> daemon_exit \<Rightarrow> daemon_exit" where
  "destroyed close_port (NotStarted l) = NotStarted (close_port l)"
| "destroyed close_port (SocketFailed l) = SocketFailed (close_port l)"
| "destroyed close_port (BindFailed l) = BindFailed (close_port l)"
| "destroyed close_port (ListenFailed l) = ListenFailed (close_port l)"
| "destroyed close_port (Shutdown d) = Shutdown (d\<lparr>d_link := close_port (d_link d)\<rparr>)"
| "destroyed close_port (KilledBySignal d) = KilledBySignal d"

section \<open>The process\<close>

text \<open>How the process ends: by an exception nobody catches, with an exit status and no daemon run, or
  with what \<open>run_daemon\<close> came to. The CAN daemon and the loop for the power board use neither the
  serial line of this model nor a socket; they end with status 0.\<close>

datatype process_end =
    Aborted conversion_error
  | Exited nat
  | Served daemon_exit

text \<open>A negative timeout makes the polls of TWS and GF wait without limit; each such wait on a line that
  says nothing more is ended by a signal (\<open>awake\<close>). The SCUD reader turns it into a deadline that
  has passed, like a timeout of zero.\<close>

definition run_process ::
    "string list \<Rightarrow> battery_status \<Rightarrow> start_env \<Rightarrow> round_env list \<Rightarrow> link \<Rightarrow> process_end option" where
  "run_process argv junk start envs l =
     (case bms_main argv of
        Inl e \<Rightarrow> Some (Aborted e)
      | Inr (Serve_tws port baud timeout addr socket) \<Rightarrow>
          (let p = new_tws_protocol port baud timeout addr
           in map_option (\<lambda>e. Served (destroyed tws_close_port e))
                (run_daemon (tws_phase p) (tws_open p) tws_close_port (tws_read_version_info p)
                   junk start envs l))
      | Inr (Serve_gf port baud timeout addr socket) \<Rightarrow>
          (let p = new_gf_protocol port baud timeout addr
           in map_option (\<lambda>e. Served (destroyed gf_close_port e))
                (run_daemon (gf_phase p) (gf_open p) gf_close_port (gf_read_version_info p)
                   junk start envs l))
      | Inr (Serve_scud port baud timeout socket) \<Rightarrow>
          (let p = new_scud_protocol port baud (nat timeout)
           in map_option (\<lambda>e. Served (destroyed scud_close_port e))
                (run_daemon (scud_phase p) (scud_open p) scud_close_port (scud_read_version_info p)
                   junk start envs l))
      | Inr (Serve_can interface socket) \<Rightarrow> Some (Exited 0)
      | Inr (Watch_nrf port) \<Rightarrow> Some (Exited 0)
      | Inr (Unknown_type type) \<Rightarrow> Some (Exited 1))"

fun exit_status :: "process_end \<Rightarrow> nat option" where
  "exit_status (Aborted e) = None"
| "exit_status (Exited n) = Some n"
| "exit_status (Served (KilledBySignal d)) = None"
| "exit_status (Served _) = Some 0"

text \<open>The records written to clients, with the client and the bytes taken.\<close>

fun daemon_records :: "daemon_exit \<Rightarrow> (int \<times> nat \<times> battery_status) list" where
  "daemon_records (Shutdown d) = d_sent d"
| "daemon_records (KilledBySignal d) = d_sent d"
| "daemon_records _ = []"

fun process_records :: "process_end \<Rightarrow> (int \<times> nat \<times> battery_status) list" where
  "process_records (Served e) = daemon_records e"
| "process_records _ = []"

fun daemon_port :: "daemon_exit \<Rightarrow> link option" where
  "daemon_port (NotStarted l) = Some l"
| "daemon_port (SocketFailed l) = Some l"
| "daemon_port (BindFailed l) = Some l"
| "daemon_port (ListenFailed l) = Some l"
| "daemon_port (Shutdown d) = Some (d_link d)"
| "daemon_port (KilledBySignal d) = None"

section \<open>Every run\<close>

lemma daemon_records_destroyed [simp]: "daemon_records (destroyed cl e) = daemon_records e"
  by (cases e) simp_all

text \<open>A property of \<open>status_to_send\<close> that the phase keeps holds of every record of the daemon.\<close>

lemma run_daemon_records:
  assumes loop: "daemon_loop phase op cl" and keeps: "phase_keeps phase I Q" and zero: "I zero_status"
    and run: "run_daemon phase op cl ver junk start envs l = Some e"
  shows "\<forall>(c, n, s) \<in> set (daemon_records e). Q s"
proof -
  have rounds: "\<forall>(c, n, s) \<in> set (d_sent (outcome_state r)). Q s"
    if "daemon_rounds phase op cl envs (initial_daemon l') = Some r" for r l'
    using daemon_loop.rounds_sent [OF loop keeps that] zero by (simp add: initial_daemon_def)
  obtain opened l1 where w: "wait_open op (se_attempts start) l = (opened, l1)" by (metis surj_pair)
  show ?thesis
  proof (cases "daemon_records e = []")
    case False
    with run w obtain l2 r where r: "daemon_rounds phase op cl envs (initial_daemon l2) = Some r"
      and e: "daemon_records e = d_sent (outcome_state r)"
      by (auto simp: run_daemon_def Let_def split: if_splits bind_splits outcome.splits)
    from rounds [OF r] show ?thesis unfolding e .
  qed simp
qed

lemma run_process_cases:
  obtains e where "run_process argv junk start envs l = Some e" "\<forall>d. e \<noteq> Served d"
  | ph op cl ver e where "run_process argv junk start envs l = Some (Served (destroyed cl e))"
    "daemon_loop ph op cl" "phase_keeps ph record_wf record_wf" "cl = serial_close"
    "run_daemon ph op cl ver junk start envs l = Some e"
proof (cases "bms_main argv")
  case (Inl e)
  then show thesis by (intro that(1) [of "Aborted e"]) (simp_all add: run_process_def)
next
  case (Inr launch)
  have close: "scud_close_port = serial_close" "tws_close_port = serial_close" "gf_close_port = serial_close"
    by (auto simp: scud_close_port_def tws_close_port_def gf_close_port_def)
  note run = run_process_def Inr
  show thesis
  proof (cases launch)
    case (Serve_tws port baud timeout addr s)
    let ?p = "new_tws_protocol port baud timeout addr"
    obtain e where "run_daemon (tws_phase ?p) (tws_open ?p) tws_close_port (tws_read_version_info ?p)
        junk start envs l = Some e"
      using run_daemon_total [of "tws_phase ?p" "tws_open ?p" tws_close_port "tws_read_version_info ?p",
          OF tws_loop tws_version_total] by blast
    with Serve_tws show thesis
      using that(2) [OF _ tws_loop phases_keep_wf(2) close(2)] by (auto simp: run Let_def)
  next
    case (Serve_gf port baud timeout addr s)
    let ?p = "new_gf_protocol port baud timeout addr"
    obtain e where "run_daemon (gf_phase ?p) (gf_open ?p) gf_close_port (gf_read_version_info ?p)
        junk start envs l = Some e"
      using run_daemon_total [of "gf_phase ?p" "gf_open ?p" gf_close_port "gf_read_version_info ?p",
          OF gf_loop gf_version_total] by blast
    with Serve_gf show thesis
      using that(2) [OF _ gf_loop phases_keep_wf(3) close(3)] by (auto simp: run Let_def)
  next
    case (Serve_scud port baud timeout s)
    let ?p = "new_scud_protocol port baud (nat timeout)"
    obtain e where "run_daemon (scud_phase ?p) (scud_open ?p) scud_close_port (scud_read_version_info ?p)
        junk start envs l = Some e"
      using run_daemon_total [of "scud_phase ?p" "scud_open ?p" scud_close_port "scud_read_version_info ?p",
          OF scud_loop scud_version_total] by blast
    with Serve_scud show thesis
      using that(2) [OF _ scud_loop phases_keep_wf(1) close(1)] by (auto simp: run Let_def)
  qed (use that(1) in \<open>simp_all add: run\<close>)
qed

text \<open>C4. The type of the records, for every command line, negative timeouts included, every behaviour of
  the line and of the clients: the process comes to an end with its signals, no read is out of
  bounds, no division is by zero, and every record it has written to any client is well-formed: 126
  bytes in which each double is a normal number or zero, the unsigned quantities are not negative,
  the power flag is 0 or 1, and the serial number is empty.\<close>

theorem process_records_well_formed:
  "\<exists>e. run_process argv junk start envs l = Some e \<and>
     list_all (\<lambda>(c, n, s). record_wf s \<and> length (encode_status s) = sizeof_status) (process_records e)"
proof (cases rule: run_process_cases [of argv junk start envs l])
  case (2 ph op cl ver e)
  from run_daemon_records [OF 2(2,3) zero_record_wf 2(5)] 2(1) show ?thesis
    using record_wf_ok by (auto simp: list_all_iff record_ok_def)
next
  case (1 e)
  then have "process_records e = []" by (cases e) simp_all
  with 1 show ?thesis by simp
qed

text \<open>Every return of the daemon closes the port: the process can be ended by a signal only with the
  port open.\<close>

theorem daemon_return_closes_port:
  "case run_process argv junk start envs l of
     Some (Served e) \<Rightarrow> (case daemon_port e of None \<Rightarrow> True | Some l \<Rightarrow> \<not> serial_is_open l)
   | _ \<Rightarrow> True"
proof (cases rule: run_process_cases [of argv junk start envs l])
  case (1 e) then show ?thesis by (cases e) simp_all
next
  case (2 ph op cl ver e)
  have "\<not> serial_is_open (serial_close l)" for l by (simp add: serial_is_open_def serial_close_def)
  with 2 show ?thesis by (cases e) simp_all
qed

end
