(* ===== verification/Tty_Modes.thy ===== *)
theory Tty_Modes
  imports Modbus_Link
begin

text \<open>
  The terminal modes the two drivers of a serial port set: \<open>SerialPort::open\<close> for the battery
  protocols and \<open>NrfPmicDriver::open_serial\<close> for the power board. The masks are those of the
  Linux headers. The line discipline of the kernel, which stands between the wire and \<open>read\<close>, is a
  parameter with the behaviour \<open>termios(3)\<close> documents.
\<close>

unbundle bit_operations_syntax

section \<open>struct termios\<close>

type_synonym tcflag = u32

record termios =
  c_iflag :: tcflag
  c_oflag :: tcflag
  c_cflag :: tcflag
  c_lflag :: tcflag
  c_vmin :: u8
  c_vtime :: u8
  c_speed :: speed

abbreviation "IGNBRK \<equiv> (0x1 :: tcflag)"
abbreviation "BRKINT \<equiv> (0x2 :: tcflag)"
abbreviation "PARMRK \<equiv> (0x8 :: tcflag)"
abbreviation "ISTRIP \<equiv> (0x20 :: tcflag)"
abbreviation "INLCR \<equiv> (0x40 :: tcflag)"
abbreviation "IGNCR \<equiv> (0x80 :: tcflag)"
abbreviation "ICRNL \<equiv> (0x100 :: tcflag)"
abbreviation "IUCLC \<equiv> (0x200 :: tcflag)"
abbreviation "IXON \<equiv> (0x400 :: tcflag)"
abbreviation "IXANY \<equiv> (0x800 :: tcflag)"
abbreviation "IXOFF \<equiv> (0x1000 :: tcflag)"
abbreviation "OPOST \<equiv> (0x1 :: tcflag)"
abbreviation "ONLCR \<equiv> (0x4 :: tcflag)"
abbreviation "CSIZE \<equiv> (0x30 :: tcflag)"
abbreviation "CS8 \<equiv> (0x30 :: tcflag)"
abbreviation "CSTOPB \<equiv> (0x40 :: tcflag)"
abbreviation "CREAD \<equiv> (0x80 :: tcflag)"
abbreviation "PARENB \<equiv> (0x100 :: tcflag)"
abbreviation "CLOCAL \<equiv> (0x800 :: tcflag)"
abbreviation "CRTSCTS \<equiv> (0x80000000 :: tcflag)"
abbreviation "ISIG \<equiv> (0x1 :: tcflag)"
abbreviation "ICANON \<equiv> (0x2 :: tcflag)"
abbreviation "ECHO \<equiv> (0x8 :: tcflag)"
abbreviation "ECHOE \<equiv> (0x10 :: tcflag)"
abbreviation "ECHONL \<equiv> (0x40 :: tcflag)"
abbreviation "IEXTEN \<equiv> (0x8000 :: tcflag)"

section \<open>What the drivers set\<close>

definition serial_modes :: "int \<Rightarrow> int \<Rightarrow> int \<Rightarrow> termios \<Rightarrow> termios" where
  "serial_modes baud vmin vtime tty =
     (let tty = tty\<lparr>c_speed := speed_of_baud baud\<rparr>;
          tty = tty\<lparr>c_cflag := c_cflag tty OR (CLOCAL OR CREAD)\<rparr>;
          tty = tty\<lparr>c_cflag := c_cflag tty AND NOT (PARENB OR CSTOPB OR CSIZE OR CRTSCTS)\<rparr>;
          tty = tty\<lparr>c_cflag := c_cflag tty OR CS8\<rparr>;
          tty = tty\<lparr>c_lflag := c_lflag tty AND NOT (ICANON OR ECHO OR ECHOE OR ISIG)\<rparr>;
          tty = tty\<lparr>c_iflag := c_iflag tty AND NOT (IXON OR IXOFF OR IXANY)\<rparr>;
          tty = tty\<lparr>c_oflag := c_oflag tty AND NOT OPOST\<rparr>
      in tty\<lparr>c_vmin := word_of_int vmin, c_vtime := word_of_int vtime\<rparr>)"

definition nrf_modes :: "termios \<Rightarrow> termios" where
  "nrf_modes tty =
     (let tty = tty\<lparr>c_speed := B115200\<rparr>;
          tty = tty\<lparr>c_cflag := c_cflag tty OR (CLOCAL OR CREAD)\<rparr>;
          tty = tty\<lparr>c_cflag := c_cflag tty AND NOT PARENB\<rparr>;
          tty = tty\<lparr>c_cflag := c_cflag tty AND NOT CSTOPB\<rparr>;
          tty = tty\<lparr>c_cflag := c_cflag tty AND NOT CSIZE\<rparr>;
          tty = tty\<lparr>c_cflag := c_cflag tty OR CS8\<rparr>;
          tty = tty\<lparr>c_cflag := c_cflag tty AND NOT CRTSCTS\<rparr>;
          tty = tty\<lparr>c_iflag := c_iflag tty AND NOT (IXON OR IXOFF OR IXANY)\<rparr>;
          tty = tty\<lparr>c_iflag := c_iflag tty AND
            NOT (IGNBRK OR BRKINT OR PARMRK OR ISTRIP OR INLCR OR IGNCR OR ICRNL)\<rparr>;
          tty = tty\<lparr>c_oflag := c_oflag tty AND NOT OPOST\<rparr>;
          tty = tty\<lparr>c_oflag := c_oflag tty AND NOT ONLCR\<rparr>;
          tty = tty\<lparr>c_lflag := c_lflag tty AND NOT (ECHO OR ECHONL OR ICANON OR ISIG OR IEXTEN)\<rparr>
      in tty\<lparr>c_vmin := 0, c_vtime := 1\<rparr>)"

section \<open>What read() sees of the wire\<close>

text \<open>The modes under which every byte is delivered, but for the translation of carriage returns.\<close>

definition byte_wise :: "termios \<Rightarrow> bool" where
  "byte_wise t \<longleftrightarrow> c_iflag t AND (PARMRK OR ISTRIP OR INLCR OR IGNCR OR IXON) = 0 \<and>
     (c_iflag t AND IUCLC = 0 \<or> c_lflag t AND IEXTEN = 0) \<and>
     c_lflag t AND (ICANON OR ISIG) = 0 \<and> c_cflag t AND CSIZE = CS8"

definition cr_to_nl :: "bytes \<Rightarrow> bytes" where
  "cr_to_nl = map (\<lambda>b. if b = 0x0D then 0x0A else b)"

text \<open>\<open>ICRNL\<close>: translate carriage return to newline on input, unless \<open>IGNCR\<close> is set. It acts in
  non-canonical mode, too.\<close>

definition posix_input :: "(termios \<Rightarrow> bytes \<Rightarrow> bytes) \<Rightarrow> bool" where
  "posix_input tty_input \<longleftrightarrow>
     (\<forall>t bs. byte_wise t \<longrightarrow>
        tty_input t bs = (if c_iflag t AND ICRNL = 0 then bs else cr_to_nl bs))"

section \<open>The modes of an open port\<close>

lemma serial_modes_flags:
  "c_iflag (serial_modes b vm vt t) AND k = c_iflag t AND (NOT (IXON OR IXOFF OR IXANY) AND k)"
  "c_lflag (serial_modes b vm vt t) AND k = c_lflag t AND (NOT (ICANON OR ECHO OR ECHOE OR ISIG) AND k)"
  "c_oflag (serial_modes b vm vt t) AND k = c_oflag t AND (NOT OPOST AND k)"
  "c_cflag (serial_modes b vm vt t) =
     ((c_cflag t OR (CLOCAL OR CREAD)) AND NOT (PARENB OR CSTOPB OR CSIZE OR CRTSCTS)) OR CS8"
  by (simp_all add: serial_modes_def Let_def and.assoc)

lemma nrf_modes_flags:
  "c_iflag (nrf_modes t) AND k = c_iflag t AND (NOT (IXON OR IXOFF OR IXANY OR
     IGNBRK OR BRKINT OR PARMRK OR ISTRIP OR INLCR OR IGNCR OR ICRNL) AND k)"
  "c_lflag (nrf_modes t) AND k =
     c_lflag t AND (NOT (ECHO OR ECHONL OR ICANON OR ISIG OR IEXTEN) AND k)"
  "c_cflag (nrf_modes t) AND k = (((c_cflag t OR (CLOCAL OR CREAD)) AND NOT PARENB AND NOT CSTOPB
     AND NOT CSIZE) OR CS8) AND (NOT CRTSCTS AND k)"
  by (simp_all add: nrf_modes_def Let_def and.assoc)

text \<open>Modes from before the open that the code leaves alone and that would change received bytes.\<close>

definition unmarked :: "termios \<Rightarrow> bool" where
  "unmarked t \<longleftrightarrow> c_iflag t AND (PARMRK OR ISTRIP OR INLCR OR IGNCR) = 0 \<and>
     (c_iflag t AND IUCLC = 0 \<or> c_lflag t AND IEXTEN = 0)"

lemma serial_byte_wise: "unmarked t \<Longrightarrow> byte_wise (serial_modes b vm vt t)"
  unfolding byte_wise_def unmarked_def
  by (simp only: serial_modes_flags bit.conj_disj_distrib2 and.assoc) simp

lemma serial_icrnl: "c_iflag (serial_modes b vm vt t) AND ICRNL = c_iflag t AND ICRNL"
  by (simp add: serial_modes_flags)

lemma nrf_byte_wise: "byte_wise (nrf_modes t)" "c_iflag (nrf_modes t) AND ICRNL = 0"
  unfolding byte_wise_def
  by (simp_all add: nrf_modes_flags bit.conj_disj_distrib2 and.assoc)

section \<open>Carriage returns in binary frames\<close>

lemma cr_to_nl_append: "cr_to_nl (xs @ ys) = cr_to_nl xs @ cr_to_nl ys"
  by (simp add: cr_to_nl_def)

lemma cr_to_nl_id: "0x0D \<notin> set bs \<Longrightarrow> cr_to_nl bs = bs"
  unfolding cr_to_nl_def by (induction bs) auto

lemma length_cr_to_nl [simp]: "length (cr_to_nl bs) = length bs"
  by (simp add: cr_to_nl_def)

lemma one_carriage_return:
  assumes "good_response n bs" "count_list bs 0x0D = 1"
  shows "\<not> good_response n (cr_to_nl bs)"
proof
  assume bad: "good_response n (cr_to_nl bs)"
  have "0x0D \<in> set bs" using assms(2) by (metis count_notin zero_neq_one)
  then obtain xs ys where bs: "bs = xs @ 0x0D # ys" "0x0D \<notin> set xs" by (meson split_list_first)
  with assms(2) have "0x0D \<notin> set ys" by (simp add: count_list_0_iff)
  with bs have nl: "cr_to_nl bs = xs @ 0x0A # ys"
    by (simp add: cr_to_nl_append cr_to_nl_id) (simp add: cr_to_nl_def cr_to_nl_id [unfolded cr_to_nl_def])
  have "foldl crc_step (0xFF, 0xFF) bs = foldl crc_step (0xFF, 0xFF) (cr_to_nl bs)"
    using assms(1) bad crc_check_residue [of bs] crc_check_residue [of "cr_to_nl bs"]
    by (simp add: good_response_def)
  then show False
    unfolding bs(1) nl [unfolded bs(1)] using modbus.one_byte [of "0x0D" "0x0A"] by simp
qed

text \<open>C11. The battery protocols are binary, but \<open>SerialPort::open\<close> leaves \<open>ICRNL\<close> as it finds it, and
  it is set on a terminal nobody has configured. A correct reply with one byte 0x0D is accepted by
  the TWS and GF readers exactly when the flag was off before the open; otherwise the kernel hands
  over 0x0A instead and the checksum fails, in every round in which the pack reports that value.
  The driver of the power board clears the flag and receives every byte.\<close>

theorem carriage_return_spoils_reply:
  assumes "posix_input tty_input" "unmarked tty" "serial_is_open l"
    and "good_response n reply" "count_list reply 0x0D = 1"
    and "take n (ready_bytes_for (timeout_ms p) l) = tty_input (serial_modes baud vmin vtime tty) reply"
  shows "(fst (tws_read_response p n l) \<longleftrightarrow> c_iflag tty AND ICRNL = 0) \<and>
    fst (gf_read_response p n l) = fst (tws_read_response p n l) \<and>
    tty_input (nrf_modes tty) bs = bs"
proof -
  let ?t = "serial_modes baud vmin vtime tty"
  have "tty_input ?t reply = (if c_iflag tty AND ICRNL = 0 then reply else cr_to_nl reply)"
    using assms(1) serial_byte_wise [OF assms(2)] by (simp add: posix_input_def serial_icrnl)
  then have "good_response n (take n (ready_bytes_for (timeout_ms p) l)) \<longleftrightarrow> c_iflag tty AND ICRNL = 0"
    using assms(4-6) one_carriage_return by simp
  moreover obtain ok buf l' where r: "tws_read_response p n l = (ok, buf, l')" by (metis surj_pair)
  moreover have "tty_input (nrf_modes tty) bs = bs"
    using assms(1) nrf_byte_wise by (simp add: posix_input_def)
  ultimately show ?thesis
    using tws_read_response_iff(1) [OF r] assms(3) by (simp add: gf_read_response_eq)
qed

text \<open>A line discipline: the translations of one byte, in the order of the documentation.\<close>

definition ldisc_byte :: "termios \<Rightarrow> u8 \<Rightarrow> bytes" where
  "ldisc_byte t b =
     (let b = (if c_iflag t AND ISTRIP = 0 then b else b AND 0x7F)
      in if b = 0x0D
         then (if c_iflag t AND IGNCR \<noteq> 0 then [] else if c_iflag t AND ICRNL \<noteq> 0 then [0x0A] else [b])
         else if b = 0x0A \<and> c_iflag t AND INLCR \<noteq> 0 then [0x0D] else [b])"

definition ldisc :: "termios \<Rightarrow> bytes \<Rightarrow> bytes" where
  "ldisc t bs = concat (map (ldisc_byte t) bs)"

text \<open>The modes a terminal starts with: carriage returns are translated, input is canonical.\<close>

definition default_tty :: termios where
  "default_tty = \<lparr>c_iflag = ICRNL OR IXON, c_oflag = OPOST OR ONLCR, c_cflag = CS8 OR CREAD OR CLOCAL,
     c_lflag = ISIG OR ICANON OR ECHO OR ECHOE OR IEXTEN, c_vmin = 1, c_vtime = 0, c_speed = B9600\<rparr>"

lemma ldisc_posix: "posix_input ldisc"
  unfolding posix_input_def
proof (intro allI impI)
  fix t bs assume "byte_wise t"
  then have flags: "c_iflag t AND k = 0" if "k \<in> {ISTRIP, INLCR, IGNCR}" for k
  proof -
    have "(c_iflag t AND (PARMRK OR ISTRIP OR INLCR OR IGNCR OR IXON)) AND k = c_iflag t AND k"
      using that by (auto simp: and.assoc)
    with \<open>byte_wise t\<close> show ?thesis by (simp add: byte_wise_def)
  qed
  have "ldisc_byte t b = [if b = 0x0D \<and> c_iflag t AND ICRNL \<noteq> 0 then 0x0A else b]" for b
    using flags by (simp add: ldisc_byte_def Let_def)
  then show "ldisc t bs = (if c_iflag t AND ICRNL = 0 then bs else cr_to_nl bs)"
    unfolding ldisc_def cr_to_nl_def by (induction bs) auto
qed

text \<open>A cell voltage of 3.365 V, 0x0D25 in a register.\<close>

definition lfp_reply :: bytes where
  "lfp_reply = modbus_reply 1 [0x0D, 0x25]"

theorem carriage_return_spoils_reply_witness:
  "\<not> fst (tws_read_response demo_protocol 7 (byte_line (ldisc (serial_modes 115200 0 0 default_tty) lfp_reply))) \<and>
   fst (tws_read_response demo_protocol 7
     (byte_line (ldisc (serial_modes 115200 0 0 (default_tty\<lparr>c_iflag := 0\<rparr>)) lfp_reply)))"
proof -
  have good: "good_response 7 lfp_reply"
    using modbus_reply_good [of "[0x0D, 0x25]" 1] by (simp add: lfp_reply_def)
  have count: "count_list lfp_reply 0x0D = 1" by code_simp
  have len: "length (ldisc (serial_modes 115200 0 0 t) lfp_reply) = 7"
    if "t = default_tty \<or> t = default_tty\<lparr>c_iflag := 0\<rparr>" for t
    using that good ldisc_posix serial_byte_wise [of t 115200 0 0] unfolding posix_input_def
    by (auto simp: unmarked_def default_tty_def good_response_def)
  have line: "take 7 (ready_bytes_for (timeout_ms demo_protocol) (byte_line bs)) = bs"
    "serial_is_open (byte_line bs)" if "length bs = 7" for bs
    using that ready_bytes_flushed [of "byte_line bs"]
    by (simp_all add: ready_bytes_for_def demo_protocol_def serial_is_open_def arriving_def [symmetric])
  have modes: "unmarked default_tty" "unmarked (default_tty\<lparr>c_iflag := 0\<rparr>)"
    by (simp_all add: unmarked_def default_tty_def)
  note spoils = carriage_return_spoils_reply [OF ldisc_posix _ line(2) good count line(1)]
  have "\<not> fst (tws_read_response demo_protocol 7
      (byte_line (ldisc (serial_modes 115200 0 0 default_tty) lfp_reply)))"
    using spoils [OF modes(1) len len] by (simp add: default_tty_def)
  moreover have "fst (tws_read_response demo_protocol 7
      (byte_line (ldisc (serial_modes 115200 0 0 (default_tty\<lparr>c_iflag := 0\<rparr>)) lfp_reply)))"
    using spoils [OF modes(2) len len] by simp
  ultimately show ?thesis by blast
qed

end
