(* ===== verification/Nrf_Driver.thy ===== *)
theory Nrf_Driver
  imports Cpp_Strings Serial_Port Record_Layout
begin

text \<open>
  The power board on a serial port, \<open>src/drivers/nrf\<close>: AT commands, the lines read back, the parser
  of the reports and the polling thread. An exception of \<open>stod\<close> or \<open>stoi\<close> is a value of the
  model; what was stored before it stays stored.
\<close>

section \<open>The status of the board\<close>

record bms_cache =
  bms_voltage :: cpp_double
  bms_current :: cpp_double
  bms_soc :: cpp_double

record variant_info =
  variant_name :: string
  has_48v :: bool
  has_5v :: bool
  has_19v :: bool
  has_12v :: bool
  has_ws2812 :: bool

record system_status =
  estop_active :: bool
  variant :: variant_info
  bms :: bms_cache
  adc_mv :: "u16 list"
  power48 :: bool
  power5 :: bool
  power19 :: bool
  power12 :: bool
  wdg_enabled :: bool
  fw_version :: string

definition zero_cache :: bms_cache where
  "zero_cache = \<lparr>bms_voltage = Finite 0, bms_current = Finite 0, bms_soc = Finite 0\<rparr>"

definition zero_system :: system_status where
  "zero_system = \<lparr>estop_active = False,
     variant = \<lparr>variant_name = [], has_48v = False, has_5v = False, has_19v = False,
       has_12v = False, has_ws2812 = False\<rparr>,
     bms = zero_cache, adc_mv = replicate 6 0, power48 = False, power5 = False, power19 = False,
     power12 = False, wdg_enabled = False, fw_version = []\<rparr>"

section \<open>The parser of the reports\<close>

type_synonym parse_state = "conversion_error option \<times> system_status"

text \<open>The local function \<open>f\<close> of both report branches: a missing key leaves the field, text that is no
  number raises, and what comes after an exception does not run.\<close>

definition read_number ::
    "(string \<Rightarrow> string) \<Rightarrow> string \<Rightarrow> string \<Rightarrow> ((cpp_double \<Rightarrow> cpp_double) \<Rightarrow> bms_cache \<Rightarrow> bms_cache) \<Rightarrow>
     parse_state \<Rightarrow> parse_state" where
  "read_number trim line key field = (\<lambda>(exn, st).
     (case exn of
        Some e \<Rightarrow> (Some e, st)
      | None \<Rightarrow>
          (case after_key key line of
             None \<Rightarrow> (None, st)
           | Some t \<Rightarrow>
               (case stod (trim t) of
                  Inl e \<Rightarrow> (Some e, st)
                | Inr x \<Rightarrow> (None, st\<lparr>bms := field (\<lambda>_. x) (bms st)\<rparr>)))))"

definition cut_unit :: "string \<Rightarrow> string" where
  "cut_unit t = up_to (set ''VA%'') (up_to (set '',;'') t)"

text \<open>One turn of the loop over the ADC channels.\<close>

definition read_channel :: "string \<Rightarrow> nat \<Rightarrow> parse_state \<Rightarrow> parse_state" where
  "read_channel line i = (\<lambda>(exn, st).
     (case exn of
        Some e \<Rightarrow> (Some e, st)
      | None \<Rightarrow>
          (case after_key (nat_to_string i @ ''='') line of
             None \<Rightarrow> (None, st)
           | Some t \<Rightarrow>
               (case stoi 10 (up_to (set '',mV'') t) of
                  Inl e \<Rightarrow> (Some e, st)
                | Inr n \<Rightarrow> (None, st\<lparr>adc_mv := (adc_mv st)[i := word_of_int n]\<rparr>)))))"

definition parse_response :: "string \<Rightarrow> system_status \<Rightarrow> parse_state" where
  "parse_response line st =
     (if starts_with ''+ESTOP:'' line then (None, st\<lparr>estop_active := contains ''ACTIVE'' line\<rparr>)
      else if starts_with ''+BMS:'' line then
        read_number id line ''SOC='' bms_soc_update
          (read_number id line ''CURR='' bms_current_update
            (read_number id line ''VOLT='' bms_voltage_update (None, st)))
      else if starts_with ''+STATUS: VARIANT='' line then
        (None, st\<lparr>
           variant := (variant st)\<lparr>
             variant_name := (case after_key ''VARIANT='' line of
                 Some t \<Rightarrow> up_to {CHR '',''} t | None \<Rightarrow> variant_name (variant st)),
             has_48v := contains ''48V='' line, has_5v := contains ''5V='' line,
             has_19v := contains ''19V='' line, has_12v := contains ''12V='' line\<rparr>,
           power48 := contains ''48V=ON'' line, power5 := contains ''5V=ON'' line,
           power19 := contains ''19V=ON'' line, power12 := contains ''12V=ON'' line\<rparr>)
      else if starts_with ''+STATUS: BMS_VOLT='' line then
        read_number cut_unit line ''BMS_SOC='' bms_soc_update
          (read_number cut_unit line ''BMS_CURR='' bms_current_update
            (read_number cut_unit line ''BMS_VOLT='' bms_voltage_update (None, st)))
      else if starts_with ''+ADC:'' line then fold (read_channel line) [0..<6] (None, st)
      else if starts_with ''+WDG:'' line then (None, st\<lparr>wdg_enabled := contains ''ON'' line\<rparr>)
      else if starts_with ''+VERSION:'' line then
        (None, (case after_key '':'' line of
           Some t \<Rightarrow> st\<lparr>fw_version := dropWhile (\<lambda>c. c = CHR '' '') t\<rparr> | None \<Rightarrow> st))
      else (None, st))"

section \<open>Lines on the port\<close>

definition chars :: "bytes \<Rightarrow> string" where "chars = map (\<lambda>b. char_of (unat b))"
definition octets :: "string \<Rightarrow> bytes" where "octets = map of_char"

abbreviation "CR \<equiv> CHR 0x0D"
abbreviation "LF \<equiv> CHR 0x0A"

definition nrf_open_serial :: "string \<Rightarrow> link \<Rightarrow> bool \<times> link" where
  "nrf_open_serial port l =
     (let (e, rest) = (case opens l of [] \<Rightarrow> (OpenFails, []) | e # es \<Rightarrow> (e, es));
          l = l\<lparr>opens := rest\<rparr>
      in (case e of
           OpenFails \<Rightarrow> (False, l\<lparr>fd := -1\<rparr>)
         | TcgetattrFails d \<Rightarrow> (True, l\<lparr>fd := int d, line_conf := Some (port, B115200)\<rparr>)
         | TcsetattrFails d \<Rightarrow> (True, l\<lparr>fd := int d\<rparr>)
         | Opens d \<Rightarrow> (True, l\<lparr>fd := int d, line_conf := Some (port, B115200)\<rparr>)))"

definition nrf_close_serial :: "link \<Rightarrow> link" where
  "nrf_close_serial l = (if 0 \<le> fd l then l\<lparr>fd := -1\<rparr> else l)"

definition nrf_send_cmd :: "string \<Rightarrow> link \<Rightarrow> bool \<times> link" where
  "nrf_send_cmd cmd l =
     (if fd l < 0 then (False, l)
      else let full = octets (cmd @ [CR, LF]); (n, l) = write_raw full l
           in (n = int (length full), l))"

text \<open>The inner loop of \<open>read_line\<close> over the bytes of one \<open>read\<close>. A complete line ends it; the bytes
  behind the line are in no variable that survives.\<close>

fun take_line :: "string \<Rightarrow> string \<Rightarrow> string + string" where
  "take_line line [] = Inr line"
| "take_line line (c # cs) =
     (let line = line @ [c]; n = length line
      in if 2 \<le> n \<and> line ! (n - 2) = CR \<and> line ! (n - 1) = LF then Inl (take (n - 2) line)
         else if 1 \<le> n \<and> last line = LF then
           (let line = butlast line
            in Inl (if line \<noteq> [] \<and> last line = CR then butlast line else line))
         else take_line line cs)"

function nrf_read_loop :: "nat \<Rightarrow> nat \<Rightarrow> string \<Rightarrow> link \<Rightarrow> string option \<times> link" where
  "nrf_read_loop timeout_ms start line l =
     (let remaining = timeout_ms - (clock l - start) div 1000000
      in if remaining = 0 then (None, l)
         else (case poll_then_read 255 remaining l of
             (NotReady, l') \<Rightarrow> nrf_read_loop timeout_ms start line l'
           | (PollFailed, l') \<Rightarrow> (None, l')
           | (ReadEof, l') \<Rightarrow> (None, l')
           | (ReadFailed e, l') \<Rightarrow> (None, l')
           | (ReadBytes bs, l') \<Rightarrow>
               (case take_line line (chars bs) of
                  Inl done \<Rightarrow> (Some done, l')
                | Inr line' \<Rightarrow> nrf_read_loop timeout_ms start line' l')))"
  by pat_completeness auto

lemma nrf_poll_progress:
  assumes "poll_then_read 255 (t - (clock l - s) div 1000000) l = (r, l')"
    and "t - (clock l - s) div 1000000 \<noteq> 0"
  shows "pending_size l' < pending_size l \<or>
    pending_size l' = pending_size l \<and> s + t * 1000000 - clock l' < s + t * 1000000 - clock l"
proof -
  have "clock l < s + t * 1000000" using assms(2) by (cases "s \<le> clock l") (auto simp: div_less_iff_less_mult)
  with poll_then_read_pending [OF assms(1)] assms(2) show ?thesis
    by (auto simp: pending_size_def)
qed

termination nrf_read_loop
  by (relation "measures [\<lambda>(t, s, x, l). pending_size l, \<lambda>(t, s, x, l). s + t * 1000000 - clock l]")
    (auto dest!: nrf_poll_progress [OF sym])

declare nrf_read_loop.simps [simp del]

definition nrf_read_line :: "nat \<Rightarrow> link \<Rightarrow> string option \<times> link" where
  "nrf_read_line timeout_ms l =
     (if fd l < 0 then (None, l) else nrf_read_loop timeout_ms (clock l) [] l)"

text \<open>The line the inner loop finds: the text before the first line feed, less one carriage return.
  In particular the second removal of a carriage return never runs.\<close>

definition strip_cr :: "string \<Rightarrow> string" where
  "strip_cr s = (if s \<noteq> [] \<and> last s = CR then butlast s else s)"

lemma take_line_eq:
  assumes "LF \<notin> set line"
  shows "take_line line cs =
    (if LF \<in> set cs then Inl (strip_cr (line @ takeWhile (\<lambda>c. c \<noteq> LF) cs)) else Inr (line @ cs))"
  using assms
proof (induction cs arbitrary: line)
  case (Cons c cs)
  show ?case
  proof (cases "c = LF")
    case True
    with Cons.prems show ?thesis
      by (cases line rule: rev_cases) (auto simp: strip_cr_def nth_append butlast_append Let_def)
  next
    case False
    with Cons.prems Cons.IH [of "line @ [c]"] show ?thesis by (auto simp: nth_append Let_def)
  qed
qed simp

lemma poll_read_shrinks:
  "poll_then_read 255 t l = (r, l') \<Longrightarrow> pending_size l' \<le> pending_size l"
  "poll_then_read 255 t l = (ReadBytes bs, l') \<Longrightarrow> pending_size l' < pending_size l"
  using poll_then_read_pending [of 255 t l] by (force simp: pending_size_def)+

lemma nrf_read_loop_shrinks:
  "nrf_read_loop t s line l = (r, l') \<Longrightarrow>
     pending_size l' \<le> pending_size l \<and> (r \<noteq> None \<longrightarrow> pending_size l' < pending_size l)"
proof (induction t s line l arbitrary: r l' rule: nrf_read_loop.induct)
  case (1 t s line l)
  let ?w = "t - (clock l - s) div 1000000"
  obtain p m where p: "poll_then_read 255 ?w l = (p, m)" by (meson surj_pair)
  note shrink = poll_read_shrinks(1) [OF p]
  show ?case
  proof (cases "?w = 0")
    case True
    with "1.prems" show ?thesis by (simp add: nrf_read_loop.simps)
  next
    case False
    note run = "1.prems" [unfolded nrf_read_loop.simps [of t s line l]]
    show ?thesis
    proof (cases p)
      case NotReady
      with False p run shrink "1.IH"(1) [OF refl False p [symmetric] NotReady] show ?thesis
        by fastforce
    next
      case (ReadBytes bs)
      show ?thesis
      proof (cases "take_line line (chars bs)")
        case (Inl x)
        with False p run ReadBytes poll_read_shrinks(2) [of ?w l bs m] show ?thesis by auto
      next
        case (Inr line')
        with False p run ReadBytes shrink "1.IH"(2) [OF refl False p [symmetric] ReadBytes Inr] show ?thesis
          by fastforce
      qed
    qed (use False p run shrink in auto)
  qed
qed

lemma nrf_read_line_shrinks:
  "nrf_read_line t l = (Some line, l') \<Longrightarrow> pending_size l' < pending_size l"
  using nrf_read_loop_shrinks by (fastforce simp: nrf_read_line_def split: if_splits)

section \<open>Commands\<close>

text \<open>The loop of \<open>send_and_read\<close>: whether a line came, the response, the status of the board and the
  port, after an exception if the first component says so.\<close>

function nrf_drain ::
    "nat \<Rightarrow> bool \<Rightarrow> string \<Rightarrow> system_status \<Rightarrow> link \<Rightarrow>
     conversion_error option \<times> bool \<times> string \<times> system_status \<times> link" where
  "nrf_drain timeout_ms got response st l =
     (case nrf_read_line timeout_ms l of
        (None, l') \<Rightarrow> (None, got, response, st, l')
      | (Some acc, l') \<Rightarrow>
          if acc = [] then nrf_drain timeout_ms got response st l'
          else (case parse_response acc st of
                  (Some e, st') \<Rightarrow> (Some e, got, acc, st', l')
                | (None, st') \<Rightarrow> nrf_drain timeout_ms True acc st' l'))"
  by pat_completeness auto

termination nrf_drain
  by (relation "measure (\<lambda>(t, g, r, st, l). pending_size l)")
    (auto dest!: nrf_read_line_shrinks [OF sym])

declare nrf_drain.simps [simp del]

definition nrf_send_and_read ::
    "string \<Rightarrow> string \<Rightarrow> nat \<Rightarrow> system_status \<Rightarrow> link \<Rightarrow>
     conversion_error option \<times> bool \<times> string \<times> system_status \<times> link" where
  "nrf_send_and_read cmd response timeout_ms st l =
     (let (sent, l) = nrf_send_cmd cmd l
      in if \<not> sent then (None, False, response, st, l)
         else nrf_drain timeout_ms False response st l)"

section \<open>The driver\<close>

record nrf_driver =
  nrf_link :: link
  nrf_status :: system_status
  nrf_cached :: bms_cache      \<comment> \<open>the three fields of \<open>cached_\<close> that are ever written\<close>
  nrf_running :: bool

text \<open>A command with an own response: its result, unless it raised, and the driver.\<close>

definition nrf_command :: "string \<Rightarrow> nrf_driver \<Rightarrow> (conversion_error + bool) \<times> nrf_driver" where
  "nrf_command cmd d =
     (case nrf_send_and_read cmd [] 500 (nrf_status d) (nrf_link d) of
        (exn, ok, resp, st, l) \<Rightarrow>
          ((case exn of Some e \<Rightarrow> Inl e | None \<Rightarrow> Inr ok), d\<lparr>nrf_status := st, nrf_link := l\<rparr>))"

definition set_power48 :: "bool \<Rightarrow> nrf_driver \<Rightarrow> (conversion_error + bool) \<times> nrf_driver" where
  "set_power48 on = nrf_command (if on then ''AT+POWER48=1'' else ''AT+POWER48=0'')"

definition set_power5 :: "bool \<Rightarrow> nrf_driver \<Rightarrow> (conversion_error + bool) \<times> nrf_driver" where
  "set_power5 on = nrf_command (if on then ''AT+POWER5=1'' else ''AT+POWER5=0'')"

definition set_power19 :: "bool \<Rightarrow> nrf_driver \<Rightarrow> (conversion_error + bool) \<times> nrf_driver" where
  "set_power19 on = nrf_command (if on then ''AT+POWER19=1'' else ''AT+POWER19=0'')"

definition set_power12 :: "bool \<Rightarrow> nrf_driver \<Rightarrow> (conversion_error + bool) \<times> nrf_driver" where
  "set_power12 on = nrf_command (if on then ''AT+POWER12=1'' else ''AT+POWER12=0'')"

definition estop :: "nrf_driver \<Rightarrow> (conversion_error + bool) \<times> nrf_driver" where
  "estop = nrf_command ''AT+ESTOP=1''"

definition clear_estop :: "nrf_driver \<Rightarrow> (conversion_error + bool) \<times> nrf_driver" where
  "clear_estop = nrf_command ''AT+ESTOP=0''"

definition query_estop :: "nrf_driver \<Rightarrow> (conversion_error + bool) \<times> nrf_driver" where
  "query_estop = nrf_command ''AT+ESTOP?''"

definition set_watchdog :: "bool \<Rightarrow> nrf_driver \<Rightarrow> (conversion_error + bool) \<times> nrf_driver" where
  "set_watchdog on = nrf_command (if on then ''AT+WDG=1'' else ''AT+WDG=0'')"

definition query_watchdog :: "nrf_driver \<Rightarrow> (conversion_error + bool) \<times> nrf_driver" where
  "query_watchdog = nrf_command ''AT+WDG?''"

definition refresh_status :: "nrf_driver \<Rightarrow> (conversion_error + bool) \<times> nrf_driver" where
  "refresh_status = nrf_command ''AT+STATUS?''"

definition refresh_bms :: "nrf_driver \<Rightarrow> (conversion_error + bool) \<times> nrf_driver" where
  "refresh_bms = nrf_command ''AT+GETBMS?''"

definition refresh_adc :: "int \<Rightarrow> nrf_driver \<Rightarrow> (conversion_error + bool) \<times> nrf_driver" where
  "refresh_adc channel =
     nrf_command (if channel < 0 then ''AT+ADC?'' else ''AT+ADC='' @ to_string channel)"

definition refresh_version :: "nrf_driver \<Rightarrow> (conversion_error + bool) \<times> nrf_driver" where
  "refresh_version = nrf_command ''AT+VERSION?''"

definition get_power48 :: "nrf_driver \<Rightarrow> bool" where "get_power48 d = power48 (nrf_status d)"
definition get_power5 :: "nrf_driver \<Rightarrow> bool" where "get_power5 d = power5 (nrf_status d)"
definition get_power19 :: "nrf_driver \<Rightarrow> bool" where "get_power19 d = power19 (nrf_status d)"
definition get_power12 :: "nrf_driver \<Rightarrow> bool" where "get_power12 d = power12 (nrf_status d)"

text \<open>The constructor. An exception of one of the first three commands leaves it.\<close>

definition and_then ::
    "(nrf_driver \<Rightarrow> (conversion_error + bool) \<times> nrf_driver) \<Rightarrow>
     conversion_error + nrf_driver \<Rightarrow> conversion_error + nrf_driver" where
  "and_then cmd r =
     (case r of
        Inl e \<Rightarrow> Inl e
      | Inr d \<Rightarrow> (case cmd d of (Inl e, d) \<Rightarrow> Inl e | (Inr ok, d) \<Rightarrow> Inr d))"

definition new_nrf :: "string \<Rightarrow> link \<Rightarrow> conversion_error + nrf_driver" where
  "new_nrf port l =
     (let (ok, l) = nrf_open_serial port l;
          d = \<lparr>nrf_link = l, nrf_status = zero_system, nrf_cached = zero_cache, nrf_running = False\<rparr>
      in if \<not> ok then Inr d
         else (case and_then refresh_version (and_then refresh_bms (and_then refresh_status (Inr d))) of
                 Inl e \<Rightarrow> Inl e
               | Inr d \<Rightarrow> Inr (d\<lparr>nrf_running := True\<rparr>)))"

definition destroy_nrf :: "nrf_driver \<Rightarrow> nrf_driver" where
  "destroy_nrf d = d\<lparr>nrf_running := False, nrf_link := nrf_close_serial (nrf_link d)\<rparr>"

text \<open>One turn of the polling thread. An exception that leaves the thread ends the process. The second
  query gets the response of the first one as a start.\<close>

definition nrf_poll_turn :: "nrf_driver \<Rightarrow> conversion_error + nrf_driver" where
  "nrf_poll_turn d =
     (case nrf_send_and_read ''AT+GETBMS?'' [] 300 (nrf_status d) (nrf_link d) of
        (Some e, _) \<Rightarrow> Inl e
      | (None, ok, resp, st, l) \<Rightarrow>
          (let cached = (if resp \<noteq> [] then bms st else nrf_cached d)
           in (case nrf_send_and_read ''AT+STATUS?'' resp 200 st (usleep 500000 l) of
                 (Some e, _) \<Rightarrow> Inl e
               | (None, ok, resp, st, l) \<Rightarrow>
                   Inr (d\<lparr>nrf_cached := cached, nrf_status := st, nrf_link := usleep 1500000 l\<rparr>))))"

fun nrf_poll_loop :: "nat \<Rightarrow> nrf_driver \<Rightarrow> conversion_error + nrf_driver" where
  "nrf_poll_loop 0 d = Inr d"
| "nrf_poll_loop (Suc n) d =
     (case nrf_poll_turn d of Inl e \<Rightarrow> Inl e | Inr d \<Rightarrow> nrf_poll_loop n d)"

text \<open>The getters; a value that is infinite or no number is shown as \<open>None\<close>.\<close>

definition shown :: "cpp_double \<Rightarrow> double option" where
  "shown x = (case x of Finite r \<Rightarrow> Some r | _ \<Rightarrow> None)"

definition nrf_view :: "nrf_driver \<Rightarrow> bms_view" where
  "nrf_view d =
     \<lparr>get_voltage = shown (bms_voltage (nrf_cached d)),
      get_current = shown (bms_current (nrf_cached d)), get_temperature = Some 0,
      get_percentage = shown (bms_soc (nrf_cached d)), get_charge = Some 0, get_capacity = Some 0,
      get_design_capacity = Some 0, get_protect_status = 0, get_work_state = 0,
      get_max_cell_voltage = Some 0, get_min_cell_voltage = Some 0, get_soh = 0, get_cycles = 0,
      get_io_state = 0, is_power_on = False, is_connected = (0 \<le> fd (nrf_link d)),
      get_data_age_ms = -1\<rparr>"

text \<open>The loop of \<open>main\<close> for the power board: what each of its turns prints of the driver it finds, the
  polling thread having worked in between.\<close>

record pmic_line =
  pl_variant :: string
  pl_48v :: bool
  pl_5v :: bool
  pl_bms :: bms_cache

definition pmic_line_of :: "nrf_driver \<Rightarrow> pmic_line" where
  "pmic_line_of d =
     (let status = nrf_status d
      in \<lparr>pl_variant = variant_name (variant status), pl_48v = power48 status, pl_5v = power5 status,
          pl_bms = bms status\<rparr>)"

definition watch_nrf :: "nrf_driver list \<Rightarrow> pmic_line list" where
  "watch_nrf turns = map pmic_line_of turns"

text \<open>When the port cannot be opened the constructor still returns an object: no thread polls, every
  command fails without effect, the getters show zeros, and \<open>main\<close> prints a board without a name,
  switched off, with a battery of 0 V, for ever; unlike the serial daemons nothing tries again.\<close>

theorem nrf_without_port:
  assumes "opens l = [] \<or> hd (opens l) = OpenFails"
  shows "\<exists>d. new_nrf port l = Inr d \<and> \<not> nrf_running d \<and> \<not> is_connected (nrf_view d) \<and>
    nrf_command cmd d = (Inr False, d) \<and>
    watch_nrf (replicate n d) =
      replicate n \<lparr>pl_variant = [], pl_48v = False, pl_5v = False, pl_bms = zero_cache\<rparr>"
proof -
  let ?l = "l\<lparr>opens := tl (opens l), fd := -1\<rparr>"
  let ?d = "\<lparr>nrf_link = ?l, nrf_status = zero_system, nrf_cached = zero_cache, nrf_running = False\<rparr>"
  have "nrf_open_serial port l = (False, ?l)"
    using assms by (cases "opens l") (auto simp: nrf_open_serial_def Let_def)
  then have "new_nrf port l = Inr ?d" by (simp add: new_nrf_def)
  moreover have "nrf_command cmd ?d = (Inr False, ?d)"
    by (simp add: nrf_command_def nrf_send_and_read_def nrf_send_cmd_def)
  ultimately show ?thesis
    by (simp add: nrf_view_def watch_nrf_def pmic_line_of_def zero_system_def)
qed

theorem nrf_without_port_witness:
  "\<exists>d. new_nrf ''/dev/ttyACM0'' (byte_line []) = Inr d \<and> \<not> is_connected (nrf_view d)"
  using nrf_without_port [of "byte_line []" "''/dev/ttyACM0''" "''AT+POWER48=0''" 3] by auto

section \<open>One answer on the line\<close>

lemma chars_octets [simp]: "chars (octets s) = s"
proof -
  have "char_of (unat (of_char c :: u8)) = c" for c
  proof -
    have "unat (of_char c :: u8) = unat (of_nat (of_char c) :: u8)" by (simp only: of_nat_of_char)
    also have "\<dots> = of_char c mod 256" by (simp add: unsigned_of_nat take_bit_eq_mod)
    also have "\<dots> = of_char c" by (rule of_char_mod_256)
    finally have "unat (of_char c :: u8) = of_char c" .
    then show ?thesis by simp
  qed
  then show ?thesis by (induction s) (simp_all add: chars_def octets_def)
qed

lemma length_octets [simp]: "length (octets s) = length s" "octets s = [] \<longleftrightarrow> s = []"
  by (simp_all add: octets_def)

text \<open>A link on which one \<open>read\<close> delivers the text and nothing follows.\<close>

definition delivers :: "string \<Rightarrow> link \<Rightarrow> bool" where
  "delivers text l \<longleftrightarrow> writes_ok l \<and> script l = [] \<and> rxbuf l = octets text \<and> length text \<le> 255"

lemma read_line_delivered:
  assumes "delivers (a @ [CR, LF] @ b) l" "LF \<notin> set a" "0 < t"
  shows "nrf_read_line t l = (Some a, l\<lparr>rxbuf := []\<rparr>)"
proof -
  have "takeWhile (\<lambda>c. c \<noteq> LF) (a @ [CR, LF] @ b) = a @ [CR]"
    using assms(2) by (induction a) auto
  then have "take_line [] (a @ [CR, LF] @ b) = Inl a"
    by (simp add: take_line_eq strip_cr_def)
  moreover have "rxbuf l = octets (a @ [CR, LF] @ b)" "length (rxbuf l) \<le> 255"
    using assms(1) by (simp_all add: delivers_def)
  then have "poll_then_read 255 t l = (ReadBytes (octets (a @ [CR, LF] @ b)), l\<lparr>rxbuf := []\<rparr>)"
    by (simp add: poll_then_read_def del: append.simps)
  ultimately show ?thesis
    using assms by (simp add: nrf_read_line_def nrf_read_loop.simps [of t _ "[]" l] delivers_def writes_ok_def)
qed

lemma read_line_silent:
  assumes "0 \<le> fd l" "script l = []" "rxbuf l = []" "0 < t"
  shows "nrf_read_line t l = (None, l\<lparr>clock := clock l + t * 1000000\<rparr>)"
  using assms
  by (simp add: nrf_read_line_def nrf_read_loop.simps [of t "clock l" "[]"] poll_then_read_def)

lemma delivers_sent:
  assumes "delivers text l"
  shows "nrf_send_cmd cmd l = (True, l\<lparr>txlog := txlog l @ [octets (cmd @ [CR, LF])]\<rparr>)"
    "delivers text (l\<lparr>txlog := tx\<rparr>)"
  using assms by (simp_all add: delivers_def nrf_send_cmd_def writes_ok_def write_raw_def)

lemma drain_delivered:
  assumes "delivers (a @ [CR, LF] @ b) l" "LF \<notin> set a" "0 < t" "a \<noteq> []"
  shows "nrf_drain t got resp st l =
    (case parse_response a st of
       (Some e, st') \<Rightarrow> (Some e, got, a, st', l\<lparr>rxbuf := []\<rparr>)
     | (None, st') \<Rightarrow> (None, True, a, st', l\<lparr>rxbuf := [], clock := clock l + t * 1000000\<rparr>))"
proof -
  have "nrf_read_line t (l\<lparr>rxbuf := []\<rparr>) = (None, l\<lparr>rxbuf := [], clock := clock l + t * 1000000\<rparr>)"
    using assms(1,3) by (subst read_line_silent) (auto simp: delivers_def writes_ok_def)
  then have "nrf_drain t True a st' (l\<lparr>rxbuf := []\<rparr>) =
      (None, True, a, st', l\<lparr>rxbuf := [], clock := clock l + t * 1000000\<rparr>)" for st'
    by (simp add: nrf_drain.simps [of t True])
  then show ?thesis
    using assms(4)
    by (simp add: nrf_drain.simps [of t got] read_line_delivered [OF assms(1-3)]
        split: option.split prod.split)
qed

definition text_link :: "string \<Rightarrow> link" where
  "text_link s = \<lparr>fd = 3, rxbuf = octets s, script = [], clock = 0, txlog = [], writes = [], opens = [],
     line_conf = None\<rparr>"

lemma text_link_delivers: "length s \<le> 255 \<Longrightarrow> delivers s (text_link s)"
  by (simp add: delivers_def text_link_def writes_ok_def)

section \<open>The reports\<close>

lemma decimal_text_chars:
  assumes "all_digits ip" "all_digits fp" "c \<notin> set ''-.0123456789''"
  shows "c \<notin> set (decimal_text neg ip fp)"
proof -
  have "set ip \<subseteq> set ''0123456789''" "set fp \<subseteq> set ''0123456789''"
    using assms(1,2) by (simp_all only: all_digits_def digit_chars subset_iff) simp_all
  moreover have "c \<notin> set ''0123456789''" "c \<noteq> CHR ''-''" "c \<noteq> CHR ''.''"
    using assms(3) by auto
  ultimately have "c \<notin> set ip" "c \<notin> set fp" by (meson subsetD)+
  then show ?thesis using \<open>c \<noteq> CHR ''-''\<close> \<open>c \<noteq> CHR ''.''\<close> by (simp add: decimal_text_def)
qed

lemma digits_value_bounds:
  assumes "all_digits ds"
  shows "0 \<le> digits_value 10 ds \<and> digits_value 10 ds < 10 ^ length ds"
  using assms
proof (induction ds rule: rev_induct)
  case (snoc d ds)
  then have "digit_value d < 10" "0 \<le> digits_value 10 ds" "digits_value 10 ds < 10 ^ length ds"
    by (auto simp: all_digits_def)
  then show ?case by (simp add: digits_value_def)
qed (simp add: digits_value_def)

lemma finite_decimal:
  assumes "all_digits ip" "all_digits fp" "length ip \<le> 20" "length fp \<le> 20"
  shows "finite_double (decimal_value neg ip fp) = Inr (Finite (rnd 53 (decimal_value neg ip fp)))"
proof (rule finite_double_ok)
  let ?n = "digits_value 10 (ip @ fp)" and ?k = "length fp"
  have n: "0 \<le> ?n" "?n < 10 ^ (length ip + ?k)"
    using digits_value_bounds [of "ip @ fp"] assms(1,2) by (auto simp: all_digits_def)
  have abs: "\<bar>decimal_value neg ip fp\<bar> = of_int ?n / 10 ^ ?k"
    using n(1) by (simp add: decimal_value_def signed_value_def abs_divide)
  show "decimal_value neg ip fp = 0 \<or> 1 / 10 ^ 20 \<le> \<bar>decimal_value neg ip fp\<bar> \<and>
      \<bar>decimal_value neg ip fp\<bar> \<le> 10 ^ 20"
  proof (cases "?n = 0")
    case False
    with n have "1 \<le> ?n" by linarith
    then have "(1 :: rat) \<le> of_int ?n" by simp
    moreover have "(10 :: rat) ^ ?k \<le> 10 ^ 20" using assms(4) by (intro power_increasing) auto
    ultimately have "1 / 10 ^ 20 \<le> (of_int ?n :: rat) / 10 ^ ?k" by (intro frac_le) auto
    moreover have "(of_int ?n :: rat) / 10 ^ ?k \<le> 10 ^ 20"
    proof -
      have "(of_int ?n :: rat) \<le> of_int (10 ^ (length ip + ?k))" using n(2) by (simp only: of_int_le_iff)
      also have "\<dots> = 10 ^ length ip * 10 ^ ?k" by (simp add: power_add)
      also have "\<dots> \<le> 10 ^ 20 * 10 ^ ?k"
        using assms(3) by (intro mult_right_mono power_increasing) auto
      finally show ?thesis by (simp add: divide_le_eq)
    qed
    ultimately show ?thesis by (simp add: abs)
  qed (simp add: decimal_value_def signed_value_def)
qed

text \<open>A decimal numeral: its sign, the digits before the point and those after it.\<close>

type_synonym numeral = "bool \<times> string \<times> string"

definition plain :: "numeral \<Rightarrow> bool" where
  "plain = (\<lambda>(neg, ip, fp). all_digits ip \<and> all_digits fp \<and> ip \<noteq> [] \<and> length ip \<le> 20 \<and>
     length fp \<le> 20)"

definition written :: "numeral \<Rightarrow> string" where
  "written = (\<lambda>(neg, ip, fp). decimal_text neg ip fp)"

definition nearest :: "numeral \<Rightarrow> cpp_double" where
  "nearest = (\<lambda>(neg, ip, fp). Finite (rnd 53 (decimal_value neg ip fp)))"

lemma stod_written: "plain n \<Longrightarrow> ends_numeral r \<Longrightarrow> stod (written n @ r) = Inr (nearest n)"
  by (auto simp: plain_def written_def nearest_def stod_decimal finite_decimal)

lemma stod_written_end: "plain n \<Longrightarrow> stod (written n) = Inr (nearest n)"
  using stod_written [of n "[]"] by (simp add: ends_numeral_def)

lemma written_chars: "plain n \<Longrightarrow> c \<notin> set ''-.0123456789'' \<Longrightarrow> c \<notin> set (written n)"
  using decimal_text_chars by (auto simp: plain_def written_def)

lemma after_key_written:
  "plain n \<Longrightarrow> k \<notin> set ''-.0123456789'' \<Longrightarrow>
     after_key (k # key) (written n @ s) = after_key (k # key) s"
  by (rule after_key_append) (rule written_chars)

lemma up_to_append:
  "set u \<inter> cs = {} \<Longrightarrow> up_to cs (u @ s) = u @ up_to cs s"
  by (simp add: up_to_def disjoint_iff takeWhile_append)

lemma cut_unit_written:
  assumes "plain n" "c \<in> set ''VA%''" "r = [] \<or> hd r \<in> set '',;''"
  shows "cut_unit (written n @ c # r) = written n"
proof -
  have "set (written n) \<inter> set '',;'' = {}" "set (written n) \<inter> set ''VA%'' = {}"
    using written_chars [OF assms(1)] by auto
  moreover have "up_to (set '',;'') (c # r) = [c]" "up_to (set ''VA%'') [c] = []"
    using assms(2,3) by (auto simp: up_to_def takeWhile_eq_Nil_iff)
  ultimately show ?thesis by (simp add: cut_unit_def up_to_append)
qed

abbreviation with_report :: "system_status \<Rightarrow> numeral \<Rightarrow> numeral \<Rightarrow> numeral \<Rightarrow> system_status" where
  "with_report st v i s \<equiv>
     st\<lparr>bms := \<lparr>bms_voltage = nearest v, bms_current = nearest i, bms_soc = nearest s\<rparr>\<rparr>"

lemma parse_bms_report:
  assumes "plain v" "plain i" "plain s"
  shows "parse_response (''+BMS: VOLT='' @ written v @ '',CURR='' @ written i @ '',SOC='' @ written s) st =
    (None, with_report st v i s)"
proof -
  let ?l = "''+BMS: VOLT='' @ written v @ '',CURR='' @ written i @ '',SOC='' @ written s"
  have "after_key ''VOLT='' ?l = Some (written v @ '',CURR='' @ written i @ '',SOC='' @ written s)"
    "after_key ''CURR='' ?l = Some (written i @ '',SOC='' @ written s)"
    "after_key ''SOC='' ?l = Some (written s)"
    using assms(1,2)
    by (simp_all add: after_key_skip after_key_written
        after_key_here [of "''VOLT=''", simplified] after_key_here [of "''CURR=''", simplified]
        after_key_here [of "''SOC=''", simplified])
  then show ?thesis
    using assms
    by (simp add: parse_response_def read_number_def stod_written stod_written_end ends_numeral_def)
qed

lemma parse_status_report:
  assumes "plain v" "plain i" "plain s"
  shows "parse_response (''+STATUS: BMS_VOLT='' @ written v @ ''V,BMS_CURR='' @ written i @
      ''A,BMS_SOC='' @ written s @ ''%'') st = (None, with_report st v i s)"
proof -
  let ?l = "''+STATUS: BMS_VOLT='' @ written v @ ''V,BMS_CURR='' @ written i @ ''A,BMS_SOC='' @
    written s @ ''%''"
  have "after_key ''BMS_VOLT='' ?l =
      Some (written v @ ''V,BMS_CURR='' @ written i @ ''A,BMS_SOC='' @ written s @ ''%'')"
    "after_key ''BMS_CURR='' ?l = Some (written i @ ''A,BMS_SOC='' @ written s @ ''%'')"
    "after_key ''BMS_SOC='' ?l = Some (written s @ ''%'')"
    using assms(1,2)
    by (simp_all add: after_key_skip after_key_written
        after_key_here [of "''BMS_VOLT=''", simplified] after_key_here [of "''BMS_CURR=''", simplified]
        after_key_here [of "''BMS_SOC=''", simplified])
  then show ?thesis
    using assms
    by (simp add: parse_response_def read_number_def stod_written_end cut_unit_written)
qed

text \<open>Both forms of the battery report are read back: the three numerals of a report, with units or
  without, become the nearest doubles in the cache, and nothing else changes.\<close>

theorem nrf_parses_reports:
  assumes "plain v" "plain i" "plain s"
    and "st' = st\<lparr>bms := \<lparr>bms_voltage = nearest v, bms_current = nearest i, bms_soc = nearest s\<rparr>\<rparr>"
  shows "parse_response (''+BMS: VOLT='' @ written v @ '',CURR='' @ written i @ '',SOC='' @ written s) st =
      (None, st') \<and>
    parse_response (''+STATUS: BMS_VOLT='' @ written v @ ''V,BMS_CURR='' @ written i @
      ''A,BMS_SOC='' @ written s @ ''%'') st = (None, st')"
  unfolding assms(4) using parse_bms_report parse_status_report assms(1-3) by blast

theorem nrf_parses_reports_witness:
  "snd (parse_response ''+STATUS: BMS_VOLT=48.25V,BMS_CURR=-3A,BMS_SOC=87%'' zero_system) =
     zero_system\<lparr>bms := \<lparr>bms_voltage = nearest (False, ''48'', ''25''),
       bms_current = nearest (True, ''3'', []), bms_soc = nearest (False, ''87'', [])\<rparr>\<rparr>"
proof -
  have "plain (False, ''48'', ''25'')" "plain (True, ''3'', [])" "plain (False, ''87'', [])"
    by (simp_all add: plain_def all_digits_def digit_chars)
  from nrf_parses_reports [OF this refl, of zero_system] show ?thesis
    by (simp add: written_def decimal_text_def)
qed

section \<open>Answers that arrive read by read\<close>

text \<open>Each \<open>read\<close> delivers a line, and perhaps more text behind it.\<close>

fun burst_events :: "(string \<times> string \<times> nat) list \<Rightarrow> (line_event \<times> nat) list" where
  "burst_events [] = []"
| "burst_events ((a, b, dt) # bs) =
     (Arrive (hd (octets (a @ [CR, LF] @ b))) (tl (octets (a @ [CR, LF] @ b))), dt) # burst_events bs"

fun burst_time :: "(string \<times> string \<times> nat) list \<Rightarrow> nat" where
  "burst_time [] = 0"
| "burst_time ((a, b, dt) # bs) = dt + burst_time bs"

definition good_bursts :: "(string \<times> string \<times> nat) list \<Rightarrow> bool" where
  "good_bursts bs \<longleftrightarrow> list_all (\<lambda>(a, b, dt). LF \<notin> set a \<and> length (a @ b) \<le> 253) bs"

text \<open>The lines that count.\<close>

definition first_lines :: "(string \<times> string \<times> nat) list \<Rightarrow> string list" where
  "first_lines bs = filter (\<lambda>a. a \<noteq> []) (map fst bs)"

fun parse_lines :: "string list \<Rightarrow> system_status \<Rightarrow> system_status option" where
  "parse_lines [] st = Some st"
| "parse_lines (a # as) st =
     (case parse_response a st of (None, st') \<Rightarrow> parse_lines as st' | (Some e, st') \<Rightarrow> None)"

lemma read_line_event:
  assumes "0 \<le> fd l" "rxbuf l = []" "script l = burst_events ((a, b, dt) # bs) @ es" "LF \<notin> set a"
    "length (a @ b) \<le> 253" "0 < t"
  shows "nrf_read_line t l = (Some a, l\<lparr>script := burst_events bs @ es, clock := clock l + dt\<rparr>)"
proof -
  have "takeWhile (\<lambda>c. c \<noteq> LF) (a @ [CR, LF] @ b) = a @ [CR]"
    using assms(4) by (induction a) auto
  then have line: "take_line [] (a @ [CR, LF] @ b) = Inl a"
    by (simp add: take_line_eq strip_cr_def)
  obtain x xs where o: "octets (a @ [CR, LF] @ b) = x # xs"
    by (cases "octets (a @ [CR, LF] @ b)") (simp_all add: octets_def)
  then have "length (x # xs) \<le> 255"
    using assms(5) length_octets(1) [of "a @ [CR, LF] @ b"] by simp
  moreover have "burst_events ((a, b, dt) # bs) = (Arrive x xs, dt) # burst_events bs"
    by (simp only: burst_events.simps o list.sel)
  with assms(3) have "script l = (Arrive x xs, dt) # burst_events bs @ es" by simp
  ultimately have "poll_then_read 255 t l =
      (ReadBytes (octets (a @ [CR, LF] @ b)), l\<lparr>script := burst_events bs @ es, clock := clock l + dt\<rparr>)"
    using assms(2) unfolding o by (cases l) (simp add: poll_then_read_def)
  with line show ?thesis
    using assms(1,6) by (simp add: nrf_read_line_def nrf_read_loop.simps [of t _ "[]" l] del: append.simps)
qed

lemma read_line_quiet:
  assumes "0 \<le> fd l" "rxbuf l = []" "script l = (Silent, dt) # es" "t * 1000000 \<le> dt" "0 < t"
  shows "nrf_read_line t l = (None, l\<lparr>script := es, clock := clock l + dt\<rparr>)"
proof -
  have "t \<le> dt div 1000000" using assms(4) by (simp add: less_eq_div_iff_mult_less_eq)
  with assms show ?thesis
    by (simp add: nrf_read_line_def nrf_read_loop.simps poll_then_read_def)
qed

lemma drain_bursts:
  assumes "good_bursts bs" "0 \<le> fd l" "rxbuf l = []"
    "script l = burst_events bs @ (Silent, dt) # es" "t * 1000000 \<le> dt" "0 < t"
    "parse_lines (first_lines bs) st = Some st'"
  shows "nrf_drain t got resp st l =
    (None, got \<or> first_lines bs \<noteq> [], last (resp # first_lines bs), st',
     l\<lparr>script := es, clock := clock l + burst_time bs + dt\<rparr>)"
  using assms
proof (induction bs arbitrary: got resp st l)
  case Nil
  then show ?case by (simp add: first_lines_def nrf_drain.simps [of t got] read_line_quiet)
next
  case (Cons x bs)
  obtain a b da where x: "x = (a, b, da)" by (cases x)
  with Cons.prems(1) have a: "LF \<notin> set a" "length (a @ b) \<le> 253" and bs: "good_bursts bs"
    by (auto simp: good_bursts_def)
  let ?m = "l\<lparr>script := burst_events bs @ (Silent, dt) # es, clock := clock l + da\<rparr>"
  have read: "nrf_read_line t l = (Some a, ?m)"
    using Cons.prems(2-6) x a by (intro read_line_event) auto
  show ?case
  proof (cases "a = []")
    case True
    then have lines: "first_lines (x # bs) = first_lines bs" by (simp add: x first_lines_def)
    have "nrf_drain t got resp st l = nrf_drain t got resp st ?m"
      using read True by (simp add: nrf_drain.simps [of t got resp st l])
    also have "\<dots> = (None, got \<or> first_lines bs \<noteq> [], last (resp # first_lines bs), st',
        ?m\<lparr>script := es, clock := clock ?m + burst_time bs + dt\<rparr>)"
      using Cons.prems bs lines by (intro Cons.IH) simp_all
    finally show ?thesis by (simp add: x lines [unfolded x] ac_simps)
  next
    case False
    then have lines: "first_lines (x # bs) = a # first_lines bs" by (simp add: x first_lines_def)
    with Cons.prems(7) obtain st1 where p: "parse_response a st = (None, st1)"
      and rest: "parse_lines (first_lines bs) st1 = Some st'"
      by (auto split: prod.splits option.splits)
    have "nrf_drain t got resp st l = nrf_drain t True a st1 ?m"
      using read False p by (simp add: nrf_drain.simps [of t got resp st l])
    also have "\<dots> = (None, True \<or> first_lines bs \<noteq> [], last (a # first_lines bs), st',
        ?m\<lparr>script := es, clock := clock ?m + burst_time bs + dt\<rparr>)"
      using Cons.prems bs rest by (intro Cons.IH) simp_all
    finally show ?thesis by (simp add: x lines [unfolded x] ac_simps)
  qed
qed

lemma send_and_read_bursts:
  assumes "good_bursts bs" "writes_ok l" "rxbuf l = []"
    "script l = burst_events bs @ (Silent, dt) # es" "t * 1000000 \<le> dt" "0 < t"
    "parse_lines (first_lines bs) st = Some st'"
  shows "nrf_send_and_read cmd resp t st l =
    (None, first_lines bs \<noteq> [], last (resp # first_lines bs), st',
     l\<lparr>txlog := txlog l @ [octets (cmd @ [CR, LF])], script := es,
       clock := clock l + burst_time bs + dt\<rparr>)"
proof -
  have "nrf_send_cmd cmd l = (True, l\<lparr>txlog := txlog l @ [octets (cmd @ [CR, LF])]\<rparr>)"
    using assms(2) by (simp add: nrf_send_cmd_def port_simps writes_ok_def write_raw_def)
  moreover have "nrf_drain t False resp st (l\<lparr>txlog := txlog l @ [octets (cmd @ [CR, LF])]\<rparr>) =
    (None, False \<or> first_lines bs \<noteq> [], last (resp # first_lines bs), st',
     l\<lparr>txlog := txlog l @ [octets (cmd @ [CR, LF])], script := es,
       clock := clock l + burst_time bs + dt\<rparr>)"
    using assms by (subst drain_bursts [of bs _ dt es]) (auto simp: writes_ok_def)
  ultimately show ?thesis by (simp add: nrf_send_and_read_def)
qed

text \<open>C37. Any line at all makes a command succeed. However many reads deliver something before the
  line falls silent for the timeout, each a line \<open>a\<close> and behind it anything, \<open>b\<close>: as long as no line
  raises, a command returns true exactly when one of the lines \<open>a\<close> is not empty, with the last such
  line as the response, whatever it says. Of each read only the first line counts; the rest \<open>b\<close> is
  lost, even if it holds whole lines.\<close>

theorem nrf_command_succeeds_on_any_line:
  assumes "writes_ok l" "rxbuf l = []" "script l = burst_events bs @ (Silent, dt) # es"
    "t * 1000000 \<le> dt" "0 < t"
    and "list_all (\<lambda>(a, b, dt). LF \<notin> set a \<and> length (a @ b) \<le> 253) bs"
    and "parse_lines (filter (\<lambda>a. a \<noteq> []) (map fst bs)) st = Some st'"
  shows "nrf_send_and_read cmd resp t st l =
    (None, (\<exists>a \<in> fst ` set bs. a \<noteq> []), last (resp # filter (\<lambda>a. a \<noteq> []) (map fst bs)), st',
     l\<lparr>txlog := txlog l @ [octets (cmd @ [CR, LF])], script := es,
       clock := clock l + burst_time bs + dt\<rparr>)"
proof -
  have "first_lines bs \<noteq> [] \<longleftrightarrow> (\<exists>a \<in> fst ` set bs. a \<noteq> [])"
    by (auto simp: first_lines_def filter_empty_conv)
  then show ?thesis
    using send_and_read_bursts [of bs l dt es t st st' cmd resp] assms
    by (simp add: good_bursts_def first_lines_def)
qed

text \<open>The answer is an error, and the report behind it is lost.\<close>

theorem nrf_command_succeeds_on_any_line_witness:
  "\<exists>l. nrf_send_and_read ''AT+POWER48=0'' [] 500 zero_system
     ((byte_line [])\<lparr>script := burst_events [(''ERROR'', ''+ESTOP: ACTIVE'' @ [CR, LF], 1000)] @
       [(Silent, 500000000)]\<rparr>) = (None, True, ''ERROR'', zero_system, l)"
proof -
  let ?bs = "[(''ERROR'', ''+ESTOP: ACTIVE'' @ [CR, LF], 1000)] :: (string \<times> string \<times> nat) list"
    and ?st = zero_system
  let ?l = "(byte_line [])\<lparr>script := burst_events ?bs @ [(Silent, 500000000)]\<rparr>"
  have "nrf_send_and_read ''AT+POWER48=0'' [] 500 ?st ?l =
    (None, (\<exists>a \<in> fst ` set ?bs. a \<noteq> []), last ([] # filter (\<lambda>a. a \<noteq> []) (map fst ?bs)), ?st,
     ?l\<lparr>txlog := txlog ?l @ [octets (''AT+POWER48=0'' @ [CR, LF])], script := [],
       clock := clock ?l + burst_time ?bs + 500000000\<rparr>)"
  proof (rule nrf_command_succeeds_on_any_line)
    show "parse_lines (filter (\<lambda>a. a \<noteq> []) (map fst ?bs)) ?st = Some ?st"
      by (simp add: parse_response_def)
  qed (simp_all add: writes_ok_def)
  then show ?thesis by simp
qed

section \<open>Lines that arrive one by one\<close>

text \<open>Each line in a \<open>read\<close> of its own, then silence for at least the timeout.\<close>

definition line_events :: "(string \<times> nat) list \<Rightarrow> (line_event \<times> nat) list" where
  "line_events ls = burst_events (map (\<lambda>(a, dt). (a, [], dt)) ls)"

definition good_lines :: "(string \<times> nat) list \<Rightarrow> bool" where
  "good_lines ls \<longleftrightarrow> (\<forall>a \<in> fst ` set ls. a \<noteq> [] \<and> LF \<notin> set a \<and> length a \<le> 253)"

lemma send_and_read_lines:
  assumes "good_lines ls" "writes_ok l" "rxbuf l = []"
    "script l = line_events ls @ (Silent, dt) # es" "t * 1000000 \<le> dt" "0 < t"
    "parse_lines (map fst ls) st = Some st'"
  shows "nrf_send_and_read cmd resp t st l =
    (None, ls \<noteq> [], last (resp # map fst ls), st',
     l\<lparr>txlog := txlog l @ [octets (cmd @ [CR, LF])], script := es,
       clock := clock l + sum_list (map snd ls) + dt\<rparr>)"
proof -
  let ?bs = "map (\<lambda>(a, dt). (a, [], dt)) ls"
  have lines: "first_lines ?bs = map fst ls"
    using assms(1) by (induction ls) (auto simp: first_lines_def good_lines_def)
  moreover have "good_bursts ?bs"
    using assms(1) by (auto simp: good_bursts_def good_lines_def list_all_iff)
  moreover have "burst_time ?bs = sum_list (map snd ls)" by (induction ls) auto
  ultimately show ?thesis
    using send_and_read_bursts [of ?bs l dt es t st st' cmd resp] assms(2-7)
    by (simp add: line_events_def)
qed

section \<open>From the board to the getters\<close>

lemma written_length: "plain n \<Longrightarrow> length (written n) \<le> 42"
  by (auto simp: plain_def written_def decimal_text_def)

definition report_text :: "numeral \<Rightarrow> numeral \<Rightarrow> numeral \<Rightarrow> string" where
  "report_text v i s = ''+BMS: VOLT='' @ written v @ '',CURR='' @ written i @ '',SOC='' @ written s"

lemma good_report:
  assumes "plain v" "plain i" "plain s" "good_lines ls"
  shows "good_lines ((report_text v i s, dt) # ls)"
  using assms written_length [OF assms(1)] written_length [OF assms(2)] written_length [OF assms(3)]
    written_chars [of _ LF]
  by (auto simp: good_lines_def report_text_def)

text \<open>C36. From the board to the getters: when the board answers the first query of a turn of the
  polling thread with a report and an OK, each line apart, and the second with any lines that can be
  parsed, the turn sends exactly the two queries and ends with the three numbers of the report in
  the getters.\<close>

theorem nrf_poll_shows_report:
  assumes "writes_ok (nrf_link d)" "rxbuf (nrf_link d) = []" "plain v" "plain i" "plain s"
    and "script (nrf_link d) = line_events [(report_text v i s, t1), (''OK'', t2)] @ (Silent, w1) #
      line_events ls @ (Silent, w2) # es"
    and "300 * 1000000 \<le> w1" "200 * 1000000 \<le> w2" "good_lines ls"
    and "parse_lines (map fst ls) (with_report (nrf_status d) v i s) \<noteq> None"
  shows "\<exists>d'. nrf_poll_turn d = Inr d' \<and> get_voltage (nrf_view d') = shown (nearest v) \<and>
    get_current (nrf_view d') = shown (nearest i) \<and> get_percentage (nrf_view d') = shown (nearest s) \<and>
    is_connected (nrf_view d') \<and> script (nrf_link d') = es \<and>
    txlog (nrf_link d') = txlog (nrf_link d) @
      [octets (''AT+GETBMS?'' @ [CR, LF]), octets (''AT+STATUS?'' @ [CR, LF])]"
proof -
  let ?st = "with_report (nrf_status d) v i s"
  let ?l = "(nrf_link d)\<lparr>txlog := txlog (nrf_link d) @ [octets (''AT+GETBMS?'' @ [CR, LF])],
    script := line_events ls @ (Silent, w2) # es, clock := clock (nrf_link d) + (t1 + t2) + w1\<rparr>"
  have ok: "good_lines [(''OK'', t2)]" by (simp add: good_lines_def)
  have "parse_lines [report_text v i s, ''OK''] (nrf_status d) = Some ?st"
    using parse_bms_report [OF assms(3-5), of "nrf_status d"]
    by (simp add: report_text_def) (simp add: parse_response_def)
  then have first: "nrf_send_and_read ''AT+GETBMS?'' [] 300 (nrf_status d) (nrf_link d) =
      (None, True, ''OK'', ?st, ?l)"
    using send_and_read_lines [OF good_report [OF assms(3-5) ok] assms(1,2,6,7)] by simp
  from assms(10) obtain st where st: "parse_lines (map fst ls) ?st = Some st" by blast
  have "writes_ok (usleep 500000 ?l)" "rxbuf (usleep 500000 ?l) = []"
    using assms(1,2) by (simp_all add: writes_ok_def usleep_def)
  from send_and_read_lines [OF assms(9) this _ assms(8) _ st, of es "''AT+STATUS?''" "''OK''"] first
  have "\<exists>d'. nrf_poll_turn d = Inr d' \<and> nrf_cached d' = bms ?st \<and> 0 \<le> fd (nrf_link d') \<and>
    script (nrf_link d') = es \<and> txlog (nrf_link d') = txlog (nrf_link d) @
      [octets (''AT+GETBMS?'' @ [CR, LF]), octets (''AT+STATUS?'' @ [CR, LF])]"
    using assms(1) by (simp add: nrf_poll_turn_def usleep_def writes_ok_def)
  then show ?thesis by (auto simp: nrf_view_def)
qed

definition demo_board :: nrf_driver where
  "demo_board = \<lparr>nrf_link = \<lparr>fd = 3, rxbuf = [],
       script = line_events [(report_text (False, ''48'', ''25'') (True, ''1'', ''5'') (False, ''87'', []), 9000),
           (''OK'', 1000)] @ (Silent, 300000000) #
         line_events [(''+STATUS: VARIANT=A1,48V=ON'', 9000)] @ [(Silent, 200000000)],
       clock = 0, txlog = [], writes = [], opens = [], line_conf = None\<rparr>,
     nrf_status = zero_system, nrf_cached = zero_cache, nrf_running = True\<rparr>"

theorem nrf_poll_shows_report_witness:
  "\<exists>d'. nrf_poll_turn demo_board = Inr d' \<and>
     get_voltage (nrf_view d') = shown (nearest (False, ''48'', ''25''))"
proof -
  have "plain (False, ''48'', ''25'')" "plain (True, ''1'', ''5'')" "plain (False, ''87'', [])"
    by (simp_all add: plain_def all_digits_def digit_chars)
  moreover have "good_lines [(''+STATUS: VARIANT=A1,48V=ON'', 9000)]" by (simp add: good_lines_def)
  moreover have "parse_lines [''+STATUS: VARIANT=A1,48V=ON''] st \<noteq> None" for st
    by (simp add: parse_response_def)
  ultimately show ?thesis
    using nrf_poll_shows_report [of demo_board "(False, ''48'', ''25'')" "(True, ''1'', ''5'')"
      "(False, ''87'', [])" 9000 1000 300000000 "[(''+STATUS: VARIANT=A1,48V=ON'', 9000)]" 200000000 "[]"]
    by (auto simp: demo_board_def writes_ok_def)
qed

section \<open>Text that is no number\<close>

text \<open>C38. A report whose first number cannot be read ends the process: the exception of \<open>stod\<close> leaves
  the polling thread, within any number of turns, and before any later query is sent.\<close>

theorem nrf_garbled_report_ends_process:
  assumes "delivers ((''+BMS: VOLT='' @ x) @ [CR, LF] @ b) (nrf_link d)" "LF \<notin> set x" "stod x = Inl e"
  shows "nrf_poll_loop (Suc n) d = Inl e"
proof -
  have "after_key ''VOLT='' (''+BMS: VOLT='' @ x) = Some x"
    by (simp add: after_key_skip after_key_here [of "''VOLT=''", simplified])
  then have "fst (parse_response (''+BMS: VOLT='' @ x) st) = Some e" for st
    using assms(3) by (simp add: parse_response_def read_number_def split: option.split)
  then obtain st' where "parse_response (''+BMS: VOLT='' @ x) (nrf_status d) = (Some e, st')"
    by (metis prod.collapse)
  then have "fst (nrf_drain 300 False [] (nrf_status d) (nrf_link d\<lparr>txlog := tx\<rparr>)) = Some e" for tx
    using drain_delivered [OF delivers_sent(2) [OF assms(1)], of 300] assms(2) by simp
  then have "fst (nrf_send_and_read ''AT+GETBMS?'' [] 300 (nrf_status d) (nrf_link d)) = Some e"
    by (simp add: nrf_send_and_read_def delivers_sent(1) [OF assms(1)])
  then have "nrf_poll_turn d = Inl e"
    by (auto simp: nrf_poll_turn_def split: prod.split)
  then show ?thesis by simp
qed

theorem nrf_garbled_report_ends_process_witness:
  "nrf_poll_loop 1000 \<lparr>nrf_link = text_link (''+BMS: VOLT=--.--,CURR=0,SOC=0'' @ [CR, LF]),
     nrf_status = zero_system, nrf_cached = zero_cache, nrf_running = True\<rparr> = Inl Invalid_argument"
proof -
  let ?x = "''--.--,CURR=0,SOC=0''"
  let ?d = "\<lparr>nrf_link = text_link (''+BMS: VOLT='' @ ?x @ [CR, LF]),
     nrf_status = zero_system, nrf_cached = zero_cache, nrf_running = True\<rparr>"
  have line: "delivers ((''+BMS: VOLT='' @ ?x) @ [CR, LF] @ []) (nrf_link ?d)"
    using text_link_delivers [of "''+BMS: VOLT='' @ ?x @ [CR, LF]"] by simp
  have bad: "stod ?x = Inl Invalid_argument" by code_simp
  have "nrf_poll_loop (Suc 999) ?d = Inl Invalid_argument"
    by (rule nrf_garbled_report_ends_process [OF line _ bad]) simp
  then show ?thesis by (simp del: nrf_poll_loop.simps)
qed

end
