(* ===== verification/Nrf_Threads.thy ===== *)
theory Nrf_Threads
  imports Nrf_Driver "HOL-Library.Sublist"
begin

text \<open>
  The two threads of \<open>NrfPmicDriver\<close> on one port: the polling thread and a caller of the commands,
  which share \<open>fd_\<close> and \<open>status_\<close> without a lock. A schedule is a list of events: bytes arrive, a
  thread writes its query, a \<open>read()\<close> of one thread takes up to 255 waiting bytes, a \<open>read_line\<close> gives
  up. Time is left out, so that a wait may end at any moment, and each event is taken to be atomic:
  the C++ memory model gives the unsynchronised accesses to \<open>status_\<close> no meaning at all.
\<close>

section \<open>The threads\<close>

text \<open>A call of \<open>send_and_read\<close> that waits in \<open>read_line\<close>: the line so far, the response and whether a
  line came.\<close>

record nrf_call =
  call_line :: string
  call_response :: string
  call_got :: bool

text \<open>Where the polling thread is in a turn of \<open>poll_loop\<close>; the second query starts with the response of
  the first.\<close>

datatype poll_point =
  AskBms | WaitBms nrf_call | AskStatus string | WaitStatus nrf_call

record nrf_threads =
  thr_driver :: nrf_driver
  thr_poll :: poll_point
  thr_call :: "nrf_call option"                    \<comment> \<open>the command of the caller, while one runs\<close>
  thr_results :: "(conversion_error + bool) list"  \<comment> \<open>what the commands gave the caller\<close>
  thr_ended :: "conversion_error option"           \<comment> \<open>the exception that ended the process\<close>
  thr_parsed :: "string list"                      \<comment> \<open>the lines handed to \<open>parse_response\<close>, a record
                                                     for the statements only\<close>

datatype nrf_event =
  Arrives bytes | PollMoves | PollWaitEnds | CallBegins string | CallReads | CallWaitEnds

section \<open>Steps\<close>

text \<open>\<open>send_and_read\<close> up to its first \<open>read_line\<close>; without a whole write it is over.\<close>

definition begin_call :: "string \<Rightarrow> string \<Rightarrow> nrf_driver \<Rightarrow> nrf_call option \<times> nrf_driver" where
  "begin_call cmd response d =
     (let (sent, l) = nrf_send_cmd cmd (nrf_link d)
      in (if sent then Some \<lparr>call_line = [], call_response = response, call_got = False\<rparr> else None,
          d\<lparr>nrf_link := l\<rparr>))"

text \<open>One \<open>read()\<close> with data waiting, and what the loops of \<open>read_line\<close> and \<open>send_and_read\<close> do with the
  bytes up to the next \<open>poll\<close>. The last component is the line that was parsed.\<close>

definition call_step ::
    "nrf_call \<Rightarrow> nrf_driver \<Rightarrow> conversion_error option \<times> nrf_call \<times> nrf_driver \<times> string list" where
  "call_step c d =
     (let rx = rxbuf (nrf_link d);
          d = d\<lparr>nrf_link := (nrf_link d)\<lparr>rxbuf := drop 255 rx\<rparr>\<rparr>
      in (case take_line (call_line c) (chars (take 255 rx)) of
            Inr line \<Rightarrow> (None, c\<lparr>call_line := line\<rparr>, d, [])
          | Inl acc \<Rightarrow>
              if acc = [] then (None, c\<lparr>call_line := []\<rparr>, d, [])
              else (case parse_response acc (nrf_status d) of
                      (Some e, st) \<Rightarrow>
                        (Some e, c\<lparr>call_line := [], call_response := acc\<rparr>, d\<lparr>nrf_status := st\<rparr>, [acc])
                    | (None, st) \<Rightarrow>
                        (None, \<lparr>call_line = [], call_response = acc, call_got = True\<rparr>,
                         d\<lparr>nrf_status := st\<rparr>, [acc]))))"

text \<open>The polling thread: it writes a query when it is due, else it reads. When the query of the battery
  cannot be written the cache stays; an exception ends the process.\<close>

definition poll_moves :: "nrf_threads \<Rightarrow> nrf_threads" where
  "poll_moves t =
     (let waiting = (rxbuf (nrf_link (thr_driver t)) \<noteq> []);
          reads = (\<lambda>point c.
            (case call_step c (thr_driver t) of
               (exn, c', d, ls) \<Rightarrow>
                 t\<lparr>thr_driver := d, thr_poll := point c', thr_ended := exn,
                   thr_parsed := thr_parsed t @ ls\<rparr>))
      in (case thr_poll t of
            AskBms \<Rightarrow>
              if nrf_running (thr_driver t) then
                (case begin_call ''AT+GETBMS?'' [] (thr_driver t) of
                   (Some c, d) \<Rightarrow> t\<lparr>thr_driver := d, thr_poll := WaitBms c\<rparr>
                 | (None, d) \<Rightarrow> t\<lparr>thr_driver := d, thr_poll := AskStatus []\<rparr>)
              else t
          | AskStatus resp \<Rightarrow>
              (case begin_call ''AT+STATUS?'' resp (thr_driver t) of
                 (Some c, d) \<Rightarrow> t\<lparr>thr_driver := d, thr_poll := WaitStatus c\<rparr>
               | (None, d) \<Rightarrow> t\<lparr>thr_driver := d, thr_poll := AskBms\<rparr>)
          | WaitBms c \<Rightarrow> if waiting then reads WaitBms c else t
          | WaitStatus c \<Rightarrow> if waiting then reads WaitStatus c else t))"

text \<open>The wait of the polling thread ends, by its timeout or by an error of \<open>poll\<close> or \<open>read\<close>: the line
  so far is dropped, and after the first query the cache is refreshed when there was a response.\<close>

definition poll_wait_ends :: "nrf_threads \<Rightarrow> nrf_threads" where
  "poll_wait_ends t =
     (let d = thr_driver t
      in (case thr_poll t of
            WaitBms c \<Rightarrow>
              t\<lparr>thr_driver := (if call_response c \<noteq> [] then d\<lparr>nrf_cached := bms (nrf_status d)\<rparr> else d),
                thr_poll := AskStatus (call_response c)\<rparr>
          | WaitStatus c \<Rightarrow> t\<lparr>thr_poll := AskBms\<rparr>
          | _ \<Rightarrow> t))"

text \<open>The caller runs one command at a time; an exception reaches it and ends the command.\<close>

definition call_begins :: "string \<Rightarrow> nrf_threads \<Rightarrow> nrf_threads" where
  "call_begins cmd t =
     (case thr_call t of
        Some c \<Rightarrow> t
      | None \<Rightarrow>
          (case begin_call cmd [] (thr_driver t) of
             (Some c, d) \<Rightarrow> t\<lparr>thr_driver := d, thr_call := Some c\<rparr>
           | (None, d) \<Rightarrow> t\<lparr>thr_driver := d, thr_results := thr_results t @ [Inr False]\<rparr>))"

definition call_reads :: "nrf_threads \<Rightarrow> nrf_threads" where
  "call_reads t =
     (case thr_call t of
        None \<Rightarrow> t
      | Some c \<Rightarrow>
          if rxbuf (nrf_link (thr_driver t)) = [] then t
          else (case call_step c (thr_driver t) of
                  (None, c', d, ls) \<Rightarrow>
                    t\<lparr>thr_driver := d, thr_call := Some c', thr_parsed := thr_parsed t @ ls\<rparr>
                | (Some e, c', d, ls) \<Rightarrow>
                    t\<lparr>thr_driver := d, thr_call := None, thr_results := thr_results t @ [Inl e],
                      thr_parsed := thr_parsed t @ ls\<rparr>))"

definition call_wait_ends :: "nrf_threads \<Rightarrow> nrf_threads" where
  "call_wait_ends t =
     (case thr_call t of
        None \<Rightarrow> t
      | Some c \<Rightarrow> t\<lparr>thr_call := None, thr_results := thr_results t @ [Inr (call_got c)]\<rparr>)"

definition arrives :: "bytes \<Rightarrow> nrf_threads \<Rightarrow> nrf_threads" where
  "arrives bs t =
     (let d = thr_driver t; l = nrf_link d
      in t\<lparr>thr_driver := d\<lparr>nrf_link := l\<lparr>rxbuf := rxbuf l @ bs\<rparr>\<rparr>\<rparr>)"

definition thread_step :: "nrf_event \<Rightarrow> nrf_threads \<Rightarrow> nrf_threads" where
  "thread_step ev t =
     (if thr_ended t \<noteq> None then t
      else (case ev of
              Arrives bs \<Rightarrow> arrives bs t
            | PollMoves \<Rightarrow> poll_moves t
            | PollWaitEnds \<Rightarrow> poll_wait_ends t
            | CallBegins cmd \<Rightarrow> call_begins cmd t
            | CallReads \<Rightarrow> call_reads t
            | CallWaitEnds \<Rightarrow> call_wait_ends t))"

definition run_threads :: "nrf_event list \<Rightarrow> nrf_threads \<Rightarrow> nrf_threads" where
  "run_threads evs t = fold thread_step evs t"

definition start_threads :: "nrf_driver \<Rightarrow> nrf_threads" where
  "start_threads d = \<lparr>thr_driver = d, thr_poll = AskBms, thr_call = None, thr_results = [],
     thr_ended = None, thr_parsed = []\<rparr>"

text \<open>What the board has sent in a schedule.\<close>

fun board_text :: "nrf_event list \<Rightarrow> string" where
  "board_text [] = []"
| "board_text (Arrives bs # evs) = chars bs @ board_text evs"
| "board_text (_ # evs) = board_text evs"

section \<open>One reader at a time\<close>

definition poll_call :: "nrf_threads \<Rightarrow> nrf_call option" where
  "poll_call t = (case thr_poll t of WaitBms c \<Rightarrow> Some c | WaitStatus c \<Rightarrow> Some c | _ \<Rightarrow> None)"

definition exclusive :: "nrf_threads \<Rightarrow> bool" where
  "exclusive t \<longleftrightarrow> poll_call t = None \<or> thr_call t = None"

fun exclusive_run :: "nrf_event list \<Rightarrow> nrf_threads \<Rightarrow> bool" where
  "exclusive_run [] t = exclusive t"
| "exclusive_run (ev # evs) t \<longleftrightarrow> exclusive t \<and> exclusive_run evs (thread_step ev t)"

text \<open>The end of one line of the text, or all of it: without a line feed, and directly before a line
  end.\<close>

definition from_one_line :: "string \<Rightarrow> string \<Rightarrow> bool" where
  "from_one_line text a \<longleftrightarrow> LF \<notin> set a \<and>
     (\<exists>u w. text = u @ a @ [LF] @ w \<or> text = u @ a @ [CR, LF] @ w)"

lemma from_one_lineI:
  "LF \<notin> set a \<Longrightarrow> text = u @ a @ LF # w \<or> text = u @ a @ CR # LF # w \<Longrightarrow> from_one_line text a"
  by (auto simp: from_one_line_def)

lemma from_one_line_more:
  assumes "from_one_line text a"
  shows "from_one_line (text @ s) a"
proof -
  from assms obtain u w where "LF \<notin> set a" "text = u @ a @ LF # w \<or> text = u @ a @ CR # LF # w"
    by (auto simp: from_one_line_def)
  then show ?thesis by (intro from_one_lineI [where u = u and w = "w @ s"]) auto
qed

text \<open>The bytes taken so far: those a waiting call has kept are the last of them.\<close>

definition keeps_up :: "string \<Rightarrow> nrf_call option \<Rightarrow> bool" where
  "keeps_up taken co \<longleftrightarrow> (\<forall>c. co = Some c \<longrightarrow> suffix (call_line c) taken \<and> LF \<notin> set (call_line c))"

definition in_step :: "string \<Rightarrow> nrf_threads \<Rightarrow> bool" where
  "in_step text t \<longleftrightarrow> (\<exists>taken. text = taken @ chars (rxbuf (nrf_link (thr_driver t))) \<and>
     list_all (from_one_line taken) (thr_parsed t) \<and> keeps_up taken (poll_call t) \<and>
     keeps_up taken (thr_call t))"

lemma chars_append [simp]: "chars (a @ b) = chars a @ chars b"
  by (simp add: chars_def)

lemma keeps_up_simps [simp]:
  "keeps_up taken None"
  "keeps_up taken (Some c) \<longleftrightarrow> suffix (call_line c) taken \<and> LF \<notin> set (call_line c)"
  by (auto simp: keeps_up_def)

lemma strip_cr_cases: "s = strip_cr s \<or> s = strip_cr s @ [CR]"
  by (cases s rule: rev_cases) (auto simp: strip_cr_def)

lemma strip_cr_set: "set (strip_cr s) \<subseteq> set s"
  by (auto simp: strip_cr_def dest: in_set_butlastD)

lemma taken_line:
  assumes "take_line line cs = Inl acc" "suffix line taken" "LF \<notin> set line"
  shows "from_one_line (taken @ cs) acc"
proof -
  let ?x = "takeWhile (\<lambda>c. c \<noteq> LF) cs"
  from assms(1,3) have LF: "LF \<in> set cs" and acc: "acc = strip_cr (line @ ?x)"
    by (auto simp: take_line_eq split: if_splits)
  have "LF \<notin> set ?x" by (auto dest: set_takeWhileD)
  have "dropWhile (\<lambda>c. c \<noteq> LF) cs \<noteq> []" using LF by (auto simp: dropWhile_eq_Nil_conv)
  then obtain r where r: "dropWhile (\<lambda>c. c \<noteq> LF) cs = LF # r"
    using hd_dropWhile [of "\<lambda>c. c \<noteq> LF" cs] by (cases "dropWhile (\<lambda>c. c \<noteq> LF) cs") auto
  obtain u where u: "taken = u @ line" using assms(2) by (auto simp: suffix_def)
  have all: "taken @ cs = u @ (line @ ?x) @ LF # r"
    using u r takeWhile_dropWhile_id [of "\<lambda>c. c \<noteq> LF" cs] by simp
  have "LF \<notin> set (line @ ?x)" using assms(3) \<open>LF \<notin> set ?x\<close> by simp
  then have "LF \<notin> set acc" using strip_cr_set [of "line @ ?x"] acc by blast
  moreover from strip_cr_cases [of "line @ ?x"] have "line @ ?x = acc \<or> line @ ?x = acc @ [CR]"
    unfolding acc .
  with all have "taken @ cs = u @ acc @ LF # r \<or> taken @ cs = u @ acc @ CR # LF # r" by auto
  ultimately show ?thesis by (rule from_one_lineI)
qed

lemma call_step_keeps:
  assumes "call_step c d = (exn, c', d', ls)" "text = taken @ chars (rxbuf (nrf_link d))"
    "keeps_up taken (Some c)"
  obtains got where "text = (taken @ got) @ chars (rxbuf (nrf_link d'))"
    "keeps_up (taken @ got) (Some c')" "list_all (from_one_line (taken @ got)) ls"
proof (rule that)
  let ?got = "chars (take 255 (rxbuf (nrf_link d)))"
  have "nrf_link d' = (nrf_link d)\<lparr>rxbuf := drop 255 (rxbuf (nrf_link d))\<rparr>"
    using assms(1) by (auto simp: call_step_def Let_def split: sum.splits if_splits prod.splits option.splits)
  then show "text = (taken @ ?got) @ chars (rxbuf (nrf_link d'))"
    using assms(2) by (simp flip: chars_append)
  have part: "keeps_up (taken @ ?got) (Some (c\<lparr>call_line := line\<rparr>))"
    if "take_line (call_line c) ?got = Inr line" for line
    using that assms(3) by (auto simp: take_line_eq suffix_def split: if_splits)
  then show "keeps_up (taken @ ?got) (Some c')"
    using assms(1) by (auto simp: call_step_def Let_def split: sum.splits if_splits prod.splits option.splits)
  show "list_all (from_one_line (taken @ ?got)) ls"
    using assms(1,3) taken_line [of "call_line c" ?got _ taken]
    by (auto simp: call_step_def Let_def split: sum.splits if_splits prod.splits option.splits)
qed

lemma begin_call_fields:
  assumes "begin_call cmd resp d = (co, d')"
  shows "rxbuf (nrf_link d') = rxbuf (nrf_link d)" "co = Some c \<Longrightarrow> call_line c = []"
  using assms
  by (auto simp: begin_call_def nrf_send_cmd_def write_raw_def Let_def split: prod.splits if_splits
      list.splits option.splits)

lemma list_all_more:
  "list_all (from_one_line taken) as \<Longrightarrow> list_all (from_one_line (taken @ got)) as"
  by (auto simp: list_all_iff intro: from_one_line_more)

lemma in_step_reads:
  assumes "in_step text t" "call_step c (thr_driver t) = (exn, c', d, ls)"
    and "keeps_up taken (Some c)" "text = taken @ chars (rxbuf (nrf_link (thr_driver t)))"
    and "thr_driver t' = d" "thr_parsed t' = thr_parsed t @ ls"
    and "poll_call t' \<in> {None, Some c'}" "thr_call t' \<in> {None, Some c'}"
  shows "in_step text t'"
proof -
  from assms(1,4) have parsed: "list_all (from_one_line taken) (thr_parsed t)"
    by (auto simp: in_step_def)
  from call_step_keeps [OF assms(2,4,3)] obtain got where
    "text = (taken @ got) @ chars (rxbuf (nrf_link d))" "keeps_up (taken @ got) (Some c')"
    "list_all (from_one_line (taken @ got)) ls" .
  with assms(5-8) list_all_more [OF parsed] show ?thesis
    unfolding in_step_def by (intro exI [of _ "taken @ got"]) auto
qed

lemma in_step_poll_moves:
  assumes "in_step text t" "exclusive t"
  shows "in_step text (poll_moves t)"
proof -
  from assms(1) obtain taken where taken: "text = taken @ chars (rxbuf (nrf_link (thr_driver t)))"
    "list_all (from_one_line taken) (thr_parsed t)" "keeps_up taken (poll_call t)"
    "keeps_up taken (thr_call t)"
    by (auto simp: in_step_def)
  have begins: "in_step text (t\<lparr>thr_driver := d, thr_poll := p\<rparr>)"
    if "begin_call cmd resp (thr_driver t) = (co, d)" "p = AskStatus x \<or> p = AskBms \<or>
      (\<exists>c. co = Some c \<and> (p = WaitBms c \<or> p = WaitStatus c))" for cmd resp co d p x
    using that(2) taken begin_call_fields [OF that(1)] unfolding in_step_def
    by (intro exI [of _ taken]) (auto simp: poll_call_def)
  have reads: "in_step text (t\<lparr>thr_driver := d, thr_poll := p, thr_ended := exn,
      thr_parsed := thr_parsed t @ ls\<rparr>)"
    if "call_step c (thr_driver t) = (exn, c', d, ls)" "poll_call t = Some c"
      "p = WaitBms c' \<or> p = WaitStatus c'" for c exn c' d ls p
    by (rule in_step_reads [OF assms(1) that(1) _ taken(1)])
      (use that(2,3) taken(3) assms(2) in \<open>auto simp: exclusive_def poll_call_def\<close>)
  show ?thesis
    by (cases "thr_poll t")
      (auto simp: poll_moves_def Let_def poll_call_def assms(1) intro!: begins reads
        split: prod.split option.split)
qed

lemma in_step_poll_wait_ends: "in_step text t \<Longrightarrow> in_step text (poll_wait_ends t)"
  unfolding in_step_def
  by (elim exE) (auto simp: poll_wait_ends_def poll_call_def Let_def split: poll_point.split)

lemma in_step_call_begins: "in_step text t \<Longrightarrow> in_step text (call_begins cmd t)"
  unfolding in_step_def
  by (elim exE)
    (auto simp: call_begins_def poll_call_def begin_call_fields intro!: exI split: option.split prod.split)

lemma in_step_call_reads:
  assumes "in_step sent t" "exclusive t"
  shows "in_step sent (call_reads t)"
proof (cases "thr_call t")
  case None
  then show ?thesis by (simp add: call_reads_def assms(1))
next
  case (Some c)
  from assms(1) obtain taken where taken: "sent = taken @ chars (rxbuf (nrf_link (thr_driver t)))"
    "keeps_up taken (thr_call t)"
    by (auto simp: in_step_def)
  obtain exn c' d ls where step: "call_step c (thr_driver t) = (exn, c', d, ls)"
    by (cases "call_step c (thr_driver t)")
  from Some assms(2) have idle: "poll_call t = None" by (simp add: exclusive_def)
  show ?thesis
  proof (cases "rxbuf (nrf_link (thr_driver t)) = []")
    case True
    then show ?thesis by (simp add: call_reads_def Some assms(1))
  next
    case False
    then show ?thesis
      by (intro in_step_reads [OF assms(1) step _ taken(1)])
        (use taken(2) idle in \<open>simp_all add: call_reads_def Some step poll_call_def split: option.split\<close>)
  qed
qed

lemma in_step_call_wait_ends: "in_step text t \<Longrightarrow> in_step text (call_wait_ends t)"
  unfolding in_step_def
  by (elim exE) (auto simp: call_wait_ends_def poll_call_def split: option.split)

lemma in_step_arrives: "in_step text t \<Longrightarrow> in_step (text @ chars bs) (arrives bs t)"
  unfolding in_step_def by (elim exE) (auto simp: arrives_def poll_call_def Let_def)

lemmas in_step_moves = in_step_poll_moves in_step_poll_wait_ends in_step_call_begins
  in_step_call_reads in_step_call_wait_ends in_step_arrives

text \<open>After an exception the process reads nothing any more, though bytes may still arrive.\<close>

lemma run_ended: "thr_ended t \<noteq> None \<Longrightarrow> run_threads evs t = t"
  by (induction evs) (simp_all add: run_threads_def thread_step_def)

lemma run_exclusive:
  assumes "exclusive_run evs t" "in_step sent t"
  shows "list_all (from_one_line (sent @ board_text evs)) (thr_parsed (run_threads evs t))"
  using assms
proof (induction evs arbitrary: sent t)
  case Nil
  then show ?case
    by (auto simp: run_threads_def in_step_def list_all_more)
next
  case (Cons ev evs)
  show ?case
  proof (cases "thr_ended t = None")
    case True
    obtain new where new: "board_text (ev # evs) = new @ board_text evs"
      "in_step (sent @ new) (thread_step ev t)"
    proof (cases ev)
      case (Arrives bs)
      with True Cons.prems that [of "chars bs"] in_step_moves show thesis
        by (simp add: thread_step_def)
    qed (use True Cons.prems that [of "[]"] in_step_moves in \<open>simp_all add: thread_step_def\<close>)
    from Cons.IH [OF _ new(2)] Cons.prems(1) show ?thesis
      by (simp add: run_threads_def new(1))
  next
    case False
    with Cons.prems(2) show ?thesis
      by (auto simp: run_ended in_step_def list_all_more)
  qed
qed

text \<open>C34. Lines are never glued together while the calls of \<open>send_and_read\<close> do not overlap: under every
  schedule in which at most one thread waits in \<open>read_line\<close> at a time, every line that is parsed is
  the end of one line the board sent, or all of it. In particular this holds while no command is
  called, and it would hold under a mutex around \<open>send_and_read\<close>.\<close>

theorem nrf_lines_whole_without_overlap:
  assumes "exclusive_run evs (start_threads d)" "rxbuf (nrf_link d) = []"
  shows "list_all (from_one_line (board_text evs)) (thr_parsed (run_threads evs (start_threads d)))"
proof -
  have "in_step [] (start_threads d)"
    using assms(2) by (simp add: in_step_def start_threads_def poll_call_def chars_def)
  from run_exclusive [OF assms(1) this] show ?thesis by simp
qed

lemma thread_step_no_call:
  "thr_call t = None \<Longrightarrow> \<forall>cmd. ev \<noteq> CallBegins cmd \<Longrightarrow> thr_call (thread_step ev t) = None"
  by (cases ev)
    (auto simp: thread_step_def poll_moves_def poll_wait_ends_def call_reads_def call_wait_ends_def
      arrives_def Let_def split: poll_point.split option.split prod.split)

lemma poll_alone_exclusive:
  "thr_call t = None \<Longrightarrow> \<forall>cmd. CallBegins cmd \<notin> set evs \<Longrightarrow> exclusive_run evs t"
proof (induction evs arbitrary: t)
  case (Cons ev evs)
  then have "exclusive_run evs (thread_step ev t)" by (intro Cons.IH thread_step_no_call) auto
  with Cons.prems(1) show ?case by (simp add: exclusive_def)
qed (simp add: exclusive_def)

section \<open>The turns of the polling thread as schedules\<close>

definition poll_only :: "nrf_event list \<Rightarrow> bool" where
  "poll_only = list_all (\<lambda>ev. case ev of
     Arrives bs \<Rightarrow> True | PollMoves \<Rightarrow> True | PollWaitEnds \<Rightarrow> True | _ \<Rightarrow> False)"

definition poll_reaches :: "nrf_threads \<Rightarrow> nrf_threads \<Rightarrow> bool" where
  "poll_reaches t t' \<longleftrightarrow> (\<exists>evs. poll_only evs \<and> run_threads evs t = t')"

lemma poll_reaches_refl: "poll_reaches t t"
  unfolding poll_reaches_def by (rule exI [of _ "[]"]) (simp add: poll_only_def run_threads_def)

lemma poll_reaches_trans [trans]:
  assumes "poll_reaches t t'" "poll_reaches t' t''"
  shows "poll_reaches t t''"
proof -
  from assms obtain a b where "poll_only a" "run_threads a t = t'" "poll_only b" "run_threads b t' = t''"
    by (auto simp: poll_reaches_def)
  then show ?thesis
    unfolding poll_reaches_def by (intro exI [of _ "a @ b"]) (simp add: poll_only_def run_threads_def)
qed

lemma poll_reaches_steps:
  "poll_reaches t (thread_step (Arrives bs) t)" "poll_reaches t (thread_step PollMoves t)"
  "poll_reaches t (thread_step PollWaitEnds t)"
  unfolding poll_reaches_def
  by (rule exI [of _ "[Arrives bs]"] exI [of _ "[PollMoves]"] exI [of _ "[PollWaitEnds]"],
      simp add: poll_only_def run_threads_def)+

text \<open>The state in which the polling thread is at a point, the driver has this status and its link is
  this one but for the script and the time, which schedules do not have.\<close>

definition polling :: "nrf_driver \<Rightarrow> link \<Rightarrow> system_status \<Rightarrow> poll_point \<Rightarrow> nrf_threads \<Rightarrow> bool" where
  "polling d l st p t \<longleftrightarrow>
     thr_driver t = d\<lparr>nrf_link := l\<lparr>script := script (nrf_link d), clock := clock (nrf_link d)\<rparr>,
       nrf_status := st\<rparr> \<and>
     thr_poll t = p \<and> thr_ended t = None"

definition reading_point :: "(nrf_call \<Rightarrow> poll_point) \<Rightarrow> bool" where
  "reading_point point \<longleftrightarrow> point = WaitBms \<or> point = WaitStatus"

text \<open>One \<open>poll\<close> and \<open>read\<close> with data: the bytes of the script arrive, if none wait, and the thread
  reads.\<close>

lemma poll_arrives:
  assumes "polling d l st p t" "poll_then_read 255 w l = (ReadBytes bs, l')"
  obtains t1 rx where "poll_reaches t t1" "polling d (l'\<lparr>rxbuf := rx\<rparr>) st p t1" "rx \<noteq> []"
    "take 255 rx = bs" "drop 255 rx = rxbuf l'"
proof (cases "rxbuf l = []")
  case True
  with assms(2) obtain b bs' dt es where l: "script l = (Arrive b bs', dt) # es"
    "bs = take 255 (b # bs')" "l' = l\<lparr>script := es, clock := clock l + dt, rxbuf := drop 255 (b # bs')\<rparr>"
    by (auto simp: poll_then_read_def Let_def split: list.splits line_event.splits)
  show ?thesis
  proof (rule that [OF poll_reaches_steps(1) [of t "b # bs'"], of "b # bs'"])
    show "polling d (l'\<lparr>rxbuf := b # bs'\<rparr>) st p (thread_step (Arrives (b # bs')) t)"
      using assms(1) True l(3) by (simp add: polling_def thread_step_def arrives_def Let_def)
  qed (use l in simp_all)
next
  case False
  with assms(2) have l: "bs = take 255 (rxbuf l)" "l' = l\<lparr>rxbuf := drop 255 (rxbuf l)\<rparr>"
    by (auto simp: poll_then_read_def)
  show ?thesis
    by (rule that [OF poll_reaches_refl, of "rxbuf l"]) (use assms(1) False l in \<open>simp_all add: polling_def\<close>)
qed

text \<open>The polling thread has handled a line: an empty one is skipped, one that raises ends the process,
  any other becomes the response.\<close>

definition line_handled ::
    "nrf_driver \<Rightarrow> link \<Rightarrow> system_status \<Rightarrow> (nrf_call \<Rightarrow> poll_point) \<Rightarrow> nrf_call \<Rightarrow> string \<Rightarrow> nrf_threads \<Rightarrow> bool" where
  "line_handled d l st point c acc t \<longleftrightarrow>
     (if acc = [] then polling d l st (point (c\<lparr>call_line := []\<rparr>)) t
      else (case parse_response acc st of
              (Some e, st') \<Rightarrow> thr_ended t = Some e
            | (None, st') \<Rightarrow>
                polling d l st' (point \<lparr>call_line = [], call_response = acc, call_got = True\<rparr>) t))"

lemma line_handled_line [simp]:
  "line_handled d l st point (c\<lparr>call_line := line\<rparr>) acc t = line_handled d l st point c acc t"
  by (simp add: line_handled_def)

lemma poll_read_simulated:
  assumes "polling d l st (point c) t" "reading_point point"
    and "poll_then_read 255 w l = (ReadBytes bs, l')"
  obtains t' where "poll_reaches t t'"
    "case take_line (call_line c) (chars bs) of
       Inr line \<Rightarrow> polling d l' st (point (c\<lparr>call_line := line\<rparr>)) t'
     | Inl acc \<Rightarrow> line_handled d l' st point c acc t'"
proof -
  from poll_arrives [OF assms(1,3)] obtain t1 rx where t1: "poll_reaches t t1"
    "polling d (l'\<lparr>rxbuf := rx\<rparr>) st (point c) t1" "rx \<noteq> []" "take 255 rx = bs" "drop 255 rx = rxbuf l'" .
  show thesis
  proof (rule that [of "thread_step PollMoves t1"])
    show "poll_reaches t (thread_step PollMoves t1)"
      using t1(1) poll_reaches_steps(2) by (rule poll_reaches_trans)
  next
    show "case take_line (call_line c) (chars bs) of
       Inr line \<Rightarrow> polling d l' st (point (c\<lparr>call_line := line\<rparr>)) (thread_step PollMoves t1)
     | Inl acc \<Rightarrow> line_handled d l' st point c acc (thread_step PollMoves t1)"
      using t1(2-5) assms(2) unfolding reading_point_def line_handled_def
      by (cases t1; cases l'; elim disjE)
        (auto simp: polling_def thread_step_def poll_moves_def call_step_def Let_def
          split: sum.split prod.split option.split)
  qed
qed

lemma poll_without_data:
  assumes "poll_then_read 255 w l = (r, l')" "\<forall>bs. r \<noteq> ReadBytes bs"
  shows "polling d l' st p t = polling d l st p t"
  using assms
  by (cases l) (auto simp: poll_then_read_def polling_def Let_def split: if_splits list.splits line_event.splits)

text \<open>What a \<open>read_line\<close> of the polling thread ends in.\<close>

definition line_awaited ::
    "nrf_driver \<Rightarrow> link \<Rightarrow> system_status \<Rightarrow> (nrf_call \<Rightarrow> poll_point) \<Rightarrow> nrf_call \<Rightarrow> string option \<Rightarrow> nrf_threads \<Rightarrow> bool" where
  "line_awaited d l st point c r t \<longleftrightarrow>
     (case r of
        None \<Rightarrow> \<exists>line. polling d l st (point (c\<lparr>call_line := line\<rparr>)) t
      | Some acc \<Rightarrow> line_handled d l st point c acc t)"

lemma read_loop_simulated:
  assumes "nrf_read_loop tm s line l = (r, l')" "polling d l st (point (c\<lparr>call_line := line\<rparr>)) t"
    "reading_point point"
  shows "\<exists>t'. poll_reaches t t' \<and> line_awaited d l' st point c r t'"
  using assms(1,2)
proof (induction tm s line l arbitrary: r l' t rule: nrf_read_loop.induct)
  case (1 tm s line l)
  let ?w = "tm - (clock l - s) div 1000000"
  obtain p m where p: "poll_then_read 255 ?w l = (p, m)" by (meson surj_pair)
  note run = "1.prems"(1) [unfolded nrf_read_loop.simps [of tm s line l]]
  have stop: ?case if "r = None" "polling d l' st (point (c\<lparr>call_line := line\<rparr>)) t"
    using that poll_reaches_refl by (auto simp: line_awaited_def)
  show ?case
  proof (cases "?w = 0")
    case True
    with run "1.prems"(2) show ?thesis by (intro stop) simp_all
  next
    case False
    note quiet = poll_without_data [OF p, of d st _ t]
    show ?thesis
    proof (cases p)
      case NotReady
      with False p run have "nrf_read_loop tm s line m = (r, l')" by simp
      with NotReady quiet "1.prems"(2) show ?thesis
        by (intro "1.IH"(1) [OF refl False p [symmetric] NotReady]) simp_all
    next
      case (ReadBytes bs)
      let ?c = "c\<lparr>call_line := line\<rparr>"
      obtain u where u: "poll_reaches t u" "case take_line (call_line ?c) (chars bs) of
             Inr line' \<Rightarrow> polling d m st (point (?c\<lparr>call_line := line'\<rparr>)) u
           | Inl acc \<Rightarrow> line_handled d m st point ?c acc u"
        by (rule poll_read_simulated [OF "1.prems"(2) assms(3) p [unfolded ReadBytes]])
      show ?thesis
      proof (cases "take_line line (chars bs)")
        case (Inl acc)
        with False p run ReadBytes have "r = Some acc" "l' = m" by simp_all
        with Inl u show ?thesis unfolding line_awaited_def by auto
      next
        case (Inr line')
        with False p run ReadBytes have "nrf_read_loop tm s line' m = (r, l')" by simp
        moreover have "polling d m st (point (c\<lparr>call_line := line'\<rparr>)) u" using u(2) Inr by simp
        ultimately obtain t' where "poll_reaches u t'" "line_awaited d l' st point c r t'"
          using "1.IH"(2) [OF refl False p [symmetric] ReadBytes Inr] by blast
        with poll_reaches_trans [OF u(1)] show ?thesis by blast
      qed
    qed (use False p run quiet "1.prems"(2) stop in auto)
  qed
qed

lemma read_line_simulated:
  assumes "nrf_read_line tm l = (r, l')" "polling d l st (point c) t" "reading_point point"
    "call_line c = []"
  shows "\<exists>t'. poll_reaches t t' \<and> line_awaited d l' st point c r t'"
proof (cases "fd l < 0")
  case True
  with assms(1,2,4) poll_reaches_refl show ?thesis
    by (cases c) (force simp: nrf_read_line_def line_awaited_def)
next
  case False
  with assms show ?thesis
    by (intro read_loop_simulated [where line = "[]"]) (cases c; simp add: nrf_read_line_def)+
qed

lemma drain_simulated:
  assumes "nrf_drain tm got resp st l = (exn, got', resp', st', l')"
    and "polling d l st (point \<lparr>call_line = [], call_response = resp, call_got = got\<rparr>) t"
    and "reading_point point"
  shows "\<exists>t'. poll_reaches t t' \<and>
    (case exn of
       Some e \<Rightarrow> thr_ended t' = Some e
     | None \<Rightarrow> \<exists>line. polling d l' st' (point \<lparr>call_line = line, call_response = resp', call_got = got'\<rparr>) t')"
  using assms(1,2)
proof (induction tm got resp st l arbitrary: exn got' resp' st' l' t rule: nrf_drain.induct)
  case (1 tm got resp st l)
  let ?c = "\<lparr>call_line = [], call_response = resp, call_got = got\<rparr>"
  obtain r m where r: "nrf_read_line tm l = (r, m)" by (meson surj_pair)
  note run = "1.prems"(1) [unfolded nrf_drain.simps [of tm got resp st l] r]
  obtain u where u: "poll_reaches t u" "line_awaited d m st point ?c r u"
    using read_line_simulated [OF r "1.prems"(2) assms(3)] by auto
  show ?case
  proof (cases r)
    case None
    with run u show ?thesis by (auto simp: line_awaited_def)
  next
    case (Some acc)
    show ?thesis
    proof (cases "acc = []")
      case True
      with Some run have "nrf_drain tm got resp st m = (exn, got', resp', st', l')" by simp
      moreover have "polling d m st (point ?c) u"
        using u(2) Some True by (simp add: line_awaited_def line_handled_def)
      ultimately show ?thesis
        using "1.IH"(1) [OF r [symmetric] Some True] poll_reaches_trans [OF u(1)] by blast
    next
      case False
      obtain x st1 where pr: "parse_response acc st = (x, st1)" by (meson surj_pair)
      show ?thesis
      proof (cases x)
        case None
        with Some False run pr have "nrf_drain tm True acc st1 m = (exn, got', resp', st', l')" by simp
        moreover have "polling d m st1 (point \<lparr>call_line = [], call_response = acc, call_got = True\<rparr>) u"
          using u(2) Some False pr None by (simp add: line_awaited_def line_handled_def)
        ultimately show ?thesis
          using "1.IH"(2) [OF r [symmetric] Some False pr [symmetric] None] poll_reaches_trans [OF u(1)]
          by blast
      next
        case (Some e)
        with \<open>r = Some acc\<close> False run pr u show ?thesis
          by (auto simp: line_awaited_def line_handled_def)
      qed
    qed
  qed
qed

lemma begin_call_simulated:
  assumes "nrf_send_cmd cmd l = (sent, m)"
  shows "begin_call cmd resp (d\<lparr>nrf_link := l\<lparr>script := sc, clock := ck\<rparr>, nrf_status := st\<rparr>) =
    (if sent then Some \<lparr>call_line = [], call_response = resp, call_got = False\<rparr> else None,
     d\<lparr>nrf_link := m\<lparr>script := sc, clock := ck\<rparr>, nrf_status := st\<rparr>)"
  using assms
  by (cases l; cases d)
    (auto simp: begin_call_def nrf_send_cmd_def write_raw_def Let_def split: list.splits option.splits if_splits)

lemma polling_usleep [simp]: "polling d (usleep n l) st p t = polling d l st p t"
  by (cases l) (simp add: polling_def usleep_def)

text \<open>Both queries of a turn, from the point where they are due to the next one.\<close>

lemma bms_query_simulated:
  assumes "nrf_send_and_read ''AT+GETBMS?'' [] tm st l = (exn, ok, resp, st', l')"
    and "polling d l st AskBms t" "nrf_running d"
  shows "\<exists>t'. poll_reaches t t' \<and>
    (case exn of
       Some e \<Rightarrow> thr_ended t' = Some e
     | None \<Rightarrow> polling (d\<lparr>nrf_cached := (if resp \<noteq> [] then bms st' else nrf_cached d)\<rparr>) l' st' (AskStatus resp) t')"
proof -
  obtain sent m where send: "nrf_send_cmd ''AT+GETBMS?'' l = (sent, m)" by (meson surj_pair)
  let ?u = "thread_step PollMoves t"
  show ?thesis
  proof (cases sent)
    case True
    then have u: "polling d m st (WaitBms \<lparr>call_line = [], call_response = [], call_got = False\<rparr>) ?u"
      using assms(2,3) by (simp add: polling_def thread_step_def poll_moves_def begin_call_simulated [OF send])
    have "nrf_drain tm False [] st m = (exn, ok, resp, st', l')"
      using assms(1) send True by (simp add: nrf_send_and_read_def)
    from drain_simulated [where point = WaitBms, OF this u] obtain v where v: "poll_reaches ?u v"
      "case exn of Some e \<Rightarrow> thr_ended v = Some e
       | None \<Rightarrow> \<exists>line. polling d l' st' (WaitBms \<lparr>call_line = line, call_response = resp, call_got = ok\<rparr>) v"
      by (auto simp: reading_point_def)
    note reach = poll_reaches_trans [OF poll_reaches_steps(2) v(1)]
    show ?thesis
    proof (cases exn)
      case None
      with v(2) have "polling (d\<lparr>nrf_cached := (if resp \<noteq> [] then bms st' else nrf_cached d)\<rparr>) l' st'
          (AskStatus resp) (thread_step PollWaitEnds v)"
        by (cases d) (auto simp: polling_def thread_step_def poll_wait_ends_def Let_def)
      with None poll_reaches_trans [OF reach poll_reaches_steps(3)] show ?thesis by auto
    qed (use v(2) reach in auto)
  next
    case False
    with assms(1) send have "exn = None" "resp = []" "st' = st" "l' = m"
      by (simp_all add: nrf_send_and_read_def)
    moreover have "polling d m st (AskStatus []) ?u"
      using False assms(2,3)
      by (simp add: polling_def thread_step_def poll_moves_def begin_call_simulated [OF send])
    ultimately show ?thesis using poll_reaches_steps(2) by (auto intro!: exI [of _ ?u])
  qed
qed

lemma status_query_simulated:
  assumes "nrf_send_and_read ''AT+STATUS?'' resp tm st l = (exn, ok, resp', st', l')"
    and "polling d l st (AskStatus resp) t"
  shows "\<exists>t'. poll_reaches t t' \<and>
    (case exn of Some e \<Rightarrow> thr_ended t' = Some e | None \<Rightarrow> polling d l' st' AskBms t')"
proof -
  obtain sent m where send: "nrf_send_cmd ''AT+STATUS?'' l = (sent, m)" by (meson surj_pair)
  let ?u = "thread_step PollMoves t"
  show ?thesis
  proof (cases sent)
    case True
    then have u: "polling d m st (WaitStatus \<lparr>call_line = [], call_response = resp, call_got = False\<rparr>) ?u"
      using assms(2) by (simp add: polling_def thread_step_def poll_moves_def begin_call_simulated [OF send])
    have "nrf_drain tm False resp st m = (exn, ok, resp', st', l')"
      using assms(1) send True by (simp add: nrf_send_and_read_def)
    from drain_simulated [where point = WaitStatus, OF this u] obtain v where v: "poll_reaches ?u v"
      "case exn of Some e \<Rightarrow> thr_ended v = Some e
       | None \<Rightarrow> \<exists>line. polling d l' st' (WaitStatus \<lparr>call_line = line, call_response = resp', call_got = ok\<rparr>) v"
      by (auto simp: reading_point_def)
    note reach = poll_reaches_trans [OF poll_reaches_steps(2) v(1)]
    show ?thesis
    proof (cases exn)
      case None
      with v(2) have "polling d l' st' AskBms (thread_step PollWaitEnds v)"
        by (auto simp: polling_def thread_step_def poll_wait_ends_def Let_def)
      with None poll_reaches_trans [OF reach poll_reaches_steps(3)] show ?thesis by auto
    qed (use v(2) reach in auto)
  next
    case False
    with assms(1) send have "exn = None" "st' = st" "l' = m" by (simp_all add: nrf_send_and_read_def)
    moreover have "polling d m st AskBms ?u"
      using False assms(2)
      by (simp add: polling_def thread_step_def poll_moves_def begin_call_simulated [OF send])
    ultimately show ?thesis using poll_reaches_steps(2) by (auto intro!: exI [of _ ?u])
  qed
qed

lemma turn_simulated:
  assumes "polling d0 (nrf_link d) (nrf_status d) AskBms t" "nrf_cached d0 = nrf_cached d" "nrf_running d0"
  shows "\<exists>t'. poll_reaches t t' \<and>
    (case nrf_poll_turn d of
       Inl e \<Rightarrow> thr_ended t' = Some e
     | Inr d' \<Rightarrow> polling (d0\<lparr>nrf_cached := nrf_cached d'\<rparr>) (nrf_link d') (nrf_status d') AskBms t')"
proof -
  obtain exn ok resp st l where q: "nrf_send_and_read ''AT+GETBMS?'' [] 300 (nrf_status d) (nrf_link d) =
      (exn, ok, resp, st, l)" by (metis prod_cases5)
  from bms_query_simulated [OF q assms(1,3)] obtain u where u: "poll_reaches t u" "case exn of
      Some e \<Rightarrow> thr_ended u = Some e
    | None \<Rightarrow> polling (d0\<lparr>nrf_cached := (if resp \<noteq> [] then bms st else nrf_cached d0)\<rparr>) l st (AskStatus resp) u"
    by blast
  show ?thesis
  proof (cases exn)
    case (Some e)
    with q u show ?thesis by (auto simp: nrf_poll_turn_def)
  next
    case None
    let ?d1 = "d0\<lparr>nrf_cached := (if resp \<noteq> [] then bms st else nrf_cached d)\<rparr>"
    obtain exn2 ok2 resp2 st2 l2 where q2: "nrf_send_and_read ''AT+STATUS?'' resp 200 st (usleep 500000 l) =
        (exn2, ok2, resp2, st2, l2)" by (metis prod_cases5)
    have "polling ?d1 (usleep 500000 l) st (AskStatus resp) u"
      using u(2) None assms(2) by (cases "resp = []") simp_all
    from status_query_simulated [OF q2 this] obtain v where v: "poll_reaches u v"
      "case exn2 of Some e \<Rightarrow> thr_ended v = Some e | None \<Rightarrow> polling ?d1 l2 st2 AskBms v"
      by blast
    have "nrf_poll_turn d = (case exn2 of Some e \<Rightarrow> Inl e
      | None \<Rightarrow> Inr (d\<lparr>nrf_cached := (if resp \<noteq> [] then bms st else nrf_cached d), nrf_status := st2,
          nrf_link := usleep 1500000 l2\<rparr>))"
      using None by (simp add: nrf_poll_turn_def q q2 Let_def split: option.split)
    with v(2) poll_reaches_trans [OF u(1) v(1)] show ?thesis
      by (intro exI [of _ v]) (auto split: option.splits)
  qed
qed

lemma loop_simulated:
  assumes "polling d0 (nrf_link d) (nrf_status d) AskBms t" "nrf_cached d0 = nrf_cached d" "nrf_running d0"
  shows "\<exists>t'. poll_reaches t t' \<and>
    (case nrf_poll_loop n d of
       Inl e \<Rightarrow> thr_ended t' = Some e
     | Inr d' \<Rightarrow> polling (d0\<lparr>nrf_cached := nrf_cached d'\<rparr>) (nrf_link d') (nrf_status d') AskBms t')"
  using assms
proof (induction n arbitrary: d0 d t)
  case 0
  then show ?case using poll_reaches_refl by (cases d0) auto
next
  case (Suc n)
  from turn_simulated [OF Suc.prems] obtain u where u: "poll_reaches t u" "case nrf_poll_turn d of
      Inl e \<Rightarrow> thr_ended u = Some e
    | Inr d' \<Rightarrow> polling (d0\<lparr>nrf_cached := nrf_cached d'\<rparr>) (nrf_link d') (nrf_status d') AskBms u"
    by blast
  show ?case
  proof (cases "nrf_poll_turn d")
    case (Inl e)
    with u show ?thesis by auto
  next
    case (Inr d')
    have twice: "d0\<lparr>nrf_cached := x, nrf_cached := y\<rparr> = d0\<lparr>nrf_cached := y\<rparr>" for x y
      by (cases d0) simp
    have "polling (d0\<lparr>nrf_cached := nrf_cached d'\<rparr>) (nrf_link d') (nrf_status d') AskBms u"
      using u(2) Inr by simp
    from Suc.IH [OF this] Suc.prems(3) obtain v where v: "poll_reaches u v"
      "case nrf_poll_loop n d' of Inl e \<Rightarrow> thr_ended v = Some e
       | Inr e \<Rightarrow> polling (d0\<lparr>nrf_cached := nrf_cached e\<rparr>) (nrf_link e) (nrf_status e) AskBms v"
      unfolding twice by auto
    with Inr poll_reaches_trans [OF u(1) v(1)] show ?thesis by (intro exI [of _ v]) simp
  qed
qed

text \<open>The turns of the polling thread are schedules of the two threads: for any number of turns of
  \<open>poll_loop\<close>, on any line and with any times, there is a schedule without a command that ends with the
  same exception if there is one, and else sends and leaves the same bytes and shows the same in all
  getters and in the status of the board. So what is shown of all schedules holds of \<open>poll_loop\<close>.\<close>

theorem nrf_turns_are_schedules:
  assumes "nrf_running d"
  shows "\<exists>evs. poll_only evs \<and> (let t = run_threads evs (start_threads d) in
    case nrf_poll_loop n d of
      Inl e \<Rightarrow> thr_ended t = Some e
    | Inr d' \<Rightarrow> thr_ended t = None \<and> nrf_view (thr_driver t) = nrf_view d' \<and>
        nrf_status (thr_driver t) = nrf_status d' \<and>
        rxbuf (nrf_link (thr_driver t)) = rxbuf (nrf_link d') \<and>
        txlog (nrf_link (thr_driver t)) = txlog (nrf_link d'))"
proof -
  have "polling d (nrf_link d) (nrf_status d) AskBms (start_threads d)"
    by (cases d) (simp add: polling_def start_threads_def)
  from loop_simulated [OF this refl assms, of n] obtain t where t: "poll_reaches (start_threads d) t"
    "case nrf_poll_loop n d of
       Inl e \<Rightarrow> thr_ended t = Some e
     | Inr d' \<Rightarrow> polling (d\<lparr>nrf_cached := nrf_cached d'\<rparr>) (nrf_link d') (nrf_status d') AskBms t"
    by blast
  from t(1) obtain evs where "poll_only evs" "run_threads evs (start_threads d) = t"
    by (auto simp: poll_reaches_def)
  with t(2) show ?thesis
    by (intro exI [of _ evs]) (auto simp: Let_def polling_def nrf_view_def split: sum.splits)
qed

section \<open>Two readers at once\<close>

lemma call_step_part:
  assumes "rxbuf (nrf_link d) = octets cs" "length cs \<le> 255" "LF \<notin> set cs" "LF \<notin> set (call_line c)"
  shows "call_step c d =
    (None, c\<lparr>call_line := call_line c @ cs\<rparr>, d\<lparr>nrf_link := (nrf_link d)\<lparr>rxbuf := []\<rparr>\<rparr>, [])"
  using assms by (simp add: call_step_def take_line_eq)

lemma call_step_line:
  assumes "rxbuf (nrf_link d) = octets (cs @ [CR, LF])" "length cs \<le> 253" "LF \<notin> set cs"
    "LF \<notin> set (call_line c)" "call_line c @ cs = a" "a \<noteq> []"
    "parse_response a (nrf_status d) = (None, st)"
  shows "call_step c d =
    (None, \<lparr>call_line = [], call_response = a, call_got = True\<rparr>,
     d\<lparr>nrf_link := (nrf_link d)\<lparr>rxbuf := []\<rparr>, nrf_status := st\<rparr>, [a])"
proof -
  have "takeWhile (\<lambda>c. c \<noteq> LF) (cs @ [CR, LF]) = cs @ [CR]"
    using assms(3) by (induction cs) auto
  then have "take_line (call_line c) (cs @ [CR, LF]) = Inl a"
    using assms(4,5) by (simp add: take_line_eq strip_cr_def butlast_append)
  moreover have "take 255 (octets (cs @ [CR, LF])) = octets (cs @ [CR, LF])"
    "drop 255 (octets (cs @ [CR, LF])) = []"
    using assms(2) by (simp_all add: octets_def)
  ultimately show ?thesis
    using assms(1,6,7) by (simp add: call_step_def)
qed

lemma parse_other_line: "a = [] \<or> hd a \<noteq> CHR ''+'' \<Longrightarrow> parse_response a st = (None, st)"
  by (cases a) (auto simp: parse_response_def)

lemma begin_call_ok:
  assumes "writes_ok (nrf_link d)"
  shows "begin_call cmd resp d =
    (Some \<lparr>call_line = [], call_response = resp, call_got = False\<rparr>,
     d\<lparr>nrf_link := (nrf_link d)\<lparr>txlog := txlog (nrf_link d) @ [octets (cmd @ [CR, LF])]\<rparr>\<rparr>)"
  using assms by (simp add: begin_call_def nrf_send_cmd_def write_raw_ok) (simp add: writes_ok_def)

text \<open>A burst that one thread reads whole: of part of a line, and with the end of a line.\<close>

lemma poll_burst_part:
  assumes "thr_ended t = None" "rxbuf (nrf_link (thr_driver t)) = []" "thr_poll t = WaitBms c"
    and "cs \<noteq> []" "length cs \<le> 255" "LF \<notin> set cs" "LF \<notin> set (call_line c)"
  shows "thread_step PollMoves (thread_step (Arrives (octets cs)) t) =
    t\<lparr>thr_poll := WaitBms (c\<lparr>call_line := call_line c @ cs\<rparr>)\<rparr>"
  using assms
  by (cases t; cases "thr_driver t"; cases "nrf_link (thr_driver t)")
    (simp add: thread_step_def arrives_def poll_moves_def call_step_part)

lemma poll_burst_line:
  assumes "thr_ended t = None" "rxbuf (nrf_link (thr_driver t)) = []" "thr_poll t = WaitBms c"
    and "length cs \<le> 253" "LF \<notin> set cs" "LF \<notin> set (call_line c)" "call_line c @ cs = a" "a \<noteq> []"
    and "parse_response a (nrf_status (thr_driver t)) = (None, st)"
  shows "thread_step PollMoves (thread_step (Arrives (octets (cs @ [CR, LF]))) t) =
    t\<lparr>thr_driver := (thr_driver t)\<lparr>nrf_status := st\<rparr>,
      thr_poll := WaitBms \<lparr>call_line = [], call_response = a, call_got = True\<rparr>,
      thr_parsed := thr_parsed t @ [a]\<rparr>"
  using assms
  by (cases t; cases "thr_driver t"; cases "nrf_link (thr_driver t)")
    (simp add: thread_step_def arrives_def poll_moves_def call_step_line [where a = a])

lemma call_burst_part:
  assumes "thr_ended t = None" "rxbuf (nrf_link (thr_driver t)) = []" "thr_call t = Some c"
    and "cs \<noteq> []" "length cs \<le> 255" "LF \<notin> set cs" "LF \<notin> set (call_line c)"
  shows "thread_step CallReads (thread_step (Arrives (octets cs)) t) =
    t\<lparr>thr_call := Some (c\<lparr>call_line := call_line c @ cs\<rparr>)\<rparr>"
  using assms
  by (cases t; cases "thr_driver t"; cases "nrf_link (thr_driver t)")
    (simp add: thread_step_def arrives_def call_reads_def call_step_part)

lemma call_burst_line:
  assumes "thr_ended t = None" "rxbuf (nrf_link (thr_driver t)) = []" "thr_call t = Some c"
    and "length cs \<le> 253" "LF \<notin> set cs" "LF \<notin> set (call_line c)" "call_line c @ cs = a" "a \<noteq> []"
    and "parse_response a (nrf_status (thr_driver t)) = (None, st)"
  shows "thread_step CallReads (thread_step (Arrives (octets (cs @ [CR, LF]))) t) =
    t\<lparr>thr_driver := (thr_driver t)\<lparr>nrf_status := st\<rparr>,
      thr_call := Some \<lparr>call_line = [], call_response = a, call_got = True\<rparr>,
      thr_parsed := thr_parsed t @ [a]\<rparr>"
  using assms
  by (cases t; cases "thr_driver t"; cases "nrf_link (thr_driver t)")
    (simp add: thread_step_def arrives_def call_reads_def call_step_line [where a = a])

text \<open>The schedule of the next property: the polling thread asks and a command is called, so that both
  wait; the report comes in three bursts, of which the caller's \<open>read\<close> gets the second.\<close>

definition torn_schedule :: "string \<Rightarrow> string \<Rightarrow> string \<Rightarrow> string \<Rightarrow> nrf_event list" where
  "torn_schedule cmd a b c =
     [PollMoves, CallBegins cmd, Arrives (octets a), PollMoves, Arrives (octets b), CallReads,
      Arrives (octets (c @ [CR, LF])), PollMoves, Arrives (octets (''OK'' @ [CR, LF])), CallReads,
      PollWaitEnds, CallWaitEnds]"

lemma torn_schedule_text:
  "board_text (torn_schedule cmd a b c) = (a @ b @ c) @ [CR, LF] @ ''OK'' @ [CR, LF]"
  by (simp add: torn_schedule_def)

lemma start_threads_simps:
  "thr_driver (start_threads d) = d" "thr_ended (start_threads d) = None"
  "thr_parsed (start_threads d) = []" "thr_call (start_threads d) = None"
  by (simp_all add: start_threads_def)

lemma poll_asks:
  assumes "writes_ok (nrf_link d)" "nrf_running d"
  shows "thread_step PollMoves (start_threads d) =
    (start_threads d)\<lparr>
      thr_driver := d\<lparr>nrf_link := (nrf_link d)\<lparr>txlog := txlog (nrf_link d) @ [octets (''AT+GETBMS?'' @ [CR, LF])]\<rparr>\<rparr>,
      thr_poll := WaitBms \<lparr>call_line = [], call_response = [], call_got = False\<rparr>\<rparr>"
  using assms by (simp add: thread_step_def poll_moves_def start_threads_def begin_call_ok)

lemma torn_schedule_run:
  assumes "writes_ok (nrf_link d)" "rxbuf (nrf_link d) = []" "nrf_running d"
    and "a \<noteq> []" "length a \<le> 255" "b \<noteq> []" "length b \<le> 255" "length c \<le> 253"
    and "LF \<notin> set (a @ b @ c)" "hd b \<noteq> CHR ''+''"
    and "parse_response (a @ c) (nrf_status d) = (None, st)"
    and "run_threads (torn_schedule cmd a b c) (start_threads d) = t"
  shows "nrf_cached (thr_driver t) = bms st" "thr_results t = [Inr True]"
    "thr_parsed t = [a @ c, b @ ''OK'']"
proof -
  let ?k = "\<lparr>call_line = [], call_response = [], call_got = False\<rparr>"
  let ?log = "txlog (nrf_link d) @ [octets (''AT+GETBMS?'' @ [CR, LF]), octets (cmd @ [CR, LF])]"
  let ?d = "d\<lparr>nrf_link := (nrf_link d)\<lparr>txlog := ?log\<rparr>\<rparr>"
  let ?t = "(start_threads d)\<lparr>thr_driver := ?d, thr_poll := WaitBms ?k, thr_call := Some ?k\<rparr>"
  let ?t3 = "?t\<lparr>thr_driver := ?d\<lparr>nrf_status := st\<rparr>,
    thr_poll := WaitBms \<lparr>call_line = [], call_response = a @ c, call_got = True\<rparr>,
    thr_call := Some (?k\<lparr>call_line := b\<rparr>), thr_parsed := [a @ c]\<rparr>"
  have both_wait: "thread_step (CallBegins cmd) (thread_step PollMoves (start_threads d)) = ?t"
    using assms(1-3)
    by (simp add: poll_asks) (simp add: thread_step_def call_begins_def start_threads_def begin_call_ok writes_ok_def)
  moreover have "thread_step PollMoves (thread_step (Arrives (octets a)) ?t) =
      ?t\<lparr>thr_poll := WaitBms (?k\<lparr>call_line := a\<rparr>)\<rparr>" (is "_ = ?t1")
    using assms by (subst poll_burst_part) (auto simp: start_threads_def)
  moreover have "thread_step CallReads (thread_step (Arrives (octets b)) ?t1) =
      ?t1\<lparr>thr_call := Some (?k\<lparr>call_line := b\<rparr>)\<rparr>" (is "_ = ?t2")
    using assms by (subst call_burst_part) (auto simp: start_threads_def)
  moreover have "thread_step PollMoves (thread_step (Arrives (octets (c @ [CR, LF]))) ?t2) = ?t3"
    using assms by (subst poll_burst_line [where a = "a @ c" and st = st]) (auto simp: start_threads_def)
  moreover have "parse_response (b @ ''OK'') st = (None, st)"
    using assms(6,10) by (intro parse_other_line) auto
  then have "thread_step CallReads (thread_step (Arrives (octets (''OK'' @ [CR, LF]))) ?t3) =
      ?t3\<lparr>thr_call := Some \<lparr>call_line = [], call_response = b @ ''OK'', call_got = True\<rparr>,
        thr_parsed := [a @ c, b @ ''OK'']\<rparr>" (is "_ = ?t4")
    using assms by (subst call_burst_line [where a = "b @ ''OK''" and st = st]) (auto simp: start_threads_def)
  ultimately have "t = thread_step CallWaitEnds (thread_step PollWaitEnds ?t4)"
    unfolding assms(12) [symmetric] run_threads_def torn_schedule_def by (simp only: fold_simps comp_apply)
  with assms(4) show "nrf_cached (thr_driver t) = bms st" "thr_results t = [Inr True]"
    "thr_parsed t = [a @ c, b @ ''OK'']"
    by (simp_all add: thread_step_def poll_wait_ends_def call_wait_ends_def start_threads_def)
qed

lemma written_tail_chars:
  assumes "plain v" "written v = x @ y" "c \<notin> set ''-.0123456789''"
  shows "c \<notin> set y"
  using written_chars [OF assms(1,3)] assms(2) by simp

text \<open>C35. A command called while the polling thread waits can make the getters show numbers the board
  never sent: whatever the command and the report, and wherever its voltage is cut behind a number,
  there is a schedule in which the board sends this report and an OK, the caller's \<open>read\<close> takes the
  rest of the voltage out of the report, the getters show the number before the cut with the current
  and the charge of the report, and the command returns true although nothing answered it.\<close>

theorem nrf_report_torn_by_caller:
  assumes "writes_ok (nrf_link d)" "rxbuf (nrf_link d) = []" "nrf_running d"
    and "plain v" "plain i" "plain s" "plain n" "written v = written n @ y" "y \<noteq> []"
  shows "\<exists>evs. board_text evs = report_text v i s @ [CR, LF] @ ''OK'' @ [CR, LF] \<and>
    {c. CallBegins c \<in> set evs} = {cmd} \<and>
    (let t = run_threads evs (start_threads d); view = nrf_view (thr_driver t)
     in get_voltage view = shown (nearest n) \<and> get_current view = shown (nearest i) \<and>
       get_percentage view = shown (nearest s) \<and> thr_results t = [Inr True])"
proof -
  let ?a = "''+BMS: VOLT='' @ written n" and ?c = "'',CURR='' @ written i @ '',SOC='' @ written s"
  let ?evs = "torn_schedule cmd ?a y ?c"
  note sizes = written_length [OF assms(4)] written_length [OF assms(5)] written_length [OF assms(6)]
    written_length [OF assms(7)]
  have y: "LF \<notin> set y" "CHR ''+'' \<notin> set y"
    by (rule written_tail_chars [OF assms(4,8)]; simp)+
  then have hd_y: "hd y \<noteq> CHR ''+''"
    using hd_in_set [OF assms(9)] by metis
  have LF: "LF \<notin> set (?a @ y @ ?c)"
    using y(1) written_chars [OF assms(5), of LF] written_chars [OF assms(6), of LF]
      written_chars [OF assms(7), of LF] by simp
  have len: "?a \<noteq> []" "length ?a \<le> 255" "length y \<le> 255" "length ?c \<le> 253"
    using sizes assms(8) by simp_all
  have "parse_response (?a @ ?c) (nrf_status d) = (None, with_report (nrf_status d) n i s)"
    using parse_bms_report [OF assms(7,5,6)] by (simp only: append_assoc)
  note run = torn_schedule_run [OF assms(1-3) len(1,2) assms(9) len(3,4) LF hd_y this refl, of cmd]
  have "nrf_cached (thr_driver (run_threads ?evs (start_threads d))) =
      bms (with_report (nrf_status d) n i s)"
    "thr_results (run_threads ?evs (start_threads d)) = [Inr True]"
    by (rule run)+
  then show ?thesis
    using assms(8)
    by (intro exI [of _ ?evs]) (auto simp: torn_schedule_text report_text_def nrf_view_def Let_def
      torn_schedule_def)
qed

definition idle_board :: nrf_driver where
  "idle_board = \<lparr>nrf_link = text_link [], nrf_status = zero_system, nrf_cached = zero_cache,
     nrf_running = True\<rparr>"

lemma idle_board_simps:
  "writes_ok (nrf_link idle_board)" "rxbuf (nrf_link idle_board) = []" "nrf_running idle_board"
  "nrf_status idle_board = zero_system"
  by (simp_all add: idle_board_def text_link_def writes_ok_def)

text \<open>The board reports 48.25 V, and the getters show 4 V.\<close>

theorem nrf_report_torn_by_caller_witness:
  "\<exists>evs. board_text evs = report_text (False, ''48'', ''25'') (True, ''1'', ''5'') (False, ''87'', []) @
     [CR, LF] @ ''OK'' @ [CR, LF] \<and>
     (let t = run_threads evs (start_threads idle_board)
      in get_voltage (nrf_view (thr_driver t)) = shown (nearest (False, ''4'', [])) \<and>
        thr_results t = [Inr True])"
proof -
  have plain: "plain (False, ''48'', ''25'')" "plain (True, ''1'', ''5'')" "plain (False, ''87'', [])"
    "plain (False, ''4'', [])"
    by (simp_all add: plain_def all_digits_def digit_chars)
  have "written (False, ''48'', ''25'') = written (False, ''4'', []) @ ''8.25''"
    by (simp add: written_def decimal_text_def)
  from nrf_report_torn_by_caller [OF idle_board_simps(1-3) plain this, of "''AT+POWER5=1''"]
  show ?thesis unfolding Let_def by blast
qed

text \<open>A report in two bursts, read by the polling thread alone.\<close>

theorem nrf_lines_whole_without_overlap_witness:
  "let evs = [PollMoves, Arrives (octets ''+WDG: O''), PollMoves,
       Arrives (octets (''N'' @ [CR, LF])), PollMoves]; t = run_threads evs (start_threads idle_board)
   in thr_parsed t = [''+WDG: ON''] \<and> list_all (from_one_line (board_text evs)) (thr_parsed t)"
proof -
  let ?evs = "[PollMoves, Arrives (octets ''+WDG: O''), PollMoves,
    Arrives (octets (''N'' @ [CR, LF])), PollMoves]"
  have "exclusive_run ?evs (start_threads idle_board)"
    by (rule poll_alone_exclusive) (simp_all add: start_threads_def)
  note nrf_lines_whole_without_overlap [OF this idle_board_simps(2)]
  moreover have "parse_response ''+WDG: ON'' zero_system = (None, snd (parse_response ''+WDG: ON'' zero_system))"
    by (simp add: parse_response_def)
  then obtain st where parse: "parse_response ''+WDG: ON'' zero_system = (None, st)" by metis
  have "thr_parsed (run_threads ?evs (start_threads idle_board)) = [''+WDG: ON'']"
    unfolding run_threads_def
    by (simp add: poll_asks [OF idle_board_simps(1,3)] poll_burst_part parse idle_board_simps start_threads_simps
        poll_burst_line [where a = "''+WDG: ON''" and cs = "''N''" and st = st, simplified])
  ultimately show ?thesis by (simp add: Let_def)
qed

text \<open>A turn on a silent line.\<close>

lemma silent_query:
  assumes "writes_ok l" "script l = []" "rxbuf l = []" "0 < tm"
  shows "nrf_send_and_read cmd resp tm st l = (None, False, resp, st,
    l\<lparr>txlog := txlog l @ [octets (cmd @ [CR, LF])], clock := clock l + tm * 1000000\<rparr>)"
  using assms
  by (simp add: nrf_send_and_read_def nrf_send_cmd_def write_raw_ok nrf_drain.simps read_line_silent)
    (simp add: writes_ok_def nrf_drain.simps read_line_silent)

theorem nrf_turns_are_schedules_witness:
  "\<exists>evs. poll_only evs \<and> (let t = run_threads evs (start_threads idle_board) in
     thr_ended t = None \<and> nrf_status (thr_driver t) = zero_system \<and>
     txlog (nrf_link (thr_driver t)) =
       [octets (''AT+GETBMS?'' @ [CR, LF]), octets (''AT+STATUS?'' @ [CR, LF])])"
proof -
  have "\<exists>d'. nrf_poll_loop (Suc 0) idle_board = Inr d' \<and> nrf_status d' = zero_system \<and>
    txlog (nrf_link d') = [octets (''AT+GETBMS?'' @ [CR, LF]), octets (''AT+STATUS?'' @ [CR, LF])]"
    by (simp add: nrf_poll_turn_def silent_query idle_board_def text_link_def usleep_def writes_ok_def)
  with nrf_turns_are_schedules [OF idle_board_simps(3), of "Suc 0"] show ?thesis
    by (auto simp: Let_def simp del: nrf_poll_loop.simps)
qed

end
