(* ===== verification/Python_Bindings.thy ===== *)
theory Python_Bindings
  imports Bms_Main Nrf_Driver
begin

text \<open>
  The Python module \<open>bms_py\<close> of \<open>src/pybind_module.cpp\<close>: the classes, their methods by name with the
  C++ functions they are bound to, and the default arguments. What pybind11 does with a table is to
  call the function bound to the name on the converted arguments and to convert its result. Which
  Python objects it converts to a C++ \<open>bool\<close> or \<open>int\<close> is a matter of pybind11: the two conversions are
  parameters.
\<close>

section \<open>The class BmsDriver\<close>

datatype py_value = Py_float "double option" | Py_int int | Py_bool bool

definition py_word :: "'a::len word \<Rightarrow> py_value" where
  "py_word w = Py_int (uint w)"

lemma py_word_inject [simp]: "py_word v = py_word w \<longleftrightarrow> v = w"
  by (simp add: py_word_def word_uint_eq_iff)

definition bms_methods :: "(string \<times> (bms_view \<Rightarrow> py_value)) list" where
  "bms_methods =
     [(''get_voltage'', \<lambda>v. Py_float (get_voltage v)),
      (''get_current'', \<lambda>v. Py_float (get_current v)),
      (''get_temperature'', \<lambda>v. Py_float (get_temperature v)),
      (''get_percentage'', \<lambda>v. Py_float (get_percentage v)),
      (''get_charge'', \<lambda>v. Py_float (get_charge v)),
      (''get_capacity'', \<lambda>v. Py_float (get_capacity v)),
      (''get_design_capacity'', \<lambda>v. Py_float (get_design_capacity v)),
      (''get_protect_status'', \<lambda>v. py_word (get_protect_status v)),
      (''get_work_state'', \<lambda>v. py_word (get_work_state v)),
      (''get_max_cell_voltage'', \<lambda>v. Py_float (get_max_cell_voltage v)),
      (''get_min_cell_voltage'', \<lambda>v. Py_float (get_min_cell_voltage v)),
      (''get_soh'', \<lambda>v. py_word (get_soh v)),
      (''get_cycles'', \<lambda>v. py_word (get_cycles v)),
      (''get_io_state'', \<lambda>v. py_word (get_io_state v)),
      (''is_power_on'', \<lambda>v. Py_bool (is_power_on v)),
      (''is_connected'', \<lambda>v. Py_bool (is_connected v))]"

text \<open>A call without arguments; \<^term>\<open>None\<close> is an \<open>AttributeError\<close>.\<close>

definition py_get :: "string \<Rightarrow> bms_view \<Rightarrow> py_value option" where
  "py_get name v = map_option (\<lambda>f. f v) (map_of bms_methods name)"

text \<open>\<open>create_bms(bms_type, socket_path="/tmp/bms.sock")\<close>.\<close>

definition py_create_bms :: "string \<Rightarrow> string option \<Rightarrow> string + driver_choice" where
  "py_create_bms name socket_path =
     create_bms name (case socket_path of None \<Rightarrow> ''/tmp/bms.sock'' | Some s \<Rightarrow> s)"

section \<open>The class NrfPmicDriver\<close>

type_synonym nrf_call = "nrf_driver \<Rightarrow> (conversion_error + bool) \<times> nrf_driver"

datatype nrf_method =
    Switch "bool \<Rightarrow> nrf_call"
  | Getter "nrf_driver \<Rightarrow> bool"
  | Command nrf_call
  | Channel_command "int \<Rightarrow> nrf_call" int    \<comment> \<open>with its default argument\<close>

definition nrf_methods :: "(string \<times> nrf_method) list" where
  "nrf_methods =
     [(''set_power48'', Switch set_power48), (''set_power5'', Switch set_power5),
      (''set_power19'', Switch set_power19), (''set_power12'', Switch set_power12),
      (''get_power48'', Getter get_power48), (''get_power5'', Getter get_power5),
      (''get_power19'', Getter get_power19), (''get_power12'', Getter get_power12),
      (''estop'', Command estop), (''clear_estop'', Command clear_estop),
      (''query_estop'', Command query_estop), (''set_watchdog'', Switch set_watchdog),
      (''query_watchdog'', Command query_watchdog), (''refresh_status'', Command refresh_status),
      (''refresh_bms'', Command refresh_bms), (''refresh_adc'', Channel_command refresh_adc (-1)),
      (''refresh_version'', Command refresh_version)]"

datatype py_outcome =
    Returns py_value
  | Raises conversion_error     \<comment> \<open>the C++ exception, translated\<close>
  | Type_error

fun py_result :: "(conversion_error + bool) \<times> nrf_driver \<Rightarrow> py_outcome \<times> nrf_driver" where
  "py_result (Inl e, d) = (Raises e, d)"
| "py_result (Inr b, d) = (Returns (Py_bool b), d)"

text \<open>A call with positional arguments, which are any Python objects: \<open>to_bool\<close> and \<open>to_int\<close> are the
  conversions of pybind11, \<^term>\<open>None\<close> where it refuses an object. A C++ \<open>int\<close> has 32 bits.\<close>

fun py_apply ::
    "('o \<Rightarrow> bool option) \<Rightarrow> ('o \<Rightarrow> 32 word option) \<Rightarrow> nrf_method \<Rightarrow> 'o list \<Rightarrow> nrf_driver \<Rightarrow>
     py_outcome \<times> nrf_driver" where
  "py_apply to_bool to_int (Switch f) [x] d =
     (case to_bool x of None \<Rightarrow> (Type_error, d) | Some b \<Rightarrow> py_result (f b d))"
| "py_apply to_bool to_int (Getter f) [] d = (Returns (Py_bool (f d)), d)"
| "py_apply to_bool to_int (Command f) [] d = py_result (f d)"
| "py_apply to_bool to_int (Channel_command f dflt) [] d = py_result (f dflt d)"
| "py_apply to_bool to_int (Channel_command f dflt) [x] d =
     (case to_int x of None \<Rightarrow> (Type_error, d) | Some i \<Rightarrow> py_result (f (sint i) d))"
| "py_apply _ _ _ _ d = (Type_error, d)"

text \<open>An object of the class has the methods of its base class, too.\<close>

definition py_call ::
    "('o \<Rightarrow> bool option) \<Rightarrow> ('o \<Rightarrow> 32 word option) \<Rightarrow> string \<Rightarrow> 'o list \<Rightarrow> nrf_driver \<Rightarrow>
     (py_outcome \<times> nrf_driver) option" where
  "py_call to_bool to_int name args d =
     (case map_of nrf_methods name of
        Some f \<Rightarrow> Some (py_apply to_bool to_int f args d)
      | None \<Rightarrow> map_option (\<lambda>f. (if args = [] then Returns (f (nrf_view d)) else Type_error, d))
                 (map_of bms_methods name))"

section \<open>What Python sees\<close>

lemma bound_names:
  "distinct (map fst bms_methods @ map fst nrf_methods)"
  "''get_data_age_ms'' \<notin> fst ` set bms_methods \<union> fst ` set nrf_methods"
  by code_simp+

lemma py_get_bound:
  "(n, f) \<in> set bms_methods \<Longrightarrow> py_get n v = Some (f v)"
  using bound_names(1) by (simp add: py_get_def map_of_is_SomeI)

lemma py_get_unbound: "n \<notin> fst ` set bms_methods \<Longrightarrow> py_get n v = None"
  by (simp add: py_get_def map_of_eq_None_iff)

text \<open>A Python program sees everything a driver shows but the age of the data: two views give the
  same result for every method name exactly when they agree in all other getters. So from Python
  stale data of a driver that stays connected cannot be told from fresh data.\<close>

theorem python_sees_all_but_age:
  "(\<forall>n. py_get n v = py_get n w) \<longleftrightarrow> v\<lparr>get_data_age_ms := 0\<rparr> = w\<lparr>get_data_age_ms := 0\<rparr>"
proof
  assume "\<forall>n. py_get n v = py_get n w"
  then have same: "f v = f w" if "(n, f) \<in> set bms_methods" for n f
    using py_get_bound [OF that] by (metis option.inject)
  have "list_all (\<lambda>(n, f). f v = f w) bms_methods" using same by (auto simp: list_all_iff)
  then show "v\<lparr>get_data_age_ms := 0\<rparr> = w\<lparr>get_data_age_ms := 0\<rparr>"
    by (cases v; cases w) (simp add: bms_methods_def)
next
  assume eq: "v\<lparr>get_data_age_ms := 0\<rparr> = w\<lparr>get_data_age_ms := 0\<rparr>"
  have ageless: "list_all (\<lambda>(n, f). \<forall>x. f x = f (x\<lparr>get_data_age_ms := 0\<rparr>)) bms_methods"
    by (simp add: bms_methods_def)
  have same: "f v = f w" if m: "(n, f) \<in> set bms_methods" for n f
  proof -
    have "f x = f (x\<lparr>get_data_age_ms := 0\<rparr>)" for x using ageless m unfolding list_all_iff by blast
    from this [of v] this [of w] eq show ?thesis by simp
  qed
  show "\<forall>n. py_get n v = py_get n w"
  proof
    fix n
    show "py_get n v = py_get n w"
    proof (cases "n \<in> fst ` set bms_methods")
      case True
      then obtain f where "(n, f) \<in> set bms_methods" by auto
      then show ?thesis by (simp only: py_get_bound same)
    qed (simp add: py_get_unbound)
  qed
qed

section \<open>What a call sends to the board\<close>

definition switches :: "(string \<times> string) list" where
  "switches = [(''set_power48'', ''AT+POWER48=''), (''set_power5'', ''AT+POWER5=''),
     (''set_power19'', ''AT+POWER19=''), (''set_power12'', ''AT+POWER12=''), (''set_watchdog'', ''AT+WDG='')]"

definition queries :: "(string \<times> string) list" where
  "queries = [(''estop'', ''AT+ESTOP=1''), (''clear_estop'', ''AT+ESTOP=0''), (''query_estop'', ''AT+ESTOP?''),
     (''query_watchdog'', ''AT+WDG?''), (''refresh_status'', ''AT+STATUS?''), (''refresh_bms'', ''AT+GETBMS?''),
     (''refresh_adc'', ''AT+ADC?''), (''refresh_version'', ''AT+VERSION?'')]"

text \<open>The command of a call, for the converted argument if it has one.\<close>

fun at_command ::
    "('o \<Rightarrow> bool option) \<Rightarrow> ('o \<Rightarrow> 32 word option) \<Rightarrow> string \<Rightarrow> 'o list \<Rightarrow> string option" where
  "at_command to_bool to_int name [] = map_of queries name"
| "at_command to_bool to_int name [x] =
     (if name = ''refresh_adc''
      then map_option (\<lambda>i. if sint i < 0 then ''AT+ADC?'' else ''AT+ADC='' @ to_string (sint i)) (to_int x)
      else (case map_of switches name of
              None \<Rightarrow> None
            | Some t \<Rightarrow> map_option (\<lambda>b. t @ (if b then ''1'' else ''0'')) (to_bool x)))"
| "at_command to_bool to_int name _ = None"

lemma nrf_read_line_txlog: "nrf_read_line t l = (r, l') \<Longrightarrow> txlog l' = txlog l"
proof -
  have "nrf_read_loop t start line l = (r, l') \<Longrightarrow> txlog l' = txlog l" for start line l r l'
  proof (induction t start line l rule: nrf_read_loop.induct)
    case (1 t start line l)
    then show ?case
      by (subst (asm) (2) nrf_read_loop.simps)
        (auto simp: Let_def dest: poll_then_read_fields split: if_splits prod.splits poll_read.splits sum.splits)
  qed
  then show "nrf_read_line t l = (r, l') \<Longrightarrow> txlog l' = txlog l"
    by (auto simp: nrf_read_line_def Let_def split: if_splits)
qed

lemma nrf_drain_txlog: "nrf_drain t got resp st l = (e, ok, a, st', l') \<Longrightarrow> txlog l' = txlog l"
proof (induction t got resp st l rule: nrf_drain.induct)
  case (1 t got resp st l)
  then show ?case
    by (subst (asm) (3) nrf_drain.simps)
      (auto dest: nrf_read_line_txlog split: if_splits prod.splits option.splits)
qed

lemma nrf_command_sends:
  assumes "writes_ok (nrf_link d)"
  shows "txlog (nrf_link (snd (nrf_command cmd d))) = txlog (nrf_link d) @ [octets (cmd @ [CR, LF])]"
proof -
  obtain l where l: "nrf_send_cmd cmd (nrf_link d) = (True, l)"
    "txlog l = txlog (nrf_link d) @ [octets (cmd @ [CR, LF])]"
    using assms by (simp add: nrf_send_cmd_def write_raw_ok writes_ok_def)
  obtain e ok a st l' where r: "nrf_drain 500 False [] (nrf_status d) l = (e, ok, a, st, l')"
    by (metis surj_pair)
  from nrf_drain_txlog [OF r] l(2) show ?thesis
    by (simp add: nrf_command_def nrf_send_and_read_def l(1) r)
qed

definition sent_text :: "string option \<Rightarrow> bytes list" where
  "sent_text cmd = (case cmd of None \<Rightarrow> [] | Some t \<Rightarrow> [octets (t @ [CR, LF])])"

definition sends :: "string option \<Rightarrow> nrf_driver \<Rightarrow> nrf_driver \<Rightarrow> bool" where
  "sends cmd d d' \<longleftrightarrow> txlog (nrf_link d') = txlog (nrf_link d) @ sent_text cmd"

lemma sends_nothing [simp]: "sends None d d"
  by (simp add: sends_def sent_text_def)

lemma py_result_driver [simp]: "snd (py_result r) = snd r"
  by (cases r rule: py_result.cases) simp_all

lemma command_sends:
  "writes_ok (nrf_link d) \<Longrightarrow> sends (Some cmd) d (snd (nrf_command cmd d))"
  by (simp add: sends_def sent_text_def nrf_command_sends)

lemmas nrf_commands = set_power48_def set_power5_def set_power19_def set_power12_def estop_def
  clear_estop_def query_estop_def set_watchdog_def query_watchdog_def refresh_status_def
  refresh_bms_def refresh_adc_def refresh_version_def

text \<open>What a call must do: send its command, and nothing when it raises a type error.\<close>

definition answers :: "string option \<Rightarrow> nrf_driver \<Rightarrow> py_outcome \<times> nrf_driver \<Rightarrow> bool" where
  "answers cmd d r \<longleftrightarrow> sends cmd d (snd r) \<and> (fst r = Type_error \<longrightarrow> cmd = None)"

lemma py_result_answers: "sends cmd d (snd r) \<Longrightarrow> answers cmd d (py_result r)"
  by (cases r rule: py_result.cases) (simp_all add: answers_def)

lemma type_error_answers [simp]: "answers None d (x, d)"
  by (simp add: answers_def)

lemma switch_answers:
  assumes "writes_ok (nrf_link d)"
    and "f = (\<lambda>b. nrf_command (t @ (if b then ''1'' else ''0'')))" "map_of switches n = Some t"
    and "n \<noteq> ''refresh_adc''"
  shows "answers (at_command to_bool to_int n [x]) d (py_apply to_bool to_int (Switch f) [x] d)"
  using py_result_answers [OF command_sends [OF assms(1)]] assms(2-4)
  by (cases "to_bool x") simp_all

lemma adc_answers:
  assumes "writes_ok (nrf_link d)"
  shows "answers (at_command to_bool to_int ''refresh_adc'' [x]) d
    (py_apply to_bool to_int (Channel_command refresh_adc i) [x] d)"
  using py_result_answers [OF command_sends [OF assms(1)]]
  by (cases "to_int x") (simp_all add: refresh_adc_def)

lemma switch_functions:
  "set_power48 = (\<lambda>b. nrf_command (''AT+POWER48='' @ (if b then ''1'' else ''0'')))"
  "set_power5 = (\<lambda>b. nrf_command (''AT+POWER5='' @ (if b then ''1'' else ''0'')))"
  "set_power19 = (\<lambda>b. nrf_command (''AT+POWER19='' @ (if b then ''1'' else ''0'')))"
  "set_power12 = (\<lambda>b. nrf_command (''AT+POWER12='' @ (if b then ''1'' else ''0'')))"
  "set_watchdog = (\<lambda>b. nrf_command (''AT+WDG='' @ (if b then ''1'' else ''0'')))"
  by (simp_all add: fun_eq_iff nrf_commands)

lemma table_answers:
  assumes "writes_ok (nrf_link d)"
  shows "list_all (\<lambda>(n, f). answers (at_command to_bool to_int n args) d
    (py_apply to_bool to_int f args d)) nrf_methods"
proof -
  consider "args = []" | x where "args = [x]" | x y zs where "args = x # y # zs"
    by (cases args; cases "tl args") auto
  then show ?thesis
  proof cases
    case 1
    then show ?thesis using py_result_answers [OF command_sends [OF assms]]
      by (simp add: nrf_methods_def nrf_commands queries_def)
  next
    case 2
    have rows: "list_all (\<lambda>(n, f). answers (at_command to_bool to_int n [x]) d
        (py_apply to_bool to_int (Switch f) [x] d))
      [(''set_power48'', set_power48), (''set_power5'', set_power5), (''set_power19'', set_power19),
       (''set_power12'', set_power12), (''set_watchdog'', set_watchdog)]"
      unfolding list.pred_inject(2) prod.case
      by (intro conjI list.pred_inject(1) switch_answers [OF assms switch_functions(1)]
          switch_answers [OF assms switch_functions(2)] switch_answers [OF assms switch_functions(3)]
          switch_answers [OF assms switch_functions(4)] switch_answers [OF assms switch_functions(5)])
        (simp_all add: switches_def)
    then have switch: "answers (at_command to_bool to_int n [x]) d (py_apply to_bool to_int f [x] d)"
      if "(n, f) \<in> set [(''set_power48'', Switch set_power48), (''set_power5'', Switch set_power5),
        (''set_power19'', Switch set_power19), (''set_power12'', Switch set_power12),
        (''set_watchdog'', Switch set_watchdog)]" for n f
      using that unfolding list_all_iff by fastforce
    have rest: "answers (at_command to_bool to_int n [x]) d (py_apply to_bool to_int f [x] d)"
      if "map_of switches n = None" "n \<noteq> ''refresh_adc''" "py_apply to_bool to_int f [x] d = (Type_error, d)"
      for n f
      using that by simp
    show ?thesis unfolding 2 nrf_methods_def list.pred_inject(2) prod.case
      by (intro conjI list.pred_inject(1))
        (rule adc_answers [OF assms] | (rule switch, simp; fail) | (rule rest; simp add: switches_def; fail))+
  next
    case 3
    then show ?thesis by (simp add: nrf_methods_def)
  qed
qed

lemma at_command_names:
  "n \<notin> fst ` set nrf_methods \<Longrightarrow> at_command to_bool to_int n args = None"
proof -
  have "fst ` set switches \<union> fst ` set queries \<union> {''refresh_adc''} \<subseteq> fst ` set nrf_methods"
    by (simp add: switches_def queries_def nrf_methods_def)
  then have "n \<noteq> ''refresh_adc'' \<and> map_of switches n = None \<and> map_of queries n = None"
    if "n \<notin> fst ` set nrf_methods"
    using that by (auto simp: map_of_eq_None_iff)
  then show "n \<notin> fst ` set nrf_methods \<Longrightarrow> at_command to_bool to_int n args = None"
    by (cases "(to_bool, to_int, n, args)" rule: at_command.cases) simp_all
qed

text \<open>C40. What a Python call sends: whatever objects it is given and however pybind11 converts them, a
  call of any method of a power board writes to the port exactly the one command of the board's text
  protocol that belongs to the method and its converted argument. It writes nothing when it is a
  getter, is inherited from \<open>BmsDriver\<close>, has the wrong number of arguments or an argument that is
  not converted; and a call that ends with a \<open>TypeError\<close> is one of these.\<close>

theorem python_call_sends:
  assumes "writes_ok (nrf_link d)" "py_call to_bool to_int name args d = Some (out, d')"
  shows "txlog (nrf_link d') = txlog (nrf_link d) @
      (case at_command to_bool to_int name args of None \<Rightarrow> [] | Some t \<Rightarrow> [octets (t @ [CR, LF])]) \<and>
    (out = Type_error \<longrightarrow> at_command to_bool to_int name args = None)"
proof -
  have "answers (at_command to_bool to_int name args) d (out, d')"
  proof (cases "map_of nrf_methods name")
    case None
    then have "at_command to_bool to_int name args = None"
      by (intro at_command_names) (simp add: map_of_eq_None_iff)
    with None assms(2) show ?thesis by (auto simp: py_call_def)
  next
    case (Some f)
    then have "(name, f) \<in> set nrf_methods" by (rule map_of_SomeD)
    with table_answers [OF assms(1), of to_bool to_int args] have
      "answers (at_command to_bool to_int name args) d (py_apply to_bool to_int f args d)"
      by (auto simp: list_all_iff)
    with Some assms(2) show ?thesis by (simp add: py_call_def)
  qed
  then show ?thesis by (simp add: answers_def sends_def sent_text_def)
qed

text \<open>Conversions as pybind11 documents them: a \<open>bool\<close> parameter takes every object with a truth
  value, an \<open>int\<close> parameter takes integers of 32 bits, of which Python's \<open>bool\<close> is a kind, and no
  \<open>float\<close>.\<close>

datatype py_object = Bool_object bool | Int_object int | Float_object double

fun object_to_bool :: "py_object \<Rightarrow> bool option" where
  "object_to_bool (Bool_object b) = Some b"
| "object_to_bool (Int_object i) = Some (i \<noteq> 0)"
| "object_to_bool (Float_object x) = Some (x \<noteq> 0)"

fun object_to_int :: "py_object \<Rightarrow> 32 word option" where
  "object_to_int (Bool_object b) = Some (if b then 1 else 0)"
| "object_to_int (Int_object i) = (if - (2 ^ 31) \<le> i \<and> i < 2 ^ 31 then Some (word_of_int i) else None)"
| "object_to_int (Float_object x) = None"

text \<open>\<open>set_power48(1)\<close> switches the output on, \<open>refresh_adc(True)\<close> asks for channel 1, and
  \<open>refresh_adc(2**40)\<close> sends nothing.\<close>

theorem python_call_sends_witness:
  "\<exists>d1 d2 d3 out1 out2 out3.
     py_call object_to_bool object_to_int ''set_power48'' [Int_object 1] demo_board = Some (out1, d1) \<and>
     txlog (nrf_link d1) = [octets (''AT+POWER48=1'' @ [CR, LF])] \<and>
     py_call object_to_bool object_to_int ''refresh_adc'' [Bool_object True] demo_board = Some (out2, d2) \<and>
     txlog (nrf_link d2) = [octets (''AT+ADC=1'' @ [CR, LF])] \<and>
     py_call object_to_bool object_to_int ''refresh_adc'' [Int_object (2 ^ 40)] demo_board = Some (out3, d3) \<and>
     txlog (nrf_link d3) = []"
proof -
  have ok: "writes_ok (nrf_link demo_board)" by (simp add: demo_board_def writes_ok_def)
  have called: "\<exists>out d. py_call object_to_bool object_to_int n args demo_board = Some (out, d)"
    if "map_of nrf_methods n = Some f" for n f args
    using that by (simp add: py_call_def)
  have bound: "map_of nrf_methods ''set_power48'' = Some (Switch set_power48)"
    "map_of nrf_methods ''refresh_adc'' = Some (Channel_command refresh_adc (-1))"
    by (simp_all add: nrf_methods_def)
  obtain out1 d1 out2 d2 out3 d3 where calls:
    "py_call object_to_bool object_to_int ''set_power48'' [Int_object 1] demo_board = Some (out1, d1)"
    "py_call object_to_bool object_to_int ''refresh_adc'' [Bool_object True] demo_board = Some (out2, d2)"
    "py_call object_to_bool object_to_int ''refresh_adc'' [Int_object (2 ^ 40)] demo_board = Some (out3, d3)"
    using called [OF bound(1)] called [OF bound(2)] by meson
  have one: "to_string 1 = ''1''" by code_simp
  have board: "txlog (nrf_link demo_board) = []" by (simp add: demo_board_def)
  have "txlog (nrf_link d1) = [octets (''AT+POWER48=1'' @ [CR, LF])]"
    using python_call_sends [OF ok calls(1)] by (simp add: switches_def board)
  moreover have "txlog (nrf_link d2) = [octets (''AT+ADC=1'' @ [CR, LF])]"
    using python_call_sends [OF ok calls(2)] by (simp add: one board)
  moreover have "txlog (nrf_link d3) = []"
    using python_call_sends [OF ok calls(3)] by (simp add: board)
  ultimately show ?thesis using calls by blast
qed

end
