(* ===== verification/Spec2Isabelle.thy ===== *)
theory Spec2Isabelle
  imports Scud_Client Gfcan_Driver Legacy_Chain Daemon_Main Tty_Modes Nrf_Threads
    Python_Bindings
begin

text \<open>
  A verification development of the RoboParty BMS daemon and drivers.

  \<^bold>\<open>The program.\<close> A battery pack hangs on a serial line, on a CAN bus or behind a power board. The
  daemon (\<open>src/bms_daemon.cpp\<close>) polls a serial pack once a second through one of three protocols and
  broadcasts packed \<open>BatteryStatus\<close> records over a Unix socket; client drivers in the robot's process
  read the records in a thread and show them through the getters of \<open>BmsDriver\<close>. CAN packs and the
  power board are read by drivers of their own, without a socket.

  \<^bold>\<open>The theories\<close>, bottom up.

  \<^item> \<open>Bms_Prelude\<close>: names of the word types, bytes and registers, the collection \<open>port_simps\<close>.
  \<^item> \<open>Binary64\<close>: doubles as rationals rounded to 53 bits; the raw integer behind a scaled reading can
    be recovered, and the one division by a computed number has no value for a zero divisor
    (\<open>ddiv_checked\<close>). \<open>Record_Layout\<close>: the bits of a double and the packed record of
    \<open>src/include/bms_driver.hpp\<close>.
  \<^item> \<open>Serial_Port\<close>: \<open>src/protocol/serial\<close>. What the kernel does is data of the state: scripts of poll,
    write and open results.
  \<^item> \<open>Tty_Modes\<close>: the \<open>termios\<close> flags that \<open>SerialPort::open\<close> and \<open>NrfPmicDriver::open_serial\<close> set,
    over a line discipline that is a parameter with the documented behaviour (\<open>posix_input\<close>). The
    battery protocols lose replies with carriage returns unless the terminal was raw before.
  \<^item> \<open>Byte_Crc\<close>, \<open>Modbus_Crc\<close>, \<open>Scud_Crc\<close>: the checksums, their table-free specifications and the
    corruptions they detect.
  \<^item> \<open>Modbus_Link\<close>, \<open>Tws_Protocol\<close>, \<open>Gf_Protocol\<close>: \<open>src/drivers/tws/protocol.cpp\<close> and
    \<open>src/drivers/gf485/protocol.cpp\<close>; which byte streams \<open>read_response\<close> accepts, and the register
    maps.
  \<^item> \<open>Scud_Protocol\<close>, \<open>Scud_Frames\<close>, \<open>Scud_Telemetry\<close>: the protocol half of
    \<open>src/drivers/scud485/scud_bms_driver.cpp\<close>. The frame scanner is specified by the positions of good
    frames (\<open>good_frame_at\<close>) and of headers that begin none (\<open>stale_header_at\<close>) in the bytes that
    arrive, whatever way they are split into reads: which good frames it finds, and which it loses to
    a stale header. \<open>read_all\<close> is all or nothing.
  \<^item> \<open>Reader_Interface\<close>: the contracts \<open>group_reader\<close>, \<open>snapshot_reader\<close> and \<open>fieldwise_protocol\<close>
    between the protocols and the daemon; the protocol theories interpret them.
  \<^item> \<open>Daemon_Loop\<close>, \<open>Daemon\<close>: \<open>run_daemon\<close>, its round, its broadcast and its reopening of the port, as
    locales over a phase and over the port, interpreted for the three protocols. \<open>round_starts\<close> are the
    states the rounds of a run begin in; a record that is sent is traced to the reads on the link of
    its round.
  \<^item> \<open>Record_Types\<close>: the type of the records (\<open>record_wf\<close>): normal doubles, unsigned quantities, a power
    flag of 0 or 1. Every reader, every merge and every phase keeps it.
  \<^item> \<open>Scud_Client\<close>, \<open>Socket_Clients\<close>: the client drivers. The SCUD485 client is a step relation of
    reader, daemon and clock with an invariant; TWS and GF485 clients read whole records.
  \<^item> \<open>Legacy_Chain\<close>: the TWS and GF485 chains as a whole. The record after some rounds is, field by field,
    the newest successful reading of each of its three groups (\<open>latest_record\<close>); the client, the socket and the daemon's writes are a step relation whose
    invariant keeps the stream at record boundaries.
  \<^item> \<open>Can_Socket\<close>, \<open>Gfcan_Driver\<close>: \<open>src/protocol/can\<close>, \<open>src/drivers/gfcan\<close> and \<open>run_can_daemon\<close>. The
    sockets are objects of a store (\<open>can_world\<close>) and the drivers hold references to them, so two
    drivers of an interface share one; frames may arrive between any two calls of a constructor or
    destructor. The locale \<open>frame_dispatch\<close> is what a driver relies on of the socket it shares. From
    the bus to the console: the daemon prints the last readings, even on a dead bus.
  \<^item> \<open>Cpp_Strings\<close>, \<open>Nrf_Driver\<close>: the text protocol of the power board, \<open>src/drivers/nrf\<close>, with \<open>stoi\<close>
    and \<open>stod\<close> and their exceptions. From the reports of the board to the getters.
  \<^item> \<open>Nrf_Threads\<close>: the polling thread of the power board and a caller of its commands on one port, as
    schedules of events. Without commands the schedules include all turns of \<open>poll_loop\<close>; while waits
    do not overlap every parsed line is one of the board; with overlap a report can be torn.
  \<^item> \<open>Bms_Main\<close>: the command line of the daemon (\<open>main\<close>) and the factory \<open>create_bms\<close>. \<open>Daemon_Main\<close>: the
    process, from the arguments through \<open>run_daemon\<close> to its exit status and the records it wrote.
  \<^item> \<open>Python_Bindings\<close>: the method tables of \<open>src/pybind_module.cpp\<close>: what a Python program sees of a
    driver, and which command each call sends to the power board, for any conversion of Python objects
    to \<open>bool\<close> and \<open>int\<close>.

  This theory composes the SCUD485 chain from the pack to the getters of a client, for safety (what
  is shown was read) and for liveness (what arrives is shown).

  \<^bold>\<open>State and failure.\<close> Objects are records named after their members; operations return the updated
  record. A failed call is a \<open>bool\<close> or an option as in the code, an exception is the left of a sum, a
  read out of bounds is \<open>None\<close>, and the end of the process by a signal is the outcome \<open>Killed\<close>.
  Descriptors are integers, negative when closed. Theorems about every link are theorems about every
  behaviour of the line, since its scripts are arbitrary.

  \<^bold>\<open>Loops.\<close> No function uses fuel. The read loops terminate by the events and bytes still to come and,
  on a silent line, by the time to the deadline. A negative timeout of TWS or GF makes \<open>poll\<close> wait
  without limit; such a wait ends with the next event of the line, and when there is none with the
  signal that stops the daemon (\<open>awake\<close>). Loops that run until a signal are functions of the
  list of their turns. The polling thread of the power board is given the number of its turns.

  \<^bold>\<open>Concurrency.\<close> A mutex is modelled by the atomicity of a step. The getters of a client are one
  snapshot each; in the CAN daemon frames may arrive between any two getters. The driver of the power
  board has no lock around its port, so there every \<open>read\<close> of its two threads is a step of its own.

  \<^bold>\<open>Not modelled.\<close> Logging and the texts the daemons print; infinities and NaN, which the arithmetic of
  the serial protocols does not produce since it never divides by zero; a callback of the CAN socket
  that is still running while it is removed; torn accesses to \<open>status_\<close> of
  \<open>NrfPmicDriver\<close>, which two threads use without a lock (C++ gives them no meaning); the truncation of
  long interface names; keyword arguments of Python calls; the updater script, the packaging
  and the firmware images, which are not part of the C++ program.
\<close>

section \<open>From the SCUD pack to the getters of a client\<close>

text \<open>The bytes the daemon has handed to the kernel for the client \<open>f\<close>.\<close>

definition stream_to :: "int \<Rightarrow> (int \<times> nat \<times> battery_status) list \<Rightarrow> bytes" where
  "stream_to f sent =
     concat (map (\<lambda>(g, n, s). if g = f then take n (encode_status s) else []) sent)"

definition records_to :: "int \<Rightarrow> (int \<times> nat \<times> battery_status) list \<Rightarrow> battery_status list" where
  "records_to f sent = map (\<lambda>(g, n, s). s) (filter (\<lambda>(g, n, s). g = f) sent)"

lemma stream_of_whole_writes:
  assumes "list_all (\<lambda>(g, n, s). g = f \<longrightarrow> n = sizeof_status) sent"
    and "list_all (\<lambda>(g, n, s). record_ok s) sent"
  shows "stream_to f sent = concat (map encode_status (records_to f sent))"
  using assms by (induction sent) (auto simp: stream_to_def records_to_def record_ok_def)

lemma records_to_member: "st \<in> set (records_to f sent) \<Longrightarrow> \<exists>n. (f, n, st) \<in> set sent"
  by (auto simp: records_to_def)

lemma is_connected_fresh:
  "is_connected (scud_view t c) \<Longrightarrow> t \<le> last_rx_us c + 3000000"
  by (auto simp: scud_view_def is_data_current_iff)

text \<open>C1. End to end over all components, for every line to the pack, every client and every
  schedule: when the daemon's writes to a client are taken whole and its session began behind the
  first \<open>k\<close> writes, a connected SCUD driver shows, in all its getters, one record, and there is a
  round of this run in which \<open>read_all\<close> on the link, as the round found it, decoded exactly this
  record, while the client was among those served. The record was complete at the driver at most
  three seconds ago.\<close>

theorem scud_end_to_end:
  assumes "daemon_rounds (scud_phase p) (scud_open p) scud_close_port envs d = Some r"
    and "d_sent d = []"
    and "list_all (\<lambda>(g, n, s). g = f \<longrightarrow> n = sizeof_status) (d_sent (outcome_state r))"
    and "reachable sys"
    and "prefix (session sys) (stream_to f (drop k (d_sent (outcome_state r))))"
    and "is_connected (scud_view (clock_us sys) (drv sys))"
  shows "\<exists>dk \<in> set (round_starts (scud_phase p) (scud_open p) scud_close_port envs d). \<exists>st l.
    scud_read_all p zero_status (d_link dk) = Some (True, st, l) \<and> f \<in> set (d_clients dk) \<and>
    scud_view (clock_us sys) (drv sys) =
      view_of_status st (power_on st \<noteq> 0) True (data_age_ms (drv sys) (clock_us sys)) \<and>
    clock_us sys \<le> last_rx_us (drv sys) + 3000000"
proof -
  let ?sent = "d_sent (outcome_state r)"
  note read = scud_sent_was_read [OF assms(1,2)]
  have "record_ok s" if "(g, n, s) \<in> set ?sent" for g n s
    using read [OF that] by (blast intro: record_wf_ok scud_read_all_wf)
  with assms(3) have late: "list_all (\<lambda>(g, n, s). record_ok s) (drop k ?sent)"
    "list_all (\<lambda>(g, n, s). g = f \<longrightarrow> n = sizeof_status) (drop k ?sent)"
    by (auto simp: list_all_iff dest: in_set_dropD)
  then have "list_all record_ok (records_to f (drop k ?sent))"
    by (auto simp: list_all_iff dest!: records_to_member)
  moreover have "prefix (session sys) (concat (map encode_status (records_to f (drop k ?sent))))"
    using assms(5) stream_of_whole_writes [OF late(2,1)] by simp
  ultimately obtain st where st: "st \<in> set (records_to f (drop k ?sent))"
    "scud_view (clock_us sys) (drv sys) =
      view_of_status st (power_on st \<noteq> 0) True (data_age_ms (drv sys) (clock_us sys))"
    using connected_view [OF assms(4,6)] by blast
  from records_to_member [OF st(1)] obtain n where "(f, n, st) \<in> set ?sent"
    by (blast dest: in_set_dropD)
  from read [OF this] st(2) is_connected_fresh [OF assms(6)] show ?thesis by blast
qed

theorem scud_end_to_end_witness:
  "\<exists>r. \<exists>sys :: scud_system. let d = demo_daemon (byte_line (scud_frame 0x61 (be_registers demo_words))) in
     daemon_rounds (scud_phase demo_scud) (scud_open demo_scud) scud_close_port [quiet_env] d = Some r \<and>
     d_sent (outcome_state r) \<noteq> [] \<and> session sys = stream_to 5 (d_sent (outcome_state r)) \<and>
     (\<exists>dk \<in> set (round_starts (scud_phase demo_scud) (scud_open demo_scud) scud_close_port [quiet_env] d).
        \<exists>st l. scud_read_all demo_scud zero_status (d_link dk) = Some (True, st, l) \<and>
          5 \<in> set (d_clients dk) \<and>
          scud_view (clock_us sys) (drv sys) =
            view_of_status st (power_on st \<noteq> 0) True (data_age_ms (drv sys) (clock_us sys)) \<and>
          clock_us sys \<le> last_rx_us (drv sys) + 3000000)"
proof -
  let ?l = "byte_line (scud_frame 0x61 (be_registers demo_words))" and ?d = demo_daemon
  let ?st = "scud_status_of_words demo_words zero_status"
  have w: "length demo_words = 14" by (simp add: demo_words_def)
  have "hunt 0x61 28 (scud_frame 0x61 (be_registers demo_words)) = Some (be_registers demo_words, [])"
    using hunt_noise [of "0x61" "be_registers demo_words" "[]" "[]"] w by simp
  then obtain l1 where q: "query_0x61 demo_scud ?l = (Some (be_registers demo_words), l1)"
    using scud_query_answered [of ?l demo_scud "be_registers demo_words" "[]"] w
    by (auto simp: writes_ok_def demo_scud_def)
  have read: "scud_read_all demo_scud zero_status ?l = Some (True, ?st, l1)"
    using scud_read_all_words [OF q w, of zero_status] by (simp add: demo_words_def)
  then have ph: "scud_phase demo_scud (d_status (?d ?l)) (d_link (?d ?l)) = Some (True, True, ?st, l1)"
    by (simp add: scud_phase_def snapshot_phase_def demo_daemon_def initial_daemon_def)
  have alive: "\<not> pipe_broken (re_write quiet_env) (d_clients (?d ?l))"
    by (simp add: quiet_env_def demo_daemon_def initial_daemon_def pipe_broken_def)
  let ?r = "Running (end_of_round quiet_env (published quiet_env True ?st l1 (?d ?l)))"
  have run: "daemon_rounds (scud_phase demo_scud) (scud_open demo_scud) scud_close_port [quiet_env]
      (?d ?l) = Some ?r"
    using daemon_round_eq [of "scud_phase demo_scud", OF ph] alive by simp
  have sent: "d_sent (outcome_state ?r) = [(5, 126, ?st)]"
    using alive by (simp add: round_simps broadcast_alive)
      (simp add: quiet_env_def demo_daemon_def initial_daemon_def)
  have len: "length (encode_status ?st) = 126"
    by (simp add: scud_status_of_words_def zero_status_def)
  let ?sys = "served_system (encode_status ?st)"
  have stream: "session ?sys = stream_to 5 (d_sent (outcome_state ?r))"
    unfolding sent using len by (simp add: stream_to_def served_system_def)
  have "\<exists>dk \<in> set (round_starts (scud_phase demo_scud) (scud_open demo_scud) scud_close_port
        [quiet_env] (?d ?l)). \<exists>st l.
      scud_read_all demo_scud zero_status (d_link dk) = Some (True, st, l) \<and> 5 \<in> set (d_clients dk) \<and>
      scud_view (clock_us ?sys) (drv ?sys) =
        view_of_status st (power_on st \<noteq> 0) True (data_age_ms (drv ?sys) (clock_us ?sys)) \<and>
      clock_us ?sys \<le> last_rx_us (drv ?sys) + 3000000"
  proof (rule scud_end_to_end [OF run _ _ served_reachable [OF len] _ served_connected, where f = 5 and k = 0])
    show "d_sent (?d ?l) = []" by (simp add: demo_daemon_def initial_daemon_def)
    show "list_all (\<lambda>(g, n, s). g = 5 \<longrightarrow> n = sizeof_status) (d_sent (outcome_state ?r))"
      unfolding sent by simp
    show "prefix (session ?sys) (stream_to 5 (drop 0 (d_sent (outcome_state ?r))))" unfolding stream by simp
  qed
  moreover have "d_sent (outcome_state ?r) \<noteq> []" unfolding sent by simp
  ultimately show ?thesis
    unfolding Let_def using run stream by blast
qed

text \<open>C2. The same chain delivers: when, in a round of the daemon, the pack's telemetry arrives in
  time behind any noise without a frame header, and the write to the client is taken whole, the
  record is written to the client; and a connected driver at a record boundary that reads its
  bytes, in whatever portions, shows exactly this telemetry in all its getters for three seconds
  and calls itself connected.\<close>

theorem scud_telemetry_reaches_getters:
  assumes pack: "writes_ok (d_link d)" "\<not> link_fault (d_link d)"
      "script_time (d_link d) + 1000000 \<le> scud_timeout_ms p * 1000000"
      "coming (d_link d) = noise @ scud_frame 0x61 (be_registers w) @ rest"
      "after_header 0x61 28 (noise @ [FRAME_HEAD, FRAME_HEAD, 0x61]) = None"
      "length w = 14" "w ! 6 \<noteq> 0 \<or> w ! 7 \<noteq> 0"
    and clients: "\<not> pipe_broken (re_write env) (d_clients d)" "f \<in> set (d_clients d)"
      "re_write env f = Wrote sizeof_status"
    and driver: "reachable s" "0 \<le> sock_fd (drv s)" "got (drv s) = 0"
      "\<forall>x \<in> set chunks. snd x \<noteq> []"
      "concat (map snd chunks) = encode_status (scud_status_of_words w zero_status)"
    and time: "0 \<le> fst (last chunks)" "fst (last chunks) \<le> t" "t \<le> fst (last chunks) + 3000000"
  shows "\<exists>d'. daemon_round (scud_phase p) (scud_open p) scud_close_port env d = Some (Running d') \<and>
    (f, sizeof_status, scud_status_of_words w zero_status) \<in> set (d_sent d') \<and>
    scud_view t (read_chunks chunks (drv s)) =
      view_of_status (scud_status_of_words w zero_status) (w ! 0 AND 1 \<noteq> 0) True
        (data_age_ms (read_chunks chunks (drv s)) t)"
proof -
  let ?st = "scud_status_of_words w zero_status"
  have "hunt 0x61 28 (coming (d_link d)) = Some (be_registers w, rest)"
    using hunt_noise [of "0x61" "be_registers w" noise rest] pack(4-6) by simp
  from scud_query_answered [OF pack(1-3) this] obtain l where
    "query_0x61 p (d_link d) = (Some (be_registers w), l)" by blast
  from scud_read_all_words [OF this pack(6), of zero_status] pack(7) have
    "scud_read_all p zero_status (d_link d) = Some (True, ?st, l)" by auto
  then have ph: "scud_phase p (d_status d) (d_link d) = Some (True, True, ?st, l)"
    by (simp add: scud_phase_def snapshot_phase_def)
  let ?d = "end_of_round env (published env True ?st l d)"
  have run: "daemon_round (scud_phase p) (scud_open p) scud_close_port env d = Some (Running ?d)"
    using daemon_round_eq [of "scud_phase p", OF ph] clients(1) by simp
  have sent: "(f, sizeof_status, ?st) \<in> set (d_sent ?d)"
    using clients by (force simp: round_simps broadcast_alive)
  have "power_on ?st \<noteq> 0 \<longleftrightarrow> w ! 0 AND 1 \<noteq> 0" by (simp add: scud_status_of_words_def)
  with record_becomes_visible [OF driver(1-3) record_wf_ok [OF scud_words_wf] driver(4,5) time]
  have "scud_view t (read_chunks chunks (drv s)) = view_of_status ?st (w ! 0 AND 1 \<noteq> 0) True
    (data_age_ms (read_chunks chunks (drv s)) t)" by simp
  with run sent show ?thesis by blast
qed

text \<open>The record arrives in two reads, at 8 and at 9 microseconds.\<close>

definition two_reads :: "bytes \<Rightarrow> (int \<times> bytes) list" where
  "two_reads bs = [(8, take 10 bs), (9, drop 10 bs)]"

theorem scud_telemetry_reaches_getters_witness:
  "\<exists>d'. daemon_round (scud_phase demo_scud) (scud_open demo_scud) scud_close_port quiet_env
      (demo_daemon (byte_line ([] @ scud_frame 0x61 (be_registers demo_words) @ []))) = Some (Running d') \<and>
    (5, sizeof_status, scud_status_of_words demo_words zero_status) \<in> set (d_sent d') \<and>
    scud_view 10 (read_chunks (two_reads (encode_status (scud_status_of_words demo_words zero_status)))
        (drv connected_system)) =
      view_of_status (scud_status_of_words demo_words zero_status) (demo_words ! 0 AND 1 \<noteq> 0) True
        (data_age_ms (read_chunks (two_reads (encode_status (scud_status_of_words demo_words zero_status)))
          (drv connected_system)) 10)"
proof (rule scud_telemetry_reaches_getters [where noise = "[]" and rest = "[]"])
  let ?bs = "encode_status (scud_status_of_words demo_words zero_status)"
  have "length ?bs = 126" by (simp add: scud_status_of_words_def zero_status_def)
  then show "\<forall>x \<in> set (two_reads ?bs). snd x \<noteq> []" "concat (map snd (two_reads ?bs)) = ?bs"
    by (auto simp: two_reads_def)
  show "\<not> pipe_broken (re_write quiet_env)
      (d_clients (demo_daemon (byte_line ([] @ scud_frame 0x61 (be_registers demo_words) @ []))))"
    by (simp add: quiet_env_def demo_daemon_def initial_daemon_def pipe_broken_def)
  show "reachable connected_system" by (rule connected_reachable)
  show "after_header 0x61 28 ([] @ [FRAME_HEAD, FRAME_HEAD, 0x61]) = None"
    by (simp add: after_header.simps)
qed (simp_all add: writes_ok_def demo_words_def demo_scud_def demo_daemon_def initial_daemon_def
    quiet_env_def connected_system_def connected_client_def new_client_def
    two_reads_def)

end
